(* ===== verification/Prelude.thy ===== *)
theory Prelude
  imports Main "HOL-Library.Word" "HOL-Library.AList"
begin

text \<open>
  Shared ground of the development: the machine integers of the Rust sources as words,
  the checked and saturating operations the code calls on them, little-endian byte
  encoding, and a few list facts that several components use.

  A Rust \<open>u8/u32/u64/u128\<close> is a word read with \<open>unat\<close>; a Rust \<open>i64\<close> is a 64-bit word
  read with \<open>sint\<close>. A \<open>Result<T, E>\<close> is the sum \<open>E + T\<close> with \<open>Inl\<close> for the error.
\<close>

unbundle bit_operations_syntax

type_synonym u8 = "8 word"
type_synonym u32 = "32 word"
type_synonym u64 = "64 word"
type_synonym u128 = "128 word"
type_synonym i64 = "64 word"
type_synonym bytes = "8 word list"

named_theorems byte_simps \<open>lengths and slices of byte encodings\<close>

section \<open>Machine arithmetic\<close>

abbreviation i64_MAX :: i64 where "i64_MAX \<equiv> 9223372036854775807"
abbreviation i64_MIN :: i64 where "i64_MIN \<equiv> 9223372036854775808"
abbreviation u32_MAX :: u32 where "u32_MAX \<equiv> 4294967295"
abbreviation u64_MAX :: u64 where "u64_MAX \<equiv> 18446744073709551615"

definition i64_lt :: "i64 \<Rightarrow> i64 \<Rightarrow> bool" where
  "i64_lt a b \<longleftrightarrow> sint a < sint b"

definition i64_max :: "i64 \<Rightarrow> i64 \<Rightarrow> i64" where
  "i64_max a b = (if sint a \<le> sint b then b else a)"

definition i64_checked_sub :: "i64 \<Rightarrow> i64 \<Rightarrow> i64 option" where
  "i64_checked_sub a b =
     (let d = sint a - sint b in
      if - (2 ^ 63) \<le> d \<and> d < 2 ^ 63 then Some (a - b) else None)"

definition i64_checked_add :: "i64 \<Rightarrow> i64 \<Rightarrow> i64 option" where
  "i64_checked_add a b =
     (let d = sint a + sint b in
      if - (2 ^ 63) \<le> d \<and> d < 2 ^ 63 then Some (a + b) else None)"

definition i64_saturating_sub :: "i64 \<Rightarrow> i64 \<Rightarrow> i64" where
  "i64_saturating_sub a b =
     (let d = sint a - sint b in
      if d < - (2 ^ 63) then i64_MIN else if 2 ^ 63 \<le> d then i64_MAX else a - b)"

definition u32_checked_add :: "u32 \<Rightarrow> u32 \<Rightarrow> u32 option" where
  "u32_checked_add a b = (if unat a + unat b < 2 ^ 32 then Some (a + b) else None)"

lemma sint64_range: "- (2 ^ 63) \<le> sint (a :: i64) \<and> sint a < 2 ^ 63"
  using sint_ge [of a] sint_lt [of a] by simp

lemma sint64_of_int:
  assumes "- (2 ^ 63) \<le> k" and "k < 2 ^ 63"
  shows "sint (word_of_int k :: i64) = k"
  using assms by (simp add: sint_sbintrunc' signed_take_bit_int_eq_self)

lemma sint64_eq_iff: "sint (a :: i64) = sint b \<longleftrightarrow> a = b"
  by (rule signed_word_eqI [THEN iffI]) auto

lemma unat32_less: "unat (l :: u32) < 4294967296"
  using unsigned_less [of l, where ?'a = nat] by simp

lemma unat64_less: "unat (l :: u64) < 18446744073709551616"
  using unsigned_less [of l, where ?'a = nat] by simp

lemma u32_checked_succ: "u32_checked_add l 1 = (if l = u32_MAX then None else Some (l + 1))"
proof -
  have "unat l + 1 < 2 ^ 32 \<longleftrightarrow> l \<noteq> u32_MAX"
    using unat32_less [of l] by (auto simp: word_unat_eq_iff)
  then show ?thesis by (simp add: u32_checked_add_def)
qed

lemma u32_less_succ: "l \<noteq> u32_MAX \<Longrightarrow> l < (l :: u32) + 1"
  using unat32_less [of l]
  by (auto simp: word_less_nat_alt unat_word_ariths word_unat_eq_iff)

lemma u32_succ_least: "l < u \<Longrightarrow> (l :: u32) + 1 \<le> u"
  by (rule inc_le)

lemma sint64_sub:
  assumes "- (2 ^ 63) \<le> sint a - sint b" and "sint a - sint b < 2 ^ 63"
  shows "sint (a - b :: i64) = sint a - sint b"
proof -
  have "a - b = word_of_int (sint a - sint b)"
    by (simp only: wi_hom_sub [symmetric] of_int_sint scast_id)
  then show ?thesis using sint64_of_int [OF assms] by simp
qed

lemma sint64_add:
  assumes "- (2 ^ 63) \<le> sint a + sint b" and "sint a + sint b < 2 ^ 63"
  shows "sint (a + b :: i64) = sint a + sint b"
proof -
  have "a + b = word_of_int (sint a + sint b)"
    by (simp only: wi_hom_add [symmetric] of_int_sint scast_id)
  then show ?thesis using sint64_of_int [OF assms] by simp
qed

lemma sint64_saturating_sub:
  "sint (i64_saturating_sub a b) =
     (let d = sint a - sint b in
      if d < - (2 ^ 63) then - (2 ^ 63) else if 2 ^ 63 \<le> d then 2 ^ 63 - 1 else d)"
  by (auto simp: i64_saturating_sub_def Let_def intro!: sint64_sub)

lemma sint64_checked_add:
  "i64_checked_add a b = Some c \<Longrightarrow> sint c = sint a + sint b"
  by (auto simp: i64_checked_add_def Let_def split: if_splits intro!: sint64_add)

lemma sint64_checked_sub:
  "i64_checked_sub a b = Some c \<Longrightarrow> sint c = sint a - sint b"
  by (auto simp: i64_checked_sub_def Let_def split: if_splits intro!: sint64_sub)

section \<open>Little-endian bytes\<close>

text \<open>\<open>to_le_bytes\<close> and \<open>from_le_bytes\<close> of the Rust integers, for a word of \<open>n\<close> bytes.\<close>

fun to_le_bytes :: "nat \<Rightarrow> 'a::len word \<Rightarrow> bytes" where
  "to_le_bytes 0 w = []"
| "to_le_bytes (Suc n) w = ucast w # to_le_bytes n (drop_bit 8 w)"

fun from_le_bytes :: "bytes \<Rightarrow> 'a::len word" where
  "from_le_bytes [] = 0"
| "from_le_bytes (b # bs) = ucast b OR push_bit 8 (from_le_bytes bs)"

lemma length_to_le_bytes [simp, byte_simps]: "length (to_le_bytes n w) = n"
  by (induction n arbitrary: w) auto

lemma from_to_le_bytes_take_bit:
  "from_le_bytes (to_le_bytes n (w :: 'a::len word)) = take_bit (8 * n) w"
proof (induction n arbitrary: w)
  case 0
  show ?case by simp
next
  case (Suc n)
  show ?case
    unfolding to_le_bytes.simps from_le_bytes.simps Suc.IH
    by (rule bit_word_eqI) (auto simp: bit_simps)
qed

lemma from_to_le_bytes:
  "LENGTH('a) \<le> 8 * n \<Longrightarrow> from_le_bytes (to_le_bytes n (w :: 'a::len word)) = w"
  by (simp add: from_to_le_bytes_take_bit take_bit_word_eq_self)

lemma to_le_bytes_take_bit:
  "8 * n \<le> m \<Longrightarrow> to_le_bytes n (take_bit m w) = to_le_bytes n w"
proof (induction n arbitrary: m w)
  case 0
  show ?case by simp
next
  case (Suc n)
  have "ucast (take_bit m w) = (ucast w :: u8)"
    using Suc.prems by (intro bit_word_eqI) (auto simp: bit_simps)
  moreover have "drop_bit 8 (take_bit m w) = take_bit (m - 8) (drop_bit 8 w)"
    using Suc.prems by (intro bit_word_eqI) (auto simp: bit_simps)
  ultimately show ?case
    using Suc.IH [of "m - 8" "drop_bit 8 w"] Suc.prems by simp
qed

lemma to_from_le_bytes:
  assumes "8 * length bs \<le> LENGTH('a)"
  shows "to_le_bytes (length bs) (from_le_bytes bs :: 'a::len word) = bs"
  using assms
proof (induction bs)
  case Nil
  show ?case by simp
next
  case (Cons b bs)
  let ?x = "from_le_bytes bs :: 'a word"
  have "ucast (ucast b OR push_bit 8 ?x) = b"
    using Cons.prems by (intro bit_word_eqI) (auto simp: bit_simps)
  moreover have "drop_bit 8 (ucast b OR push_bit 8 ?x) = take_bit (LENGTH('a) - 8) ?x"
    by (intro bit_word_eqI) (auto simp: bit_simps dest: bit_imp_le_length)
  ultimately show ?case
    using Cons by (simp add: to_le_bytes_take_bit)
qed

lemma to_from_le_bytes_u32: "length bs = 4 \<Longrightarrow> to_le_bytes 4 (from_le_bytes bs :: u32) = bs"
  using to_from_le_bytes [of bs, where ?'a = 32] by simp

lemma to_from_le_bytes_u64: "length bs = 8 \<Longrightarrow> to_le_bytes 8 (from_le_bytes bs :: u64) = bs"
  using to_from_le_bytes [of bs, where ?'a = 64] by simp

lemma from_to_le_bytes_u32 [simp]: "from_le_bytes (to_le_bytes 4 (w :: u32)) = w"
  by (rule from_to_le_bytes) simp

lemma from_to_le_bytes_u64 [simp]: "from_le_bytes (to_le_bytes 8 (w :: u64)) = w"
  by (rule from_to_le_bytes) simp

section \<open>Sizes and hash maps\<close>

text \<open>
  A \<open>usize\<close> is a natural number below \<open>2 ^ 64\<close>; the checked and saturating operations write the
  bound out. A \<open>HashMap\<close> is an association list with distinct keys. Its order stands for the
  unspecified iteration order of the Rust map, so a result that must not depend on that order has
  to be proved for every permutation.
\<close>

definition usize_checked_add :: "nat \<Rightarrow> nat \<Rightarrow> nat option" where
  "usize_checked_add a b = (if a + b < 2 ^ 64 then Some (a + b) else None)"

definition usize_checked_mul :: "nat \<Rightarrow> nat \<Rightarrow> nat option" where
  "usize_checked_mul a b = (if a * b < 2 ^ 64 then Some (a * b) else None)"

definition usize_saturating_add :: "nat \<Rightarrow> nat \<Rightarrow> nat" where
  "usize_saturating_add a b = min (a + b) (2 ^ 64 - 1)"

type_synonym ('k, 'v) hashmap = "('k \<times> 'v) list"

abbreviation hm_wf :: "('k, 'v) hashmap \<Rightarrow> bool" where
  "hm_wf m \<equiv> distinct (map fst m)"

abbreviation hm_get :: "('k, 'v) hashmap \<Rightarrow> 'k \<Rightarrow> 'v option" where
  "hm_get m k \<equiv> map_of m k"

abbreviation hm_insert :: "'k \<Rightarrow> 'v \<Rightarrow> ('k, 'v) hashmap \<Rightarrow> ('k, 'v) hashmap" where
  "hm_insert \<equiv> AList.update"

abbreviation hm_remove :: "'k \<Rightarrow> ('k, 'v) hashmap \<Rightarrow> ('k, 'v) hashmap" where
  "hm_remove \<equiv> AList.delete"

lemma hm_get_insert [simp]: "hm_get (hm_insert k v m) k' = (if k' = k then Some v else hm_get m k')"
  by (simp add: update_conv')

lemma hm_get_remove [simp]: "hm_get (hm_remove k m) k' = (if k' = k then None else hm_get m k')"
  by (simp add: delete_conv')

lemma hm_wf_insert [simp, intro]: "hm_wf m \<Longrightarrow> hm_wf (hm_insert k v m)"
  by (rule distinct_update)

lemma hm_wf_remove [simp, intro]: "hm_wf m \<Longrightarrow> hm_wf (hm_remove k m)"
  by (rule distinct_delete)

text \<open>
  A loop over the entries of a map in which the round for a key touches only that key: what a
  lookup finds afterwards. \<open>get\<close> observes the loop's state.
\<close>

lemma fold_keyed:
  assumes "\<And>k v r k'. get (f (k, v) r) k' = (if k' = k then g k v (get r k) else get r k')" "hm_wf m"
  shows "get (fold f m r) k = (case hm_get m k of None \<Rightarrow> get r k | Some v \<Rightarrow> g k v (get r k))"
  using assms(2)
proof (induction m arbitrary: r)
  case (Cons e m)
  obtain a b where e: "e = (a, b)"
    by fastforce
  have fresh: "hm_get m a = None"
    using Cons.prems e by (simp add: map_of_eq_None_iff)
  have "get (fold f (e # m) r) k =
      (case hm_get m k of None \<Rightarrow> get (f e r) k | Some v \<Rightarrow> g k v (get (f e r) k))"
    using Cons by simp
  then show ?case
    using fresh by (cases "k = a") (simp_all add: e assms(1) split: option.split)
qed simp

lemma hm_get_mem: "hm_wf m \<Longrightarrow> hm_get m k = Some v \<longleftrightarrow> (k, v) \<in> set m"
  by (rule map_of_eq_Some_iff)

section \<open>Fixed-width codecs\<close>

text \<open>
  The interface of a decoder that reads a value of fixed width from the front of a buffer
  and returns it with the number of bytes consumed. \<open>ok\<close> is the set of values the decoder
  accepts. A client that reads several fields in a row relies on these three laws only.
\<close>

locale fixed_codec =
  fixes enc :: "'a \<Rightarrow> bytes"
    and dec :: "bytes \<Rightarrow> 'e + 'a \<times> nat"
    and ok :: "'a \<Rightarrow> bool"
    and width :: nat
  assumes enc_length: "length (enc x) = width"
    and dec_enc: "ok x \<Longrightarrow> dec (enc x @ rest) = Inr (x, width)"
    and dec_sound: "dec bs = Inr (x, n) \<Longrightarrow> n = width \<and> ok x \<and> take width bs = enc x"
begin

lemma dec_iff: "dec bs = Inr (x, n) \<longleftrightarrow> n = width \<and> ok x \<and> take width bs = enc x"
proof
  assume r: "n = width \<and> ok x \<and> take width bs = enc x"
  then have "bs = enc x @ drop width bs"
    by (metis append_take_drop_id)
  with r show "dec bs = Inr (x, n)"
    by (metis dec_enc)
qed (rule dec_sound)

lemma dec_exact: "ok x \<Longrightarrow> dec (enc x) = Inr (x, width)"
  using dec_enc [of x "[]"] by simp

lemma enc_inject: "ok x \<Longrightarrow> ok y \<Longrightarrow> enc x = enc y \<longleftrightarrow> x = y"
  by (metis dec_exact Inr_inject prod.inject)

lemma take_enc: "take width (enc x @ rest) = enc x"
  by (simp add: enc_length)

lemma drop_enc: "drop width (enc x @ rest) = rest"
  by (simp add: enc_length)

end

end
