(* ===== verification/Ids.thy ===== *)
theory Ids
  imports Prelude
begin

text \<open>
  Identifiers and their generator: \<open>src/core/id.rs\<close>, with the storage errors of
  \<open>src/core/error.rs\<close> that the modelled code returns. The human-readable strings an error
  carries (\<open>reason\<close>, \<open>format!\<close> texts) are left out; every constructor and its data are kept.
\<close>

section \<open>Identifier types\<close>

datatype NodeId = NodeId (node_u64: u64)
datatype EdgeId = EdgeId (edge_u64: u64)
datatype VersionId = VersionId (version_u64: u64)

datatype EntityId = Node NodeId | Edge EdgeId

datatype PersistenceErrorKind =
    PKCorrupted
  | PKInternerMismatch
  | PKUnsupportedVersion
  | PKMissingIndex
  | PKInvalidMagic
  | PKSizeLimitExceeded
  | PKIo
  | PKSerialization
  | PKUnknown

datatype StorageError =
    NodeNotFound NodeId
  | EdgeNotFound EdgeId
  | StorageVersionNotFound VersionId
  | DuplicateId
  | InvalidProperty string
  | InconsistentState
  | WalError
  | WalKeyringAlreadyInstalled
  | WalKeyringNotInstalled
  | IndexKeyringAlreadyInstalled
  | ColdKeyringAlreadyInstalled
  | PreV13WalTailRequiresMigration
  | CheckpointError
  | IoError
  | CorruptedData
  | PersistenceErrorWithKind PersistenceErrorKind
  | PersistenceError
  | PropertyNotFound string
  | InvalidId u64 string
  | CapacityExceeded string nat nat
  | PrincipalQuotaExceeded string nat nat
  | StorageLockPoisoned string
  | EncryptionError
  | KeyProviderError

instantiation NodeId :: linorder
begin

definition less_eq_NodeId :: "NodeId \<Rightarrow> NodeId \<Rightarrow> bool" where
  "less_eq_NodeId a b \<longleftrightarrow> node_u64 a \<le> node_u64 b"

definition less_NodeId :: "NodeId \<Rightarrow> NodeId \<Rightarrow> bool" where
  "less_NodeId a b \<longleftrightarrow> node_u64 a < node_u64 b"

instance
  by standard (auto simp: less_eq_NodeId_def less_NodeId_def intro: NodeId.expand)

end

instantiation EdgeId :: linorder
begin

definition less_eq_EdgeId :: "EdgeId \<Rightarrow> EdgeId \<Rightarrow> bool" where
  "less_eq_EdgeId a b \<longleftrightarrow> edge_u64 a \<le> edge_u64 b"

definition less_EdgeId :: "EdgeId \<Rightarrow> EdgeId \<Rightarrow> bool" where
  "less_EdgeId a b \<longleftrightarrow> edge_u64 a < edge_u64 b"

instance
  by standard (auto simp: less_eq_EdgeId_def less_EdgeId_def intro: EdgeId.expand)

end

instantiation VersionId :: linorder
begin

definition less_eq_VersionId :: "VersionId \<Rightarrow> VersionId \<Rightarrow> bool" where
  "less_eq_VersionId a b \<longleftrightarrow> version_u64 a \<le> version_u64 b"

definition less_VersionId :: "VersionId \<Rightarrow> VersionId \<Rightarrow> bool" where
  "less_VersionId a b \<longleftrightarrow> version_u64 a < version_u64 b"

instance
  by standard (auto simp: less_eq_VersionId_def less_VersionId_def intro: VersionId.expand)

end

definition MAX_VALID_ID :: u64 where
  "MAX_VALID_ID = u64_MAX - 1000"

definition NodeId_new :: "u64 \<Rightarrow> StorageError + NodeId" where
  "NodeId_new i = (if MAX_VALID_ID < i then Inl (InvalidId i ''node'') else Inr (NodeId i))"

definition EdgeId_new :: "u64 \<Rightarrow> StorageError + EdgeId" where
  "EdgeId_new i = (if MAX_VALID_ID < i then Inl (InvalidId i ''edge'') else Inr (EdgeId i))"

definition VersionId_new :: "u64 \<Rightarrow> StorageError + VersionId" where
  "VersionId_new i =
     (if MAX_VALID_ID < i then Inl (InvalidId i ''version'') else Inr (VersionId i))"

fun is_node :: "EntityId \<Rightarrow> bool" where
  "is_node (Node _) = True"
| "is_node (Edge _) = False"

fun is_edge :: "EntityId \<Rightarrow> bool" where
  "is_edge (Node _) = False"
| "is_edge (Edge _) = True"

fun as_node :: "EntityId \<Rightarrow> NodeId option" where
  "as_node (Node n) = Some n"
| "as_node (Edge _) = None"

fun as_edge :: "EntityId \<Rightarrow> EdgeId option" where
  "as_edge (Node _) = None"
| "as_edge (Edge e) = Some e"

section \<open>Structural version ids\<close>

definition STRUCTURAL_VERSION_TAG :: u64 where
  "STRUCTURAL_VERSION_TAG = push_bit 62 1"

definition strip_structural_tag :: "u64 \<Rightarrow> u64" where
  "strip_structural_tag i = i AND NOT STRUCTURAL_VERSION_TAG"

definition VersionId_structural :: "u64 \<Rightarrow> StorageError + VersionId" where
  "VersionId_structural sequence =
     VersionId_new (strip_structural_tag sequence OR STRUCTURAL_VERSION_TAG)"

definition is_structural :: "VersionId \<Rightarrow> bool" where
  "is_structural v \<longleftrightarrow> version_u64 v AND STRUCTURAL_VERSION_TAG \<noteq> 0"

section \<open>The id generator\<close>

text \<open>
  One atomic counter. \<open>fetch_add\<close> wraps at \<open>2 ^ 64\<close>; \<open>next\<close> reports ids of the reserved
  range as errors but has already moved the counter.
\<close>

record IdGenerator =
  next_id :: u64

definition IdGenerator_new :: IdGenerator where
  "IdGenerator_new = \<lparr>next_id = 0\<rparr>"

definition with_start :: "u64 \<Rightarrow> IdGenerator" where
  "with_start start = \<lparr>next_id = start\<rparr>"

definition gen_next :: "IdGenerator \<Rightarrow> (StorageError + u64) \<times> IdGenerator" where
  "gen_next g =
     (let i = next_id g; g' = g\<lparr>next_id := i + 1\<rparr> in
      (if MAX_VALID_ID < i then Inl (InvalidId i ''generated'') else Inr i, g'))"

definition gen_current :: "IdGenerator \<Rightarrow> u64" where
  "gen_current g = next_id g"

definition gen_reset_to :: "u64 \<Rightarrow> IdGenerator \<Rightarrow> IdGenerator" where
  "gen_reset_to v g = g\<lparr>next_id := strip_structural_tag v\<rparr>"

text \<open>The compare-and-swap loop of \<open>ensure_at_least\<close>, run without interference.\<close>

definition ensure_at_least :: "u64 \<Rightarrow> IdGenerator \<Rightarrow> IdGenerator" where
  "ensure_at_least min_value g =
     (let m = strip_structural_tag min_value in
      if next_id g < m then g\<lparr>next_id := m\<rparr> else g)"

fun gen_take :: "nat \<Rightarrow> IdGenerator \<Rightarrow> (StorageError + u64) list \<times> IdGenerator" where
  "gen_take 0 g = ([], g)"
| "gen_take (Suc n) g =
     (let (r, g') = gen_next g; (rs, g'') = gen_take n g' in (r # rs, g''))"

text \<open>
  Re-seeding of the version generator when persisted indexes are loaded
  (\<open>src/storage/index_persistence/operations.rs\<close>). The live graph snapshot installs the
  largest raw version id it holds, plus one; the historical versions then raise the generator
  to their own largest raw id, plus one.
\<close>

definition max_version_id :: "VersionId list \<Rightarrow> u64" where
  "max_version_id vs = foldl (\<lambda>m v. max m (version_u64 v)) 0 vs"

definition seed_from_graph :: "VersionId list \<Rightarrow> IdGenerator \<Rightarrow> IdGenerator" where
  "seed_from_graph vs g = (if vs = [] then g else gen_reset_to (max_version_id vs + 1) g)"

definition seed_from_history :: "VersionId list \<Rightarrow> IdGenerator \<Rightarrow> IdGenerator" where
  "seed_from_history vs g = (if vs = [] then g else ensure_at_least (max_version_id vs + 1) g)"


section \<open>Properties\<close>

lemma bit_STRUCTURAL_VERSION_TAG: "bit STRUCTURAL_VERSION_TAG n \<longleftrightarrow> n = 62"
  unfolding STRUCTURAL_VERSION_TAG_def by (subst bit_push_bit_iff) (auto simp: bit_1_iff)

lemma is_structural_iff_bit: "is_structural v \<longleftrightarrow> bit (version_u64 v) 62"
proof -
  have "bit (version_u64 v AND STRUCTURAL_VERSION_TAG) n \<longleftrightarrow> n = 62 \<and> bit (version_u64 v) 62" for n
    by (auto simp: bit_and_iff bit_STRUCTURAL_VERSION_TAG)
  then show ?thesis
    unfolding is_structural_def by (metis bit_0_eq bot_apply bot_bool_def bit_word_eqI)
qed


lemma bit_strip_structural_tag: "bit (strip_structural_tag i) n \<longleftrightarrow> bit i n \<and> n \<noteq> 62"
  by (auto simp: strip_structural_tag_def bit_and_iff bit_not_iff bit_STRUCTURAL_VERSION_TAG
      dest: bit_imp_le_length)

lemma strip_structural_tag_id: "\<not> bit i 62 \<Longrightarrow> strip_structural_tag i = i"
  by (rule bit_word_eqI) (metis bit_strip_structural_tag)

lemma not_bit_below:
  assumes "unat (i :: u64) < 2 ^ k"
  shows "\<not> bit i k"
proof -
  have "\<not> bit (unat i) k"
    using assms by (simp add: bit_iff_odd)
  then show ?thesis by (simp add: bit_unsigned_iff)
qed

lemma structural_u64: "strip_structural_tag s OR STRUCTURAL_VERSION_TAG = s OR STRUCTURAL_VERSION_TAG"
  by (rule bit_word_eqI) (auto simp: bit_or_iff bit_strip_structural_tag bit_STRUCTURAL_VERSION_TAG)

lemma not_bit63_less:
  assumes "\<not> bit (x :: u64) 63"
  shows "unat x < 2 ^ 63"
proof -
  have "x = take_bit 63 x"
  proof (rule bit_word_eqI)
    fix n :: nat assume "n < LENGTH(64)"
    then have "n < 64" by simp
    with assms show "bit x n = bit (take_bit 63 x) n"
      by (cases "n = 63") (auto simp: bit_take_bit_iff)
  qed
  then have "unat x = take_bit 63 (unat x)"
    by (metis unsigned_take_bit_eq)
  then show ?thesis by (metis take_bit_nat_less_exp)
qed

lemma MAX_VALID_ID_unat: "unat MAX_VALID_ID = 18446744073709550615"
  by (simp add: MAX_VALID_ID_def)

text \<open>
  A structural id minted from a generator sequence number is valid, is recognised as
  structural, and gives its sequence number back when the tag is stripped.
\<close>

theorem structural_id_roundtrip:
  assumes "unat s < 2 ^ 62"
  shows "\<exists>v. VersionId_structural s = Inr v \<and> is_structural v
    \<and> strip_structural_tag (version_u64 v) = s"
proof -
  let ?x = "s OR STRUCTURAL_VERSION_TAG"
  have nb: "\<not> bit s 62" "\<not> bit s 63"
    using assms not_bit_below [of s 62] not_bit_below [of s 63] by simp_all
  have "\<not> bit ?x 63"
    using nb by (simp add: bit_or_iff bit_STRUCTURAL_VERSION_TAG)
  then have "unat ?x < 2 ^ 63" by (rule not_bit63_less)
  then have "\<not> MAX_VALID_ID < ?x"
    by (simp add: word_less_nat_alt MAX_VALID_ID_unat)
  then have "VersionId_structural s = Inr (VersionId ?x)"
    by (simp add: VersionId_structural_def structural_u64 VersionId_new_def)
  moreover have "is_structural (VersionId ?x)"
    by (simp add: is_structural_iff_bit bit_or_iff bit_STRUCTURAL_VERSION_TAG)
  moreover have "strip_structural_tag ?x = s"
    using nb by (intro bit_word_eqI)
      (auto simp: bit_strip_structural_tag bit_or_iff bit_STRUCTURAL_VERSION_TAG)
  ultimately show ?thesis by auto
qed

theorem structural_id_roundtrip_witness:
  "\<exists>v. VersionId_structural 42 = Inr v \<and> is_structural v
    \<and> strip_structural_tag (version_u64 v) = 42"
  by (rule structural_id_roundtrip) simp

lemma gen_next_simps [simp]:
  "next_id (snd (gen_next g)) = next_id g + 1"
  "fst (gen_next g) =
     (if MAX_VALID_ID < next_id g then Inl (InvalidId (next_id g) ''generated'')
      else Inr (next_id g))"
  by (simp_all add: gen_next_def Let_def)

lemma gen_take_Suc:
  "gen_take (Suc n) g =
     (fst (gen_next g) # fst (gen_take n (snd (gen_next g))), snd (gen_take n (snd (gen_next g))))"
  by (simp add: case_prod_unfold Let_def)

declare gen_take.simps(2) [simp del]

lemma gen_take_bounds:
  "unat (next_id g) + n \<le> 2 ^ 64 \<Longrightarrow> Inr i \<in> set (fst (gen_take n g)) \<Longrightarrow>
     next_id g \<le> i \<and> i \<le> MAX_VALID_ID"
proof (induction n arbitrary: g)
  case 0
  then show ?case by simp
next
  case (Suc n)
  show ?case
  proof (cases "n = 0")
    case True
    with Suc.prems show ?thesis
      by (auto simp: gen_take_Suc split: if_splits)
  next
    case False
    with Suc.prems(1) have u: "unat (next_id g + 1) = unat (next_id g) + 1"
      by (simp add: unat_word_ariths)
    then have "next_id g \<le> next_id g + 1"
      by (simp add: word_le_nat_alt)
    with Suc.prems u Suc.IH [of "snd (gen_next g)"] show ?thesis
      by (auto simp: gen_take_Suc split: if_splits)
  qed
qed

text \<open>
  C39: as long as the 64-bit counter does not wrap, the ids one generator hands out are strictly
  increasing, hence unique, and never in the reserved range.
\<close>

theorem generated_ids_strictly_increase:
  assumes "unat (next_id g) + n \<le> 2 ^ 64"
  shows "sorted_wrt (<) [i. Inr i \<leftarrow> fst (gen_take n g)]
    \<and> (\<forall>i. Inr i \<in> set (fst (gen_take n g)) \<longrightarrow> next_id g \<le> i \<and> i \<le> MAX_VALID_ID)"
proof -
  have "sorted_wrt (<) [i. Inr i \<leftarrow> fst (gen_take n g)]"
    using assms
  proof (induction n arbitrary: g)
    case 0
    then show ?case by simp
  next
    case (Suc n)
    show ?case
    proof (cases "n = 0")
      case True
      then show ?thesis by (simp add: gen_take_Suc)
    next
      case False
      with Suc.prems have u: "unat (next_id g + 1) = unat (next_id g) + 1"
        by (simp add: unat_word_ariths)
      let ?g = "snd (gen_next g)"
      have b: "unat (next_id ?g) + n \<le> 2 ^ 64" using Suc.prems u by simp
      have "next_id g < i" if "Inr i \<in> set (fst (gen_take n ?g))" for i
        using gen_take_bounds [OF b that] u by (simp add: word_less_nat_alt word_le_nat_alt)
      with Suc.IH [OF b] show ?thesis
        by (auto simp: gen_take_Suc)
    qed
  qed
  with gen_take_bounds [OF assms] show ?thesis by blast
qed

theorem generated_ids_strictly_increase_witness:
  "sorted_wrt (<) [i. Inr i \<leftarrow> fst (gen_take 3 IdGenerator_new)]"
proof -
  have "unat (next_id IdGenerator_new) + 3 \<le> 2 ^ 64"
    by (simp add: IdGenerator_new_def)
  from generated_ids_strictly_increase [OF this] show ?thesis by blast
qed

section \<open>Re-seeding\<close>

lemma max_version_id_foldl:
  "m \<le> foldl (\<lambda>m v. max m (version_u64 v)) m vs
   \<and> (\<forall>v \<in> set vs. version_u64 v \<le> foldl (\<lambda>m v. max m (version_u64 v)) m vs)"
proof (induction vs arbitrary: m)
  case Nil
  show ?case by simp
next
  case (Cons v vs)
  have "max m (version_u64 v) \<le> foldl (\<lambda>m v. max m (version_u64 v)) (max m (version_u64 v)) vs"
    using Cons.IH by blast
  with Cons.IH [of "max m (version_u64 v)"] show ?case by auto
qed

lemma max_version_id_ge: "v \<in> set vs \<Longrightarrow> version_u64 v \<le> max_version_id vs"
  using max_version_id_foldl [of 0 vs] by (simp add: max_version_id_def)

lemma max_version_id_in:
  "max_version_id vs = 0 \<or> (\<exists>v \<in> set vs. max_version_id vs = version_u64 v)"
proof -
  have "foldl (\<lambda>m v. max m (version_u64 v)) m vs = m
      \<or> (\<exists>v \<in> set vs. foldl (\<lambda>m v. max m (version_u64 v)) m vs = version_u64 v)" for m
    by (induction vs arbitrary: m) (fastforce simp: max_def)+
  then show ?thesis by (simp add: max_version_id_def)
qed







text \<open>
  Loading persisted history re-seeds correctly when it holds no structural id: the
  generator then continues above every persisted version id.
\<close>

theorem history_seed_above_plain_ids:
  assumes "\<forall>v \<in> set vs. \<not> is_structural v \<and> version_u64 v < 2 ^ 62 - 1" and "v \<in> set vs"
  shows "version_u64 v < gen_current (seed_from_history vs g)"
proof -
  let ?m = "max_version_id vs"
  have m: "?m < 2 ^ 62 - 1"
    using max_version_id_in [of vs] assms(1) by auto
  then have u: "unat (?m + 1) = unat ?m + 1" "unat ?m + 1 < 2 ^ 62"
    by (auto simp: word_less_nat_alt unat_word_ariths)
  then have "strip_structural_tag (?m + 1) = ?m + 1"
    using not_bit_below [of "?m + 1" 62] by (intro strip_structural_tag_id) simp
  moreover have "version_u64 v < ?m + 1"
    using max_version_id_ge [OF assms(2)] u(1) by (simp add: word_le_nat_alt word_less_nat_alt)
  ultimately show ?thesis
    using assms(2) by (auto simp: seed_from_history_def ensure_at_least_def gen_current_def Let_def)
qed

theorem history_seed_above_plain_ids_witness:
  "version_u64 (VersionId 9) <
     gen_current (seed_from_history [VersionId 3, VersionId 9] IdGenerator_new)"
  by (rule history_seed_above_plain_ids)
    (auto simp: is_structural_def STRUCTURAL_VERSION_TAG_def)

text \<open>
  C22: with structural ids in the persisted data the index load can move the generator below
  plain ids that are already in use: the raw maximum is a tagged id, and stripping its tag
  after the maximum was taken forgets the larger plain ids. The generator then reissues one.
\<close>

theorem index_load_reissues_version_id:
  "\<exists>cur hist v. v \<in> set hist \<and> \<not> is_structural v
     \<and> list_all (\<lambda>w. version_u64 w \<le> MAX_VALID_ID) (cur @ hist)
     \<and> (\<exists>g'. gen_next (seed_from_history hist (seed_from_graph cur IdGenerator_new))
          = (Inr (version_u64 v), g'))"
proof -
  let ?t = "VersionId (3 OR STRUCTURAL_VERSION_TAG)"
  let ?cur = "[VersionId 0]" and ?hist = "[VersionId 0, ?t, VersionId 4, VersionId 5]"
  have "gen_next (seed_from_history ?hist (seed_from_graph ?cur IdGenerator_new))
      = (Inr (version_u64 (VersionId 4)), \<lparr>next_id = 5\<rparr>)"
    by (simp add: seed_from_history_def seed_from_graph_def gen_reset_to_def ensure_at_least_def
        max_version_id_def strip_structural_tag_def STRUCTURAL_VERSION_TAG_def IdGenerator_new_def
        gen_next_def MAX_VALID_ID_def)
  moreover have "list_all (\<lambda>w. version_u64 w \<le> MAX_VALID_ID) (?cur @ ?hist)"
    by (simp add: MAX_VALID_ID_def STRUCTURAL_VERSION_TAG_def)
  moreover have "\<not> is_structural (VersionId 4)"
    by (simp add: is_structural_def STRUCTURAL_VERSION_TAG_def)
  ultimately show ?thesis
    by (intro exI [of _ ?cur] exI [of _ ?hist] exI [of _ "VersionId 4"]) auto
qed

end
