(* ===== verification/Hlc.thy ===== *)
theory Hlc
  imports Ids
begin

text \<open>
  Hybrid logical clock timestamps: \<open>src/core/hlc.rs\<close>. A timestamp is an \<open>i64\<close> wallclock and
  a \<open>u32\<close> logical counter, ordered lexicographically (the derived \<open>Ord\<close>). \<open>send\<close> and
  \<open>receive\<close> are the two clock rules; \<open>evaluate_clock_skew\<close> and
  \<open>send_with_overflow_self_heal\<close> are what the commit path puts around them.
\<close>

section \<open>Timestamps and their order\<close>

datatype HybridTimestamp = HybridTimestamp (wallclock: i64) (logical: u32)

instantiation HybridTimestamp :: linorder
begin

definition less_eq_HybridTimestamp :: "HybridTimestamp \<Rightarrow> HybridTimestamp \<Rightarrow> bool" where
  "less_eq_HybridTimestamp a b \<longleftrightarrow>
     sint (wallclock a) < sint (wallclock b)
     \<or> wallclock a = wallclock b \<and> logical a \<le> logical b"

definition less_HybridTimestamp :: "HybridTimestamp \<Rightarrow> HybridTimestamp \<Rightarrow> bool" where
  "less_HybridTimestamp a b \<longleftrightarrow>
     sint (wallclock a) < sint (wallclock b)
     \<or> wallclock a = wallclock b \<and> logical a < logical b"

instance
proof
  fix a b c :: HybridTimestamp
  show "(a < b) = (a \<le> b \<and> \<not> b \<le> a)"
    by (auto simp: less_eq_HybridTimestamp_def less_HybridTimestamp_def)
  show "a \<le> a"
    by (simp add: less_eq_HybridTimestamp_def)
  show "a \<le> b \<Longrightarrow> b \<le> c \<Longrightarrow> a \<le> c"
    by (auto simp: less_eq_HybridTimestamp_def)
  show "a \<le> b \<Longrightarrow> b \<le> a \<Longrightarrow> a = b"
    by (auto simp: less_eq_HybridTimestamp_def intro: HybridTimestamp.expand)
  show "a \<le> b \<or> b \<le> a"
    using sint64_eq_iff [of "wallclock a" "wallclock b"]
    by (auto simp: less_eq_HybridTimestamp_def)
qed

end

lemmas hts_order = less_eq_HybridTimestamp_def less_HybridTimestamp_def

datatype TemporalError =
    NonMonotonicTransactionTime HybridTimestamp HybridTimestamp
  | InvalidTimeRange HybridTimestamp HybridTimestamp
  | InvalidTimestamp HybridTimestamp
  | TemporalParadox
  | ValidTimeBeforeCreation HybridTimestamp HybridTimestamp
  | VersionAlreadyClosed VersionId
  | CorruptedVersionChain
  | MissingAnchor
  | MaxDepthExceeded nat
  | NodeNotFoundAtTime NodeId HybridTimestamp HybridTimestamp
  | VersionNotFound VersionId
  | LogicalCounterOverflow i64 u32
  | ValidTimeTooFarInFuture HybridTimestamp HybridTimestamp i64
  | ValidTimeBeforeEntityCreation HybridTimestamp HybridTimestamp

definition MAX_VALID_TIMESTAMP :: i64 where
  "MAX_VALID_TIMESTAMP = i64_MAX - 1000"

definition TIMESTAMP_MAX :: HybridTimestamp where
  "TIMESTAMP_MAX = HybridTimestamp i64_MAX 0"

definition MAX_BACKWARD_DRIFT_US :: i64 where
  "MAX_BACKWARD_DRIFT_US = 5 * 60 * 1000000"

definition MAX_FORWARD_JUMP_US :: i64 where
  "MAX_FORWARD_JUMP_US = 60 * 60 * 1000000"

definition hts_new :: "i64 \<Rightarrow> u32 \<Rightarrow> TemporalError + HybridTimestamp" where
  "hts_new w l =
     (if i64_lt MAX_VALID_TIMESTAMP w then Inl (InvalidTimestamp (HybridTimestamp w l))
      else Inr (HybridTimestamp w l))"

section \<open>The clock rules\<close>

definition increment_logical :: "u32 \<Rightarrow> i64 \<Rightarrow> TemporalError + u32" where
  "increment_logical l w =
     (case u32_checked_add l 1 of
        None \<Rightarrow> Inl (LogicalCounterOverflow w l)
      | Some l' \<Rightarrow> Inr l')"

definition send :: "HybridTimestamp \<Rightarrow> i64 \<Rightarrow> TemporalError + HybridTimestamp" where
  "send self new_wallclock =
     (if i64_lt MAX_VALID_TIMESTAMP new_wallclock
      then Inl (InvalidTimestamp (HybridTimestamp new_wallclock 0))
      else if i64_lt (wallclock self) new_wallclock
      then Inr (HybridTimestamp new_wallclock 0)
      else case increment_logical (logical self) (wallclock self) of
             Inl e \<Rightarrow> Inl e
           | Inr l \<Rightarrow> Inr (HybridTimestamp (wallclock self) l))"

definition receive ::
  "HybridTimestamp \<Rightarrow> HybridTimestamp \<Rightarrow> i64 \<Rightarrow> TemporalError + HybridTimestamp" where
  "receive self msg physical_wallclock =
     (let new_wallclock = i64_max (i64_max (wallclock self) (wallclock msg)) physical_wallclock in
      if i64_lt MAX_VALID_TIMESTAMP new_wallclock
      then Inl (InvalidTimestamp (HybridTimestamp new_wallclock 0))
      else case
        (if i64_lt (wallclock self) new_wallclock \<and> i64_lt (wallclock msg) new_wallclock
         then Inr 0
         else if new_wallclock = wallclock self \<and> new_wallclock = wallclock msg
         then increment_logical (max (logical self) (logical msg)) new_wallclock
         else if new_wallclock = wallclock self
         then increment_logical (logical self) new_wallclock
         else increment_logical (logical msg) new_wallclock) of
          Inl e \<Rightarrow> Inl e
        | Inr l \<Rightarrow> Inr (HybridTimestamp new_wallclock l))"

section \<open>Clock skew policy\<close>

datatype ClockSkewDirection = Backward | Forward

record ClockSkewDecision =
  drift_us :: i64
  effective_wallclock :: i64
  healed_direction :: "ClockSkewDirection option"

record ClockSkewViolation =
  v_drift_us :: i64
  v_max_allowed :: i64
  v_direction :: ClockSkewDirection

definition evaluate_clock_skew ::
  "i64 \<Rightarrow> i64 \<Rightarrow> i64 option \<Rightarrow> bool \<Rightarrow> ClockSkewViolation + ClockSkewDecision" where
  "evaluate_clock_skew current_wallclock frontier_wallclock max_forward_jump_us self_heal =
     (let drift = i64_saturating_sub current_wallclock frontier_wallclock;
          backward = i64_lt drift (- MAX_BACKWARD_DRIFT_US);
          (effective, healed) =
            (if backward then (frontier_wallclock, Some Backward) else (current_wallclock, None))
      in
      if backward \<and> \<not> self_heal
      then Inl \<lparr>v_drift_us = drift, v_max_allowed = - MAX_BACKWARD_DRIFT_US,
                v_direction = Backward\<rparr>
      else case max_forward_jump_us of
        Some m \<Rightarrow>
          if i64_lt m drift then
            (if \<not> self_heal
             then Inl \<lparr>v_drift_us = drift, v_max_allowed = m, v_direction = Forward\<rparr>
             else Inr \<lparr>drift_us = drift, effective_wallclock = frontier_wallclock,
                       healed_direction = Some Forward\<rparr>)
          else Inr \<lparr>drift_us = drift, effective_wallclock = effective, healed_direction = healed\<rparr>
      | None \<Rightarrow>
          Inr \<lparr>drift_us = drift, effective_wallclock = effective, healed_direction = healed\<rparr>)"

datatype SendWithSelfHealError =
    InitialSend TemporalError
  | FallbackWallclockOverflow i64 u32
  | FallbackSend TemporalError

definition send_with_overflow_self_heal ::
  "HybridTimestamp \<Rightarrow> i64 \<Rightarrow> bool \<Rightarrow> (SendWithSelfHealError \<Rightarrow> 'e) \<Rightarrow> 'e + HybridTimestamp" where
  "send_with_overflow_self_heal frontier eff self_heal map_error =
     (case send frontier eff of
        Inr t \<Rightarrow> Inr t
      | Inl error \<Rightarrow>
          (case error of
             LogicalCounterOverflow w l \<Rightarrow>
               if self_heal then
                 (case i64_checked_add w 1 of
                    None \<Rightarrow> Inl (map_error (FallbackWallclockOverflow w l))
                  | Some fallback \<Rightarrow>
                      (case send frontier fallback of
                         Inl error' \<Rightarrow> Inl (map_error (FallbackSend error'))
                       | Inr t \<Rightarrow> Inr t))
               else Inl (map_error (InitialSend error))
           | _ \<Rightarrow> Inl (map_error (InitialSend error))))"

section \<open>Bytes\<close>

definition hts_serialize :: "HybridTimestamp \<Rightarrow> bytes" where
  "hts_serialize t = to_le_bytes 8 (wallclock t) @ to_le_bytes 4 (logical t)"

definition hts_deserialize :: "bytes \<Rightarrow> StorageError + (HybridTimestamp \<times> nat)" where
  "hts_deserialize bs =
     (if length bs < 12 then Inl CorruptedData
      else
        let w = from_le_bytes (take 8 bs) :: i64;
            l = from_le_bytes (take 4 (drop 8 bs)) :: u32
        in if i64_lt MAX_VALID_TIMESTAMP w \<and> w \<noteq> i64_MAX then Inl CorruptedData
           else if w = i64_MAX \<and> l \<noteq> 0 then Inl CorruptedData
           else Inr (HybridTimestamp w l, 12))"

definition hts_from_i64 :: "i64 \<Rightarrow> HybridTimestamp" where
  "hts_from_i64 w = HybridTimestamp w 0"

section \<open>Properties of the clock rules\<close>

lemma MAX_VALID_TIMESTAMP_sint: "sint MAX_VALID_TIMESTAMP = 9223372036854774807"
  by (simp add: MAX_VALID_TIMESTAMP_def)

lemma MAX_BACKWARD_DRIFT_US_sint: "sint (- MAX_BACKWARD_DRIFT_US) = - 300000000"
  by (simp add: MAX_BACKWARD_DRIFT_US_def)

lemma increment_logical_cases:
  "increment_logical l w =
     (if l = u32_MAX then Inl (LogicalCounterOverflow w l) else Inr (l + 1))"
  by (simp add: increment_logical_def u32_checked_succ)

lemma send_cases:
  "send self w =
     (if i64_lt MAX_VALID_TIMESTAMP w then Inl (InvalidTimestamp (HybridTimestamp w 0))
      else if i64_lt (wallclock self) w then Inr (HybridTimestamp w 0)
      else if logical self = u32_MAX then Inl (LogicalCounterOverflow (wallclock self) u32_MAX)
      else Inr (HybridTimestamp (wallclock self) (logical self + 1)))"
  by (simp add: send_def increment_logical_cases)

lemma hts_zero_least: "sint w \<le> sint (wallclock u) \<Longrightarrow> HybridTimestamp w 0 \<le> u"
  using sint64_eq_iff [of w "wallclock u"] by (auto simp: hts_order)

lemma hts_succ_least:
  "HybridTimestamp w l < u \<Longrightarrow> HybridTimestamp w (l + 1) \<le> u"
  by (auto simp: hts_order intro: u32_succ_least)

lemma hts_less_succ: "l \<noteq> u32_MAX \<Longrightarrow> HybridTimestamp w l < HybridTimestamp w (l + 1)"
  by (simp add: hts_order u32_less_succ)

lemma least_after_send:
  assumes "send self w = Inr t"
  shows "self < t \<and> sint w \<le> sint (wallclock t)
    \<and> (\<forall>u. self < u \<and> sint w \<le> sint (wallclock u) \<longrightarrow> t \<le> u)"
proof (cases "i64_lt (wallclock self) w")
  case True
  with assms have "t = HybridTimestamp w 0"
    by (auto simp: send_cases split: if_splits)
  with True show ?thesis
    by (auto simp: i64_lt_def less_HybridTimestamp_def intro: hts_zero_least)
next
  case False
  with assms have t: "t = HybridTimestamp (wallclock self) (logical self + 1)"
    and "logical self \<noteq> u32_MAX"
    by (auto simp: send_cases split: if_splits)
  then have "self < t"
    using hts_less_succ [of "logical self" "wallclock self"] by simp
  moreover have "t \<le> u" if "self < u" for u
    using that t hts_succ_least [of "wallclock self" "logical self" u] by simp
  ultimately show ?thesis
    using False t by (auto simp: i64_lt_def)
qed

text \<open>
  C19: a successful \<open>send\<close> returns the least timestamp that is strictly after the clock's
  own and whose wallclock is at least the wallclock read.
\<close>

theorem send_least:
  assumes "send self w = Inr t"
  shows "self < t \<and> sint w \<le> sint (wallclock t)
    \<and> (\<forall>u. self < u \<and> sint w \<le> sint (wallclock u) \<longrightarrow> t \<le> u)"
  using assms by (rule least_after_send)

theorem send_least_witness:
  "HybridTimestamp 1001 0 < HybridTimestamp 1001 1
   \<and> send (HybridTimestamp 1001 0) 1000 = Inr (HybridTimestamp 1001 1)"
proof -
  have s: "send (HybridTimestamp 1001 0) 1000 = Inr (HybridTimestamp 1001 1)"
    by (simp add: send_cases i64_lt_def MAX_VALID_TIMESTAMP_sint)
  from send_least [OF s] s show ?thesis by simp
qed

lemma send_error_iff_aux:
  "send self w = Inl e \<longleftrightarrow>
     sint MAX_VALID_TIMESTAMP < sint w \<and> e = InvalidTimestamp (HybridTimestamp w 0)
     \<or> sint w \<le> sint MAX_VALID_TIMESTAMP \<and> sint w \<le> sint (wallclock self)
       \<and> logical self = u32_MAX \<and> e = LogicalCounterOverflow (wallclock self) u32_MAX"
  by (auto simp: send_cases i64_lt_def)


text \<open>
  \<open>receive\<close> is \<open>send\<close> from the later of the two timestamps, once that timestamp's own wallclock
  is in the valid range. Everything about \<open>receive\<close> follows from this equation.
\<close>

lemma i64_max_idem [simp]: "i64_max a a = a"
  by (simp add: i64_max_def)

lemma wallclock_max:
  "sint (wallclock (max a b)) = max (sint (wallclock a)) (sint (wallclock b))"
  by (auto simp: max_def hts_order)

lemma receive_as_send:
  "receive self msg p =
     (if i64_lt MAX_VALID_TIMESTAMP (wallclock (max self msg)) then
        Inl (InvalidTimestamp (HybridTimestamp (i64_max (wallclock (max self msg)) p) 0))
      else send (max self msg) p)"
proof -
  let ?m = "max self msg"
  have base: "i64_max (wallclock self) (wallclock msg) = wallclock ?m"
    using wallclock_max [of self msg] sint64_eq_iff
    by (auto simp: i64_max_def max_def split: if_splits)
  consider (phys) "sint (wallclock ?m) < sint p"
    | (both) "\<not> sint (wallclock ?m) < sint p" "wallclock self = wallclock msg"
    | (left) "\<not> sint (wallclock ?m) < sint p" "sint (wallclock msg) < sint (wallclock self)"
    | (right) "\<not> sint (wallclock ?m) < sint p" "sint (wallclock self) < sint (wallclock msg)"
    using sint64_eq_iff [of "wallclock self" "wallclock msg"] by linarith
  then show ?thesis
  proof cases
    case phys
    then have nw: "i64_max (wallclock ?m) p = p"
      by (simp add: i64_max_def)
    from phys have "sint (wallclock self) < sint p" "sint (wallclock msg) < sint p"
      by (simp_all add: wallclock_max)
    with phys show ?thesis
      by (simp add: receive_def base nw Let_def i64_lt_def send_cases)
  next
    case both
    then have nw: "i64_max (wallclock ?m) p = wallclock ?m"
      using sint64_eq_iff [of "wallclock ?m" p] by (auto simp: i64_max_def)
    from both(2) have "wallclock ?m = wallclock self"
      "logical ?m = max (logical self) (logical msg)"
      by (auto simp: max_def hts_order)
    with both nw show ?thesis
      by (auto simp: receive_def base Let_def i64_lt_def send_cases increment_logical_cases)
  next
    case left
    then have nw: "i64_max (wallclock ?m) p = wallclock ?m"
      using sint64_eq_iff [of "wallclock ?m" p] by (auto simp: i64_max_def)
    from left(2) have "?m = self" by (auto simp: max_def hts_order)
    with left nw show ?thesis
      by (auto simp: receive_def base Let_def i64_lt_def send_cases increment_logical_cases)
  next
    case right
    then have nw: "i64_max (wallclock ?m) p = wallclock ?m"
      using sint64_eq_iff [of "wallclock ?m" p] by (auto simp: i64_max_def)
    from right(2) have "?m = msg" by (auto simp: max_def hts_order)
    with right nw show ?thesis
      by (auto simp: receive_def base Let_def i64_lt_def send_cases increment_logical_cases)
  qed
qed

lemma receive_InrD: "receive self msg p = Inr t \<Longrightarrow> send (max self msg) p = Inr t"
  by (simp add: receive_as_send split: if_splits)

lemma send_strict: "send self w = Inr t \<Longrightarrow> self < t"
  by (auto simp: send_cases less_HybridTimestamp_def i64_lt_def u32_less_succ split: if_splits)

text \<open>
  A successful \<open>receive\<close> returns the least timestamp strictly after both the local clock
  and the message whose wallclock is at least the physical clock: causality is preserved and
  nothing is wasted.
\<close>

theorem receive_least:
  assumes "receive self msg p = Inr t"
  shows "self < t \<and> msg < t \<and> sint p \<le> sint (wallclock t)
    \<and> (\<forall>u. self < u \<and> msg < u \<and> sint p \<le> sint (wallclock u) \<longrightarrow> t \<le> u)"
  using least_after_send [OF receive_InrD [OF assms]] by auto

theorem receive_least_witness:
  "HybridTimestamp 1000 5 < HybridTimestamp 2000 11
   \<and> HybridTimestamp 2000 10 < HybridTimestamp 2000 11"
proof -
  have r: "receive (HybridTimestamp 1000 5) (HybridTimestamp 2000 10) 1500
      = Inr (HybridTimestamp 2000 11)"
    by (simp add: receive_def i64_max_def i64_lt_def MAX_VALID_TIMESTAMP_sint
        increment_logical_cases)
  from receive_least [OF r] show ?thesis by blast
qed

text \<open>
  C37: drift policy. An accepted wallclock reading is either the reading itself or the frontier,
  the latter exactly when a direction was healed, and it lies in the permitted window around
  the frontier.
\<close>

theorem clock_skew_window:
  assumes "evaluate_clock_skew cur fr mf heal = Inr d"
  shows "(healed_direction d = None \<longrightarrow> effective_wallclock d = cur)
    \<and> (healed_direction d \<noteq> None \<longrightarrow> heal \<and> effective_wallclock d = fr)
    \<and> sint fr - 300000000 \<le> sint (effective_wallclock d)
    \<and> (\<forall>m. mf = Some m \<and> 0 \<le> sint m \<and> m \<noteq> i64_MAX \<longrightarrow>
          sint (effective_wallclock d) \<le> sint fr + sint m)"
proof -
  let ?drift = "i64_saturating_sub cur fr"
  have m: "sint m < 2 ^ 63 - 1" if "m \<noteq> i64_MAX" for m :: i64
    using that sint64_range [of m] sint64_eq_iff [of m i64_MAX] by simp
  have "sint ?drift = (let d = sint cur - sint fr in
      if d < - (2 ^ 63) then - (2 ^ 63) else if 2 ^ 63 \<le> d then 2 ^ 63 - 1 else d)"
    by (rule sint64_saturating_sub)
  then have low: "- 300000000 \<le> sint ?drift \<Longrightarrow> sint fr - 300000000 \<le> sint cur"
    and high: "sint ?drift \<le> k \<Longrightarrow> k < 2 ^ 63 - 1 \<Longrightarrow> sint cur \<le> sint fr + k" for k
    by (auto simp: Let_def split: if_splits)
  show ?thesis
    using assms low high [OF _ m]
    by (auto simp: evaluate_clock_skew_def Let_def i64_lt_def MAX_BACKWARD_DRIFT_US_sint not_less
        split: if_splits option.splits)
qed

theorem clock_skew_window_witness:
  "\<exists>d. evaluate_clock_skew 1000 2000000000 (Some MAX_FORWARD_JUMP_US) True = Inr d
     \<and> effective_wallclock d = 2000000000"
proof -
  have e: "evaluate_clock_skew 1000 2000000000 (Some MAX_FORWARD_JUMP_US) True =
      Inr \<lparr>drift_us = i64_saturating_sub 1000 2000000000, effective_wallclock = 2000000000,
           healed_direction = Some Backward\<rparr>"
    by (simp add: evaluate_clock_skew_def i64_lt_def i64_saturating_sub_def
        MAX_BACKWARD_DRIFT_US_def MAX_FORWARD_JUMP_US_def)
  from clock_skew_window [OF e] e show ?thesis by simp
qed

lemma evaluate_clock_skew_heals:
  "\<exists>d. evaluate_clock_skew cur fr mf True = Inr d
     \<and> (effective_wallclock d = cur \<or> effective_wallclock d = fr)"
  by (cases mf; cases "i64_lt (i64_saturating_sub cur fr) (- MAX_BACKWARD_DRIFT_US)")
    (simp_all add: evaluate_clock_skew_def Let_def)

lemma i64_succ_wallclock:
  assumes "sint (w :: i64) < sint MAX_VALID_TIMESTAMP"
  shows "i64_checked_add w 1 = Some (w + 1) \<and> sint (w + 1) = sint w + 1"
  using assms sint64_range [of w] sint64_add [of w 1]
  by (simp add: i64_checked_add_def MAX_VALID_TIMESTAMP_sint)

text \<open>
  C21: with self-healing on, a valid reading and a frontier whose wallclock is below the valid
  maximum, the commit path always obtains a stamp, and the stamp is strictly after the frontier.
\<close>

theorem self_heal_makes_progress:
  assumes "sint (wallclock fr) < sint MAX_VALID_TIMESTAMP"
    and "sint cur \<le> sint MAX_VALID_TIMESTAMP"
  shows "\<exists>d t. evaluate_clock_skew cur (wallclock fr) mf True = Inr d
    \<and> send_with_overflow_self_heal fr (effective_wallclock d) True f = Inr t \<and> fr < t"
proof -
  obtain d where d: "evaluate_clock_skew cur (wallclock fr) mf True = Inr d"
    and eff: "effective_wallclock d = cur \<or> effective_wallclock d = wallclock fr"
    using evaluate_clock_skew_heals by blast
  have valid: "sint (effective_wallclock d) \<le> sint MAX_VALID_TIMESTAMP"
    using eff assms by auto
  have "\<exists>t. send_with_overflow_self_heal fr (effective_wallclock d) True f = Inr t \<and> fr < t"
  proof (cases "send fr (effective_wallclock d)")
    case (Inr t)
    then show ?thesis
      by (auto simp: send_with_overflow_self_heal_def send_strict)
  next
    case (Inl e)
    with valid have e: "e = LogicalCounterOverflow (wallclock fr) u32_MAX"
      by (auto simp: send_error_iff_aux)
    have "send fr (wallclock fr + 1) = Inr (HybridTimestamp (wallclock fr + 1) 0)"
      using i64_succ_wallclock [OF assms(1)] assms(1) by (simp add: send_cases i64_lt_def)
    with Inl e show ?thesis
      using i64_succ_wallclock [OF assms(1)]
      by (auto simp: send_with_overflow_self_heal_def dest: send_strict)
  qed
  with d show ?thesis by blast
qed

theorem self_heal_makes_progress_witness:
  "\<exists>t. HybridTimestamp 500 u32_MAX < t
     \<and> send_with_overflow_self_heal (HybridTimestamp 500 u32_MAX) 500 True id = Inr t"
proof -
  have "\<exists>d t. evaluate_clock_skew 500 (wallclock (HybridTimestamp 500 u32_MAX)) None True = Inr d
    \<and> send_with_overflow_self_heal (HybridTimestamp 500 u32_MAX) (effective_wallclock d) True id
        = Inr t
    \<and> HybridTimestamp 500 u32_MAX < t"
    by (rule self_heal_makes_progress) (simp_all add: MAX_VALID_TIMESTAMP_sint)
  moreover have "effective_wallclock d = 500"
    if "evaluate_clock_skew 500 (wallclock (HybridTimestamp 500 u32_MAX)) None True = Inr d" for d
    using that by (auto simp: evaluate_clock_skew_def Let_def split: if_splits)
  ultimately show ?thesis by metis
qed

section \<open>Round trip through bytes\<close>

definition valid_timestamp :: "HybridTimestamp \<Rightarrow> bool" where
  "valid_timestamp t \<longleftrightarrow> sint (wallclock t) \<le> sint MAX_VALID_TIMESTAMP \<or> t = TIMESTAMP_MAX"

lemma length_hts_serialize [simp, byte_simps]: "length (hts_serialize t) = 12"
  by (simp add: hts_serialize_def)

lemma take_append_exact: "length xs = n \<Longrightarrow> take n (xs @ ys) = xs"
  by simp

lemma hts_deserialize_serialize:
  "hts_deserialize (hts_serialize t @ rest) =
     (if valid_timestamp t then Inr (t, 12) else Inl CorruptedData)"
  by (cases t)
    (auto simp: hts_deserialize_def hts_serialize_def Let_def valid_timestamp_def i64_lt_def
      MAX_VALID_TIMESTAMP_sint TIMESTAMP_MAX_def)

lemma hts_deserialize_Inr:
  assumes "hts_deserialize bs = Inr (t, n)"
  shows "n = 12 \<and> valid_timestamp t \<and> take 12 bs = hts_serialize t"
proof -
  have len: "12 \<le> length bs"
    using assms by (auto simp: hts_deserialize_def split: if_splits)
  then have "take 12 bs = take 8 bs @ take 4 (drop 8 bs)"
    using take_add [of 8 4 bs] by simp
  moreover have "to_le_bytes 8 (from_le_bytes (take 8 bs) :: u64) = take 8 bs"
    "to_le_bytes 4 (from_le_bytes (take 4 (drop 8 bs)) :: u32) = take 4 (drop 8 bs)"
    using len by (simp_all add: to_from_le_bytes_u32 to_from_le_bytes_u64)
  ultimately show ?thesis
    using assms
    by (auto simp: hts_deserialize_def hts_serialize_def Let_def valid_timestamp_def i64_lt_def
        TIMESTAMP_MAX_def split: if_splits)
qed

end
