(* ===== verification/Temporal.thy ===== *)
theory Temporal
  imports Hlc "HOL-Library.Signed_Division"
begin

text \<open>
  Half-open time ranges and bi-temporal intervals: \<open>src/core/temporal.rs\<close>. A constructor that
  panics (\<open>TimeRange::from\<close>, \<open>TimeRange::at\<close>) returns \<open>None\<close> where the code panics; one that
  returns \<open>Result\<close> returns a sum.
\<close>

type_synonym Timestamp = HybridTimestamp

section \<open>Time ranges\<close>

record TimeRange =
  tr_start :: Timestamp
  tr_end :: Timestamp

definition exceeds_max :: "Timestamp \<Rightarrow> bool" where
  "exceeds_max t \<longleftrightarrow> i64_lt MAX_VALID_TIMESTAMP (wallclock t) \<and> t \<noteq> TIMESTAMP_MAX"

definition TimeRange_new :: "Timestamp \<Rightarrow> Timestamp \<Rightarrow> TemporalError + TimeRange" where
  "TimeRange_new s e =
     (if e < s then Inl (InvalidTimeRange s e)
      else if exceeds_max s then Inl (InvalidTimestamp s)
      else if exceeds_max e then Inl (InvalidTimestamp e)
      else Inr \<lparr>tr_start = s, tr_end = e\<rparr>)"

definition TimeRange_from :: "Timestamp \<Rightarrow> TimeRange option" where
  "TimeRange_from s =
     (if exceeds_max s then None else Some \<lparr>tr_start = s, tr_end = TIMESTAMP_MAX\<rparr>)"

definition TimeRange_between :: "Timestamp \<Rightarrow> Timestamp \<Rightarrow> TemporalError + TimeRange" where
  "TimeRange_between s e = TimeRange_new s e"

definition TimeRange_at :: "Timestamp \<Rightarrow> TimeRange option" where
  "TimeRange_at t = (if exceeds_max t then None else Some \<lparr>tr_start = t, tr_end = t\<rparr>)"

definition tr_is_current :: "TimeRange \<Rightarrow> bool" where
  "tr_is_current r \<longleftrightarrow> tr_end r = TIMESTAMP_MAX"

definition tr_is_closed :: "TimeRange \<Rightarrow> bool" where
  "tr_is_closed r \<longleftrightarrow> tr_end r < TIMESTAMP_MAX"

definition contains :: "TimeRange \<Rightarrow> Timestamp \<Rightarrow> bool" where
  "contains r t \<longleftrightarrow> tr_start r \<le> t \<and> t < tr_end r"

definition contains_or_after :: "TimeRange \<Rightarrow> Timestamp \<Rightarrow> bool" where
  "contains_or_after r t \<longleftrightarrow> tr_start r \<le> t"

definition tr_is_empty :: "TimeRange \<Rightarrow> bool" where
  "tr_is_empty r \<longleftrightarrow> tr_start r = tr_end r"

definition overlaps :: "TimeRange \<Rightarrow> TimeRange \<Rightarrow> bool" where
  "overlaps r s =
     (if tr_is_empty r \<or> tr_is_empty s then False
      else tr_start r < tr_end s \<and> tr_start s < tr_end r)"

definition contains_range :: "TimeRange \<Rightarrow> TimeRange \<Rightarrow> bool" where
  "contains_range r s \<longleftrightarrow> tr_start r \<le> tr_start s \<and> tr_end s \<le> tr_end r"

definition close_at :: "TimeRange \<Rightarrow> Timestamp \<Rightarrow> TemporalError + TimeRange" where
  "close_at r e =
     (if e < tr_start r then Inl (InvalidTimeRange (tr_start r) e)
      else if exceeds_max e then Inl (InvalidTimestamp e)
      else Inr \<lparr>tr_start = tr_start r, tr_end = e\<rparr>)"

definition duration_micros :: "TimeRange \<Rightarrow> i64 option" where
  "duration_micros r =
     (if tr_is_current r then None
      else case i64_checked_sub (wallclock (tr_end r)) (wallclock (tr_start r)) of
             None \<Rightarrow> Some i64_MAX
           | Some d \<Rightarrow> Some d)"

definition tr_serialize :: "TimeRange \<Rightarrow> bytes" where
  "tr_serialize r = hts_serialize (tr_start r) @ hts_serialize (tr_end r)"

definition tr_deserialize :: "bytes \<Rightarrow> StorageError + (TimeRange \<times> nat)" where
  "tr_deserialize bs =
     (if length bs < 24 then Inl CorruptedData
      else case hts_deserialize (take 12 bs) of
        Inl e \<Rightarrow> Inl e
      | Inr (s, _) \<Rightarrow>
          (case hts_deserialize (take 12 (drop 12 bs)) of
             Inl e \<Rightarrow> Inl e
           | Inr (e, _) \<Rightarrow>
               if e < s then Inl CorruptedData
               else Inr (\<lparr>tr_start = s, tr_end = e\<rparr>, 24)))"

section \<open>Bi-temporal intervals\<close>

record BiTemporalInterval =
  valid_time :: TimeRange
  transaction_time :: TimeRange

definition bt_new :: "TimeRange \<Rightarrow> TimeRange \<Rightarrow> BiTemporalInterval" where
  "bt_new v x = \<lparr>valid_time = v, transaction_time = x\<rparr>"

definition bt_current :: "Timestamp \<Rightarrow> BiTemporalInterval option" where
  "bt_current t =
     (case TimeRange_from t of
        None \<Rightarrow> None
      | Some r \<Rightarrow> Some \<lparr>valid_time = r, transaction_time = r\<rparr>)"

definition bt_with_valid_time :: "Timestamp \<Rightarrow> Timestamp \<Rightarrow> BiTemporalInterval option" where
  "bt_with_valid_time valid_from tx_time =
     (case TimeRange_from valid_from of
        None \<Rightarrow> None
      | Some v \<Rightarrow>
          (case TimeRange_from tx_time of
             None \<Rightarrow> None
           | Some x \<Rightarrow> Some \<lparr>valid_time = v, transaction_time = x\<rparr>))"

definition bt_now :: "Timestamp \<Rightarrow> Timestamp \<Rightarrow> BiTemporalInterval option" where
  "bt_now valid_start tx_timestamp =
     (case TimeRange_from valid_start of
        None \<Rightarrow> None
      | Some v \<Rightarrow>
          (case TimeRange_from tx_timestamp of
             None \<Rightarrow> None
           | Some x \<Rightarrow> Some \<lparr>valid_time = v, transaction_time = x\<rparr>))"

definition is_currently_valid :: "BiTemporalInterval \<Rightarrow> bool" where
  "is_currently_valid b \<longleftrightarrow> tr_is_current (valid_time b)"

definition is_currently_recorded :: "BiTemporalInterval \<Rightarrow> bool" where
  "is_currently_recorded b \<longleftrightarrow> tr_is_current (transaction_time b)"

definition bt_is_current :: "BiTemporalInterval \<Rightarrow> bool" where
  "bt_is_current b \<longleftrightarrow> is_currently_valid b \<and> is_currently_recorded b"

definition is_valid_at :: "BiTemporalInterval \<Rightarrow> Timestamp \<Rightarrow> bool" where
  "is_valid_at b t \<longleftrightarrow> contains (valid_time b) t"

definition is_recorded_at :: "BiTemporalInterval \<Rightarrow> Timestamp \<Rightarrow> bool" where
  "is_recorded_at b t \<longleftrightarrow> contains (transaction_time b) t"

definition is_visible_at :: "BiTemporalInterval \<Rightarrow> Timestamp \<Rightarrow> Timestamp \<Rightarrow> bool" where
  "is_visible_at b v x \<longleftrightarrow> contains (valid_time b) v \<and> contains (transaction_time b) x"

definition close_valid_time ::
  "BiTemporalInterval \<Rightarrow> Timestamp \<Rightarrow> TemporalError + BiTemporalInterval" where
  "close_valid_time b e =
     (case close_at (valid_time b) e of
        Inl err \<Rightarrow> Inl err
      | Inr v \<Rightarrow> Inr \<lparr>valid_time = v, transaction_time = transaction_time b\<rparr>)"

definition close_transaction_time ::
  "BiTemporalInterval \<Rightarrow> Timestamp \<Rightarrow> TemporalError + BiTemporalInterval" where
  "close_transaction_time b e =
     (case close_at (transaction_time b) e of
        Inl err \<Rightarrow> Inl err
      | Inr x \<Rightarrow> Inr \<lparr>valid_time = valid_time b, transaction_time = x\<rparr>)"

definition close_both ::
  "BiTemporalInterval \<Rightarrow> Timestamp \<Rightarrow> Timestamp \<Rightarrow> TemporalError + BiTemporalInterval" where
  "close_both b valid_end tx_end =
     (case close_at (valid_time b) valid_end of
        Inl err \<Rightarrow> Inl err
      | Inr v \<Rightarrow>
          (case close_at (transaction_time b) tx_end of
             Inl err \<Rightarrow> Inl err
           | Inr x \<Rightarrow> Inr \<lparr>valid_time = v, transaction_time = x\<rparr>))"

definition bt_serialize :: "BiTemporalInterval \<Rightarrow> bytes" where
  "bt_serialize b = tr_serialize (valid_time b) @ tr_serialize (transaction_time b)"

definition bt_deserialize :: "bytes \<Rightarrow> StorageError + (BiTemporalInterval \<times> nat)" where
  "bt_deserialize bs =
     (if length bs < 48 then Inl CorruptedData
      else case tr_deserialize (take 24 bs) of
        Inl e \<Rightarrow> Inl e
      | Inr (v, _) \<Rightarrow>
          (case tr_deserialize (take 24 (drop 24 bs)) of
             Inl e \<Rightarrow> Inl e
           | Inr (x, _) \<Rightarrow> Inr (\<lparr>valid_time = v, transaction_time = x\<rparr>, 48)))"

section \<open>Unit conversions\<close>

text \<open>Multiplication wraps as in a release build; division truncates towards zero.\<close>

definition from_secs :: "i64 \<Rightarrow> Timestamp" where
  "from_secs secs = HybridTimestamp (secs * 1000000) 0"

definition from_millis :: "i64 \<Rightarrow> Timestamp" where
  "from_millis millis = HybridTimestamp (millis * 1000) 0"

definition to_secs :: "Timestamp \<Rightarrow> i64" where
  "to_secs t = word_of_int (sint (wallclock t) sdiv 1000000)"

definition to_millis :: "Timestamp \<Rightarrow> i64" where
  "to_millis t = word_of_int (sint (wallclock t) sdiv 1000)"

section \<open>Well-formed ranges\<close>

definition wf_range :: "TimeRange \<Rightarrow> bool" where
  "wf_range r \<longleftrightarrow>
     tr_start r \<le> tr_end r \<and> valid_timestamp (tr_start r) \<and> valid_timestamp (tr_end r)"

definition wf_interval :: "BiTemporalInterval \<Rightarrow> bool" where
  "wf_interval b \<longleftrightarrow> wf_range (valid_time b) \<and> wf_range (transaction_time b)"

lemma exceeds_max_iff: "exceeds_max t \<longleftrightarrow> \<not> valid_timestamp t"
  by (auto simp: exceeds_max_def valid_timestamp_def i64_lt_def)

lemma valid_timestamp_le_max: "valid_timestamp t \<Longrightarrow> t \<le> TIMESTAMP_MAX"
  by (auto simp: valid_timestamp_def hts_order TIMESTAMP_MAX_def MAX_VALID_TIMESTAMP_sint)

lemma valid_TIMESTAMP_MAX [simp]: "valid_timestamp TIMESTAMP_MAX"
  by (simp add: valid_timestamp_def)

text \<open>Every constructor and every operation yields a well-formed range or refuses.\<close>

lemma TimeRange_new_iff:
  "TimeRange_new s e = Inr r \<longleftrightarrow> r = \<lparr>tr_start = s, tr_end = e\<rparr> \<and> wf_range r"
  by (auto simp: TimeRange_new_def wf_range_def exceeds_max_iff)

lemma TimeRange_from_wf: "TimeRange_from s = Some r \<Longrightarrow> wf_range r \<and> tr_is_current r"
  by (auto simp: TimeRange_from_def wf_range_def exceeds_max_iff tr_is_current_def
      valid_timestamp_le_max split: if_splits)

lemma TimeRange_at_wf: "TimeRange_at t = Some r \<Longrightarrow> wf_range r \<and> tr_is_empty r"
  by (auto simp: TimeRange_at_def wf_range_def exceeds_max_iff tr_is_empty_def split: if_splits)

lemma close_at_wf: "wf_range r \<Longrightarrow> close_at r e = Inr r' \<Longrightarrow> wf_range r'"
  by (auto simp: close_at_def wf_range_def exceeds_max_iff split: if_splits)

lemma contains_closed:
  "close_at r e = Inr r' \<Longrightarrow> e \<le> tr_end r \<Longrightarrow> contains r' t \<longleftrightarrow> contains r t \<and> t < e"
  by (auto simp: close_at_def contains_def split: if_splits)

lemma closed_or_current: "wf_range r \<Longrightarrow> tr_is_closed r \<longleftrightarrow> \<not> tr_is_current r"
  by (auto simp: wf_range_def tr_is_closed_def tr_is_current_def dest: valid_timestamp_le_max)

section \<open>Ranges as sets of instants\<close>

text \<open>
  On well-formed ranges the endpoint comparison of \<open>overlaps\<close> decides exactly whether
  some instant lies in both ranges.
\<close>

theorem overlaps_iff_common_instant:
  assumes "wf_range r" and "wf_range s"
  shows "overlaps r s \<longleftrightarrow> (\<exists>t. contains r t \<and> contains s t)"
proof
  assume o: "overlaps r s"
  let ?t = "max (tr_start r) (tr_start s)"
  from o assms have "tr_start r < tr_end r" "tr_start s < tr_end s"
    "tr_start r < tr_end s" "tr_start s < tr_end r"
    by (auto simp: overlaps_def wf_range_def tr_is_empty_def order.not_eq_order_implies_strict
        split: if_splits)
  then have "contains r ?t \<and> contains s ?t"
    by (simp add: contains_def)
  then show "\<exists>t. contains r t \<and> contains s t" by blast
next
  assume "\<exists>t. contains r t \<and> contains s t"
  then show "overlaps r s"
    by (auto simp: overlaps_def contains_def tr_is_empty_def)
qed

theorem overlaps_iff_common_instant_witness:
  "overlaps \<lparr>tr_start = HybridTimestamp 100 0, tr_end = HybridTimestamp 200 0\<rparr>
            \<lparr>tr_start = HybridTimestamp 150 0, tr_end = TIMESTAMP_MAX\<rparr>
   \<longleftrightarrow> (\<exists>t. contains \<lparr>tr_start = HybridTimestamp 100 0, tr_end = HybridTimestamp 200 0\<rparr> t
          \<and> contains \<lparr>tr_start = HybridTimestamp 150 0, tr_end = TIMESTAMP_MAX\<rparr> t)"
  by (rule overlaps_iff_common_instant)
    (simp_all add: wf_range_def valid_timestamp_def MAX_VALID_TIMESTAMP_sint hts_order
      TIMESTAMP_MAX_def)

text \<open>
  Range containment is inclusion of the instants, for every other range that is not empty.
\<close>

theorem contains_range_iff_subset:
  assumes "tr_start s < tr_end s"
  shows "contains_range r s \<longleftrightarrow> (\<forall>t. contains s t \<longrightarrow> contains r t)"
proof
  assume "contains_range r s"
  then show "\<forall>t. contains s t \<longrightarrow> contains r t"
    by (auto simp: contains_range_def contains_def)
next
  assume sub: "\<forall>t. contains s t \<longrightarrow> contains r t"
  from assms sub have "contains r (tr_start s)"
    by (simp add: contains_def)
  moreover have "tr_end s \<le> tr_end r"
  proof (rule ccontr)
    assume "\<not> tr_end s \<le> tr_end r"
    with assms have "contains s (max (tr_start s) (tr_end r))"
      by (simp add: contains_def)
    with sub have "contains r (max (tr_start s) (tr_end r))" by blast
    then show False by (simp add: contains_def)
  qed
  ultimately show "contains_range r s"
    by (simp add: contains_range_def contains_def)
qed

theorem contains_range_iff_subset_witness:
  "contains_range \<lparr>tr_start = HybridTimestamp 100 0, tr_end = HybridTimestamp 300 0\<rparr>
                  \<lparr>tr_start = HybridTimestamp 150 0, tr_end = HybridTimestamp 250 0\<rparr>
   \<longleftrightarrow> (\<forall>t. contains \<lparr>tr_start = HybridTimestamp 150 0, tr_end = HybridTimestamp 250 0\<rparr> t
          \<longrightarrow> contains \<lparr>tr_start = HybridTimestamp 100 0, tr_end = HybridTimestamp 300 0\<rparr> t)"
  by (rule contains_range_iff_subset) (simp add: hts_order)

text \<open>
  Supersession partitions transaction time. Closing an interval that is still recorded at
  \<open>e\<close> and opening its successor at \<open>e\<close> gives two intervals of which, at every instant below
  the sentinel from the predecessor's start on, exactly one is recorded.
\<close>

theorem supersession_partitions:
  assumes "is_currently_recorded b" and "close_transaction_time b e = Inr b'"
    and "TimeRange_from e = Some r"
  shows "contains (transaction_time b) t \<longleftrightarrow>
    (is_recorded_at b' t \<and> \<not> contains r t) \<or> (\<not> is_recorded_at b' t \<and> contains r t)"
proof -
  from assms have "tr_start (transaction_time b) \<le> e" and "e \<le> TIMESTAMP_MAX"
    and "tr_end (transaction_time b) = TIMESTAMP_MAX"
    and "transaction_time b' = \<lparr>tr_start = tr_start (transaction_time b), tr_end = e\<rparr>"
    and "r = \<lparr>tr_start = e, tr_end = TIMESTAMP_MAX\<rparr>"
    by (auto simp: is_currently_recorded_def tr_is_current_def close_transaction_time_def
        close_at_def TimeRange_from_def exceeds_max_iff valid_timestamp_le_max
        split: if_splits sum.splits)
  then show ?thesis
    by (auto simp: is_recorded_at_def contains_def)
qed

theorem supersession_partitions_witness:
  "contains \<lparr>tr_start = HybridTimestamp 100 0, tr_end = TIMESTAMP_MAX\<rparr> (HybridTimestamp 250 0)"
proof -
  let ?r = "\<lparr>tr_start = HybridTimestamp 100 0, tr_end = TIMESTAMP_MAX\<rparr>"
  let ?b = "\<lparr>valid_time = ?r, transaction_time = ?r\<rparr>"
  let ?r' = "\<lparr>tr_start = HybridTimestamp 100 0, tr_end = HybridTimestamp 200 0\<rparr>"
  let ?n = "\<lparr>tr_start = HybridTimestamp 200 0, tr_end = TIMESTAMP_MAX\<rparr>"
  note ev = exceeds_max_def i64_lt_def MAX_VALID_TIMESTAMP_sint TIMESTAMP_MAX_def hts_order
  have 1: "is_currently_recorded ?b"
    by (simp add: is_currently_recorded_def tr_is_current_def)
  have 2: "close_transaction_time ?b (HybridTimestamp 200 0) =
      Inr \<lparr>valid_time = ?r, transaction_time = ?r'\<rparr>"
    by (simp add: close_transaction_time_def close_at_def ev)
  have 3: "TimeRange_from (HybridTimestamp 200 0) = Some ?n"
    by (simp add: TimeRange_from_def ev)
  have "contains (transaction_time ?b) (HybridTimestamp 250 0)"
    unfolding supersession_partitions [OF 1 2 3]
    by (simp add: is_recorded_at_def contains_def ev)
  then show ?thesis by simp
qed

section \<open>Round trips\<close>

lemma length_tr_serialize [simp, byte_simps]: "length (tr_serialize r) = 24"
  by (simp add: tr_serialize_def)

lemma length_bt_serialize [simp, byte_simps]: "length (bt_serialize b) = 48"
  by (simp add: bt_serialize_def)

interpretation hts: fixed_codec hts_serialize hts_deserialize valid_timestamp 12
  by unfold_locales (simp, simp add: hts_deserialize_serialize, erule hts_deserialize_Inr)

lemma tr_deserialize_serialize:
  "wf_range r \<Longrightarrow> tr_deserialize (tr_serialize r @ rest) = Inr (r, 24)"
  by (simp add: tr_deserialize_def tr_serialize_def wf_range_def hts.dec_exact not_less)

lemma tr_deserialize_Inr:
  assumes "tr_deserialize bs = Inr (r, n)"
  shows "n = 24 \<and> wf_range r \<and> take 24 bs = tr_serialize r"
proof -
  obtain s e k l where "24 \<le> length bs"
    and "hts_deserialize (take 12 bs) = Inr (s, k)"
    and "hts_deserialize (take 12 (drop 12 bs)) = Inr (e, l)"
    and "s \<le> e" and "r = \<lparr>tr_start = s, tr_end = e\<rparr>" and "n = 24"
    using assms by (auto simp: tr_deserialize_def not_less split: if_splits sum.splits)
  then show ?thesis
    using take_add [of 12 12 bs]
    by (auto simp: wf_range_def tr_serialize_def dest!: hts.dec_sound)
qed

interpretation tr: fixed_codec tr_serialize tr_deserialize wf_range 24
  by unfold_locales (simp, erule tr_deserialize_serialize, erule tr_deserialize_Inr)

lemma bt_deserialize_serialize:
  "wf_interval b \<Longrightarrow> bt_deserialize (bt_serialize b @ rest) = Inr (b, 48)"
  by (simp add: bt_deserialize_def bt_serialize_def wf_interval_def tr.dec_exact)

lemma bt_deserialize_Inr:
  assumes "bt_deserialize bs = Inr (b, n)"
  shows "n = 48 \<and> wf_interval b \<and> take 48 bs = bt_serialize b"
proof -
  obtain v x k l where "48 \<le> length bs"
    and "tr_deserialize (take 24 bs) = Inr (v, k)"
    and "tr_deserialize (take 24 (drop 24 bs)) = Inr (x, l)"
    and "b = \<lparr>valid_time = v, transaction_time = x\<rparr>" and "n = 48"
    using assms by (auto simp: bt_deserialize_def not_less split: if_splits sum.splits)
  then show ?thesis
    using take_add [of 24 24 bs]
    by (auto simp: wf_interval_def bt_serialize_def dest!: tr.dec_sound)
qed

interpretation bt: fixed_codec bt_serialize bt_deserialize wf_interval 48
  by unfold_locales (simp, erule bt_deserialize_serialize, erule bt_deserialize_Inr)

text \<open>
  C38: decoding an interval succeeds on exactly the encodings of well-formed intervals, consumes
  48 bytes and returns the interval that was written; no byte string decodes to an interval the
  constructors would refuse.
\<close>

theorem bt_deserialize_iff:
  "bt_deserialize bs = Inr (b, n) \<longleftrightarrow> n = 48 \<and> wf_interval b \<and> take 48 bs = bt_serialize b"
  by (rule bt.dec_iff)

text \<open>
  The duration of a well-formed closed range is the exact difference of its wallclocks, or
  the saturated maximum when that difference does not fit; it is never negative, and an open
  range has none.
\<close>

theorem duration_exact_or_saturated:
  assumes "wf_range r"
  shows "(duration_micros r = None \<longleftrightarrow> tr_is_current r)
    \<and> (\<forall>d. duration_micros r = Some d \<longrightarrow>
         sint d = min (sint (wallclock (tr_end r)) - sint (wallclock (tr_start r))) (2 ^ 63 - 1)
         \<and> 0 \<le> sint d)"
proof -
  let ?e = "wallclock (tr_end r)" and ?s = "wallclock (tr_start r)"
  have pos: "0 \<le> sint ?e - sint ?s"
    using assms by (auto simp: wf_range_def hts_order)
  show ?thesis
  proof (cases "sint ?e - sint ?s < 2 ^ 63")
    case True
    with pos have "i64_checked_sub ?e ?s = Some (?e - ?s)"
      by (simp add: i64_checked_sub_def)
    with True pos show ?thesis
      using sint64_sub [of ?e ?s] by (simp add: duration_micros_def)
  next
    case False
    then have "i64_checked_sub ?e ?s = None"
      by (simp add: i64_checked_sub_def)
    with False show ?thesis
      by (simp add: duration_micros_def)
  qed
qed

theorem duration_exact_or_saturated_witness:
  "duration_micros \<lparr>tr_start = HybridTimestamp i64_MIN 0, tr_end = HybridTimestamp 500 0\<rparr>
   \<noteq> None"
proof -
  let ?r = "\<lparr>tr_start = HybridTimestamp i64_MIN 0, tr_end = HybridTimestamp 500 0\<rparr>"
  have "wf_range ?r"
    by (simp add: wf_range_def valid_timestamp_def MAX_VALID_TIMESTAMP_sint hts_order)
  from duration_exact_or_saturated [OF this] show ?thesis
    by (simp add: tr_is_current_def TIMESTAMP_MAX_def)
qed

lemma to_secs_from_secs:
  assumes "- (2 ^ 63) \<le> sint s * 1000000" and "sint s * 1000000 < 2 ^ 63"
  shows "to_secs (from_secs s) = s"
proof -
  have "s * 1000000 = word_of_int (sint s * 1000000)"
    by (simp only: wi_hom_mult [symmetric] of_int_sint scast_id) simp
  then have "sint (s * 1000000) = sint s * 1000000"
    using sint64_of_int [OF assms] by simp
  moreover have "(sint s * 1000000) sdiv 1000000 = sint s"
    by (simp add: signed_divide_int_def sgn_mult abs_mult sgn_mult_abs)
  ultimately show ?thesis
    by (simp add: to_secs_def from_secs_def)
qed

end
