(* ===== verification/Errors.thy ===== *)
theory Errors
  imports Hlc
begin

text \<open>
  The error types of \<open>src/core/error.rs\<close> above the storage errors (theory Ids) and the temporal
  errors (theory Hlc). Human-readable texts (\<open>reason\<close>, \<open>message\<close>, \<open>hint\<close>) are left out; every
  constructor is kept. Errors of parts that are not modelled (provenance, lineage, namespace,
  tenant, backup, I/O) are constructors of \<open>Error\<close> without their payload.
\<close>

datatype QueryError =
    QSyntaxError
  | QUnsupportedFeature
  | QInvalidParameter string
  | QTimeout u64
  | QLimitExceeded nat
  | QInvalidTraversal
  | QTypeMismatch
  | QExecutionError
  | QIndexNotFound string string
  | QResourceExhausted string u64 u64 bool

datatype TransactionError =
    InvalidState
  | AlreadyCommitted u64
  | Aborted u64
  | WriteConflict
  | SerializationFailure
  | ValidationFailed
  | CommitFailed
  | RollbackFailed
  | TxLockPoisoned
  | CasMismatch VersionId "VersionId option"
  | FenceTooLow string i64 i64
  | ClockSkew i64 i64 i64 i64
  | ReadOnlyReplica

datatype ConstraintError =
    UniqueViolation string string NodeId
  | DuplicateOnEnable string string "NodeId list"
  | UnsupportedKeyType string string string
  | TypeViolation string string string string string
  | MissingRequiredKey string string "string list"
  | NonConformingOnEnable string string nat "u64 list"

datatype VectorError =
    DimensionMismatch nat nat
  | ContainsNaN nat
  | ContainsInfinity nat
  | DimensionTooLarge nat nat
  | IndexOutOfBounds nat nat
  | VectorNotFound
  | InvalidVector
  | InvalidSparseVector
  | IndexError

datatype Error =
    StorageErr StorageError
  | TemporalErr TemporalError
  | ProvenanceErr
  | LineageErr
  | NamespaceErr
  | TenantErr
  | QueryErr QueryError
  | TransactionErr TransactionError
  | VectorErr VectorError
  | ConstraintErr ConstraintError
  | IoErr
  | BackupErr
  | NotImplemented string
  | FailedPrecondition
  | OtherErr

end
