(* ===== verification/CommitClock.thy ===== *)
theory CommitClock
  imports Temporal Errors
begin

text \<open>
  The commit clock: \<open>src/core/commit_clock.rs\<close>, with the stamp computation of the commit path
  (\<open>src/api/transaction/write/mod.rs\<close>). The allocation frontier is one 128-bit atomic cell that
  holds a packed timestamp and two flag bits. Every atomic access is one step of a transition
  system in which any number of lock-free readers interleave with the committer that holds the
  serialization mutex.
\<close>

section \<open>The packed frontier word\<close>

definition SIGN_BIT :: u64 where
  "SIGN_BIT = push_bit 63 1"

definition pack :: "Timestamp \<Rightarrow> u128" where
  "pack ts = push_bit 32 (ucast (wallclock ts XOR SIGN_BIT)) OR ucast (logical ts)"

definition unpack :: "u128 \<Rightarrow> Timestamp" where
  "unpack v = HybridTimestamp (ucast (drop_bit 32 v) XOR SIGN_BIT) (ucast (v AND 0xFFFFFFFF))"

definition IN_FLIGHT :: u128 where
  "IN_FLIGHT = push_bit 127 1"

definition RESERVED :: u128 where
  "RESERVED = push_bit 126 1"

definition TS_MASK :: u128 where
  "TS_MASK = NOT (IN_FLIGHT OR RESERVED)"

definition state_timestamp :: "u128 \<Rightarrow> Timestamp" where
  "state_timestamp st = unpack (st AND TS_MASK)"

definition in_flight :: "u128 \<Rightarrow> bool" where
  "in_flight st \<longleftrightarrow> st AND IN_FLIGHT \<noteq> 0"

definition reserved :: "u128 \<Rightarrow> bool" where
  "reserved st \<longleftrightarrow> st AND RESERVED \<noteq> 0"

lemma bit_SIGN_BIT: "bit SIGN_BIT n \<longleftrightarrow> n = 63"
  unfolding SIGN_BIT_def by (subst bit_push_bit_iff) (auto simp: bit_1_iff)

lemma bit_IN_FLIGHT: "bit IN_FLIGHT n \<longleftrightarrow> n = 127"
  unfolding IN_FLIGHT_def by (subst bit_push_bit_iff) (auto simp: bit_1_iff)

lemma bit_RESERVED: "bit RESERVED n \<longleftrightarrow> n = 126"
  unfolding RESERVED_def by (subst bit_push_bit_iff) (auto simp: bit_1_iff)

lemma bit_TS_MASK: "bit TS_MASK n \<longleftrightarrow> n < 126"
  by (auto simp: TS_MASK_def bit_not_iff bit_and_iff bit_IN_FLIGHT bit_RESERVED)

lemma low32_mask: "(0xFFFFFFFF :: u128) = mask 32"
  by (simp add: mask_eq_exp_minus_1)

lemmas frontier_bits = bit_SIGN_BIT bit_IN_FLIGHT bit_RESERVED bit_TS_MASK

lemma bit_pack:
  "bit (pack ts) n \<longleftrightarrow>
     n < 32 \<and> bit (logical ts) n
     \<or> 32 \<le> n \<and> n < 96 \<and> bit (wallclock ts) (n - 32) \<noteq> (n = 95)"
  by (auto simp: pack_def bit_or_iff bit_push_bit_iff bit_unsigned_iff bit_xor_iff frontier_bits
      dest: bit_imp_le_length)

lemma unpack_pack: "unpack (pack ts) = ts"
proof -
  have "ucast (drop_bit 32 (pack ts)) XOR SIGN_BIT = wallclock ts"
    by (rule bit_word_eqI)
      (auto simp: bit_xor_iff bit_unsigned_iff bit_drop_bit_eq bit_pack frontier_bits)
  moreover have "ucast (pack ts AND 0xFFFFFFFF) = logical ts"
    unfolding low32_mask
    by (rule bit_word_eqI) (auto simp: bit_unsigned_iff bit_and_iff bit_pack bit_mask_iff)
  ultimately show ?thesis by (simp add: unpack_def)
qed

lemma state_timestamp_cong:
  assumes "\<And>n. n < 96 \<Longrightarrow> bit a n = bit b n"
  shows "state_timestamp a = state_timestamp b"
proof -
  have "ucast (drop_bit 32 (a AND TS_MASK)) = (ucast (drop_bit 32 (b AND TS_MASK)) :: u64)"
    by (rule bit_word_eqI)
      (use assms in \<open>auto simp: bit_unsigned_iff bit_drop_bit_eq bit_and_iff frontier_bits\<close>)
  moreover have "ucast ((a AND TS_MASK) AND 0xFFFFFFFF) = (ucast ((b AND TS_MASK) AND 0xFFFFFFFF) :: u32)"
    unfolding low32_mask
    by (rule bit_word_eqI)
      (use assms in \<open>auto simp: bit_unsigned_iff bit_and_iff bit_mask_iff frontier_bits\<close>)
  ultimately show ?thesis unfolding state_timestamp_def unpack_def by (simp only:)
qed

lemma state_timestamp_pack [simp]: "state_timestamp (pack ts) = ts"
proof -
  have "pack ts AND TS_MASK = pack ts"
    by (rule bit_word_eqI) (auto simp: bit_and_iff bit_pack frontier_bits)
  then show ?thesis by (simp add: state_timestamp_def unpack_pack)
qed

lemma state_timestamp_flags [simp]:
  "state_timestamp (st OR IN_FLIGHT) = state_timestamp st"
  "state_timestamp (st OR RESERVED) = state_timestamp st"
  "state_timestamp (st AND NOT IN_FLIGHT) = state_timestamp st"
  by (rule state_timestamp_cong; auto simp: bit_or_iff bit_and_iff bit_not_iff frontier_bits)+

lemma in_flight_iff_bit: "in_flight st \<longleftrightarrow> bit st 127"
proof -
  have "bit (st AND IN_FLIGHT) n \<longleftrightarrow> n = 127 \<and> bit st 127" for n
    by (auto simp: bit_and_iff frontier_bits)
  then show ?thesis
    unfolding in_flight_def by (metis bit_0_eq bot_apply bot_bool_def bit_word_eqI)
qed

lemma reserved_iff_bit: "reserved st \<longleftrightarrow> bit st 126"
proof -
  have "bit (st AND RESERVED) n \<longleftrightarrow> n = 126 \<and> bit st 126" for n
    by (auto simp: bit_and_iff frontier_bits)
  then show ?thesis
    unfolding reserved_def by (metis bit_0_eq bot_apply bot_bool_def bit_word_eqI)
qed

lemma flag_simps [simp]:
  "\<not> in_flight (pack ts)" "\<not> reserved (pack ts)"
  "in_flight (st OR IN_FLIGHT)" "reserved (st OR IN_FLIGHT) = reserved st"
  "reserved (st OR RESERVED)" "in_flight (st OR RESERVED) = in_flight st"
  "\<not> in_flight (st AND NOT IN_FLIGHT)" "reserved (st AND NOT IN_FLIGHT) = reserved st"
  by (auto simp: in_flight_iff_bit reserved_iff_bit bit_pack bit_or_iff bit_and_iff bit_not_iff
      frontier_bits)

text \<open>
  The biased encoding: the unsigned value of a packed word is the timestamp's position in the
  order of timestamps.
\<close>

lemma xor_SIGN_BIT: "(w :: u64) XOR SIGN_BIT = w + SIGN_BIT"
proof (cases "bit w 63")
  case False
  then have "w AND SIGN_BIT = 0"
    by (intro bit_word_eqI) (auto simp: bit_and_iff frontier_bits)
  then show ?thesis
    by (simp add: disjunctive_add_eq_or disjunctive_xor_eq_or)
next
  case True
  let ?v = "w XOR SIGN_BIT"
  have "?v AND SIGN_BIT = 0"
    using True by (intro bit_word_eqI) (auto simp: bit_and_iff bit_xor_iff frontier_bits)
  then have "?v + SIGN_BIT = ?v XOR SIGN_BIT"
    by (simp add: disjunctive_add_eq_or disjunctive_xor_eq_or)
  also have "\<dots> = w"
    by (simp add: xor.assoc)
  finally have "w + SIGN_BIT = ?v + (SIGN_BIT + SIGN_BIT)"
    by (metis add.assoc)
  moreover have "SIGN_BIT + SIGN_BIT = 0"
    by (simp add: SIGN_BIT_def)
  ultimately show ?thesis by simp
qed

lemma uint_biased: "uint ((w :: u64) XOR SIGN_BIT) = sint w + 2 ^ 63"
proof -
  have "uint (w + SIGN_BIT) = take_bit 64 (uint w + 2 ^ 63)"
    by (simp add: uint_word_ariths take_bit_eq_mod SIGN_BIT_def)
  moreover have "sint w = take_bit 64 (uint w + 2 ^ 63) - 2 ^ 63"
    using signed_take_bit_eq_take_bit_shift [of 63 "uint w"]
    by (simp add: sint_uint)
  ultimately show ?thesis by (simp add: xor_SIGN_BIT)
qed

lemma uint_pack: "uint (pack ts) = (sint (wallclock ts) + 2 ^ 63) * 2 ^ 32 + uint (logical ts)"
proof -
  let ?b = "ucast (wallclock ts XOR SIGN_BIT) :: u128"
  have b: "uint ?b = sint (wallclock ts) + 2 ^ 63"
    using uint_biased [of "wallclock ts"] sint64_range [of "wallclock ts"]
    by (simp add: unsigned_ucast_eq take_bit_int_eq_self)
  have "push_bit 32 ?b AND ucast (logical ts) = 0"
    by (rule bit_word_eqI)
      (auto simp: bit_and_iff bit_push_bit_iff bit_unsigned_iff dest: bit_imp_le_length)
  then have "uint (pack ts) = uint (push_bit 32 ?b + ucast (logical ts))"
    by (simp add: pack_def disjunctive_add_eq_or)
  moreover have "uint (push_bit 32 ?b) = uint ?b * 2 ^ 32"
    unfolding push_bit_eq_mult uint_word_ariths b using sint64_range [of "wallclock ts"] by simp
  moreover have lg: "uint (ucast (logical ts) :: u128) = uint (logical ts)"
    using uint_lt2p [of "logical ts"] by (simp add: unsigned_ucast_eq take_bit_int_eq_self)
  ultimately show ?thesis
    unfolding uint_word_ariths lg b
    using sint64_range [of "wallclock ts"] uint_lt2p [of "logical ts"] by simp
qed

lemma lex_int_less:
  fixes A B x y k :: int
  assumes "0 \<le> x" "x < k" "0 \<le> y" "y < k"
  shows "A * k + x < B * k + y \<longleftrightarrow> A < B \<or> A = B \<and> x < y"
proof -
  have step: "C * k + u < D * k + v" if "C < D" "u < k" "0 \<le> v" for C D u v
  proof -
    have "(C + 1) * k \<le> D * k"
      using that assms by (intro mult_right_mono) auto
    with that show ?thesis by (simp add: algebra_simps)
  qed
  show ?thesis
    using step [of A B x y] step [of B A y x] assms by (cases A B rule: linorder_cases) auto
qed

text \<open>
  C31: the packed form round-trips and preserves order: comparing packed words as unsigned
  128-bit integers agrees with the order of the timestamps, and neither flag bit disturbs the
  timestamp a word carries.
\<close>

theorem pack_order_embedding:
  "unpack (pack a) = a \<and> (pack a < pack b \<longleftrightarrow> a < b)
   \<and> state_timestamp (pack a OR IN_FLIGHT) = a \<and> state_timestamp (pack a OR RESERVED) = a"
proof -
  have l: "uint (logical a) < 2 ^ 32" "uint (logical b) < 2 ^ 32"
    "0 \<le> uint (logical a)" "0 \<le> uint (logical b)"
    using uint_lt2p [of "logical a"] uint_lt2p [of "logical b"] by simp_all
  have "uint (pack a) < uint (pack b) \<longleftrightarrow>
      sint (wallclock a) < sint (wallclock b)
      \<or> sint (wallclock a) = sint (wallclock b) \<and> uint (logical a) < uint (logical b)"
    unfolding uint_pack using lex_int_less [OF l(3,1,4,2)] by simp
  then have "pack a < pack b \<longleftrightarrow> a < b"
    by (auto simp: word_less_def less_HybridTimestamp_def sint64_eq_iff)
  then show ?thesis by (simp add: unpack_pack)
qed

section \<open>Commit stamps\<close>

text \<open>The stamps drawn one after the other from the same frontier.\<close>

fun stamps :: "('w \<Rightarrow> Timestamp \<Rightarrow> 'e + Timestamp) \<Rightarrow> Timestamp \<Rightarrow> 'w list \<Rightarrow> Timestamp list" where
  "stamps compute base [] = []"
| "stamps compute base (w # ws) =
     (case compute w base of Inl e \<Rightarrow> stamps compute base ws | Inr c \<Rightarrow> c # stamps compute c ws)"

text \<open>
  A source of commit stamps: derives a stamp from the frontier it is handed and an input it
  reads (the wallclock). The clock relies on one law only, that the stamp is strictly after the
  frontier.
\<close>

locale stamp_source =
  fixes compute :: "'w \<Rightarrow> Timestamp \<Rightarrow> 'e + Timestamp"
  assumes stamp_after_frontier: "compute w base = Inr c \<Longrightarrow> base < c"
begin

lemma stamps_above: "t \<in> set (stamps compute base ws) \<Longrightarrow> base < t"
  by (induction ws arbitrary: base)
    (auto split: sum.splits intro: less_trans dest: stamp_after_frontier)

lemma stamps_sorted: "sorted_wrt (<) (stamps compute base ws)"
  by (induction ws arbitrary: base) (auto split: sum.splits dest: stamps_above)

end

text \<open>
  The closure the commit path hands to \<open>advance_with\<close>: skew policy first, then the clock rule
  with its self-healing fallback.
\<close>

record stamp_input =
  si_now :: Timestamp
  si_forward_limit :: i64
  si_self_heal :: bool

definition commit_stamp :: "stamp_input \<Rightarrow> Timestamp \<Rightarrow> TransactionError + Timestamp" where
  "commit_stamp i frontier =
     (case evaluate_clock_skew (wallclock (si_now i)) (wallclock frontier)
             (Some (si_forward_limit i)) (si_self_heal i) of
        Inl v \<Rightarrow> Inl (ClockSkew (wallclock (si_now i)) (wallclock frontier)
                          (v_drift_us v) (v_max_allowed v))
      | Inr d \<Rightarrow>
          send_with_overflow_self_heal frontier (effective_wallclock d) (si_self_heal i)
            (\<lambda>_. CommitFailed))"

lemma send_with_overflow_strict:
  "send_with_overflow_self_heal fr w heal f = Inr t \<Longrightarrow> fr < t"
  by (auto simp: send_with_overflow_self_heal_def dest: send_strict
      split: sum.splits TemporalError.splits if_splits option.splits)

interpretation commit_source: stamp_source commit_stamp
  by unfold_locales
    (auto simp: commit_stamp_def dest: send_with_overflow_strict split: sum.splits)

interpretation hlc_source: stamp_source "\<lambda>w base. send base w"
  by unfold_locales (rule send_strict)

text \<open>
  C17: the stamps a node draws for successive commits are strictly increasing and all after the
  frontier it started from, whatever the wallclock does in between.
\<close>

theorem commit_stamps_increase:
  "sorted_wrt (<) (stamps commit_stamp base ws)
   \<and> list_all (\<lambda>t. base < t) (stamps commit_stamp base ws)"
  by (simp add: commit_source.stamps_sorted list_all_iff commit_source.stamps_above)

section \<open>The clock as a transition system\<close>

text \<open>
  \<open>snapshot_candidate\<close> is the stamp a reader tries to install: the wallclock when it is ahead of
  the frontier, else the frontier's logical successor.
\<close>

definition snapshot_candidate :: "Timestamp \<Rightarrow> Timestamp \<Rightarrow> TemporalError + Timestamp" where
  "snapshot_candidate cur now =
     (if cur < now then Inr now
      else case u32_checked_add (logical cur) 1 of
             None \<Rightarrow> Inl (LogicalCounterOverflow (wallclock cur) (logical cur))
           | Some l \<Rightarrow> Inr (HybridTimestamp (wallclock cur) l))"

text \<open>
  Where the thread holding the serialization mutex is in its protocol. \<open>WFree\<close>: the mutex is
  free. A committer goes through \<open>WLocked\<close>, \<open>WLoaded\<close> (inside \<open>advance_with\<close>), \<open>WFlight\<close>
  (stamp assigned), \<open>WApplied\<close> (its writes are in storage), \<open>WStored\<close> (first store of
  \<open>publish_applied\<close> done) and \<open>WDone\<close>; \<open>raise_to\<close> goes through \<open>WRaise\<close>, \<open>WRaiseLoaded\<close>,
  \<open>WRaiseStored\<close>. A panic under the lock leaves it poisoned.
\<close>

datatype wphase =
    WFree | WLocked | WLoaded u128 | WFlight Timestamp | WApplied Timestamp
  | WStored Timestamp | WDone | WPoisoned
  | WRaise Timestamp | WRaiseLoaded Timestamp u128 | WRaiseStored Timestamp

text \<open>
  A reader is outside the loop or has loaded the frontier word; the second component of
  \<open>RLoaded\<close> records, for the specification only, the commits published at that moment.
\<close>

datatype rphase = RIdle | RLoaded u128 "Timestamp set"

text \<open>
  \<open>frontier\<close> and \<open>applied\<close> are the two atomics. \<open>storage\<close> is the set of commit stamps whose
  writes are in storage, \<open>published\<close> those whose \<open>publish_applied\<close> has completed. \<open>snaps\<close>
  records every snapshot handed out, with the commits it saw then and those that had been
  published before the read began.
\<close>

record clock =
  frontier :: u128
  applied :: u128
  writer :: wphase
  readers :: "nat \<Rightarrow> rphase"
  storage :: "Timestamp set"
  published :: "Timestamp set"
  snaps :: "(Timestamp \<times> Timestamp set \<times> Timestamp set) set"

definition clock_new :: "Timestamp \<Rightarrow> clock" where
  "clock_new ts =
     \<lparr>frontier = pack ts, applied = pack ts, writer = WFree, readers = (\<lambda>_. RIdle),
      storage = {}, published = {}, snaps = {}\<rparr>"

definition visible :: "clock \<Rightarrow> Timestamp \<Rightarrow> Timestamp set" where
  "visible s snap = {c \<in> storage s. c < snap}"

definition hand_out :: "nat \<Rightarrow> Timestamp \<Rightarrow> Timestamp set \<Rightarrow> clock \<Rightarrow> clock" where
  "hand_out i snap before s =
     s\<lparr>readers := (readers s)(i := RIdle),
       snaps := insert (snap, visible s snap, before) (snaps s)\<rparr>"

inductive reader_step :: "clock \<Rightarrow> clock \<Rightarrow> bool" where
  r_park: "readers s i = RIdle \<Longrightarrow> in_flight (frontier s) \<Longrightarrow>
     reader_step s (hand_out i (state_timestamp (frontier s)) (published s) s)"
| r_load: "readers s i = RIdle \<Longrightarrow> \<not> in_flight (frontier s) \<Longrightarrow>
     reader_step s (s\<lparr>readers := (readers s)(i := RLoaded (frontier s) (published s))\<rparr>)"
| r_share: "readers s i = RLoaded st before \<Longrightarrow> reserved st \<Longrightarrow> now \<le> state_timestamp st \<Longrightarrow>
     reader_step s (hand_out i (state_timestamp st) before s)"
| r_overflow: "readers s i = RLoaded st before \<Longrightarrow>
     \<not> (reserved st \<and> now \<le> state_timestamp st) \<Longrightarrow>
     snapshot_candidate (state_timestamp st) now = Inl e \<Longrightarrow>
     reader_step s (s\<lparr>readers := (readers s)(i := RIdle)\<rparr>)"
| r_install: "readers s i = RLoaded st before \<Longrightarrow>
     \<not> (reserved st \<and> now \<le> state_timestamp st) \<Longrightarrow>
     snapshot_candidate (state_timestamp st) now = Inr snap \<Longrightarrow> frontier s = st \<Longrightarrow>
     reader_step s (hand_out i snap before (s\<lparr>frontier := pack snap OR RESERVED\<rparr>))"
| r_retry: "readers s i = RLoaded st before \<Longrightarrow>
     \<not> (reserved st \<and> now \<le> state_timestamp st) \<Longrightarrow>
     snapshot_candidate (state_timestamp st) now = Inr snap \<Longrightarrow>
     reader_step s (s\<lparr>readers := (readers s)(i := RIdle)\<rparr>)"

inductive committer_step :: "clock \<Rightarrow> clock \<Rightarrow> bool" where
  w_lock: "writer s = WFree \<Longrightarrow> committer_step s (s\<lparr>writer := WLocked\<rparr>)"
| w_load: "writer s = WLocked \<Longrightarrow> committer_step s (s\<lparr>writer := WLoaded (frontier s)\<rparr>)"
| w_advance: "writer s = WLoaded obs \<Longrightarrow> commit_stamp inp (state_timestamp obs) = Inr c \<Longrightarrow>
     frontier s = obs \<Longrightarrow>
     committer_step s (s\<lparr>frontier := pack c OR IN_FLIGHT, writer := WFlight c\<rparr>)"
| w_retry: "writer s = WLoaded obs \<Longrightarrow> commit_stamp inp (state_timestamp obs) = Inr c \<Longrightarrow>
     committer_step s (s\<lparr>writer := WLocked\<rparr>)"
| w_refused: "writer s = WLoaded obs \<Longrightarrow> commit_stamp inp (state_timestamp obs) = Inl e \<Longrightarrow>
     committer_step s (s\<lparr>writer := WFree\<rparr>)"
| w_apply: "writer s = WFlight c \<Longrightarrow>
     committer_step s (s\<lparr>storage := insert c (storage s), writer := WApplied c\<rparr>)"
| w_store: "writer s = WApplied c \<Longrightarrow>
     committer_step s (s\<lparr>applied := pack c, writer := WStored c\<rparr>)"
| w_publish: "writer s = WStored c \<Longrightarrow>
     committer_step s (s\<lparr>frontier := frontier s AND NOT IN_FLIGHT, writer := WDone,
                        published := insert c (published s)\<rparr>)"
| w_unlock: "writer s = WDone \<or> writer s = WLocked \<Longrightarrow> committer_step s (s\<lparr>writer := WFree\<rparr>)"
| w_abort: "writer s = WFlight c \<Longrightarrow>
     committer_step s (s\<lparr>frontier := frontier s AND NOT IN_FLIGHT, writer := WFree\<rparr>)"
| w_panic: "writer s \<in> {WLocked, WDone} \<or> writer s = WLoaded obs \<Longrightarrow>
     committer_step s (s\<lparr>writer := WPoisoned\<rparr>)"
| w_panic_flight: "writer s \<in> {WFlight c, WApplied c, WStored c} \<Longrightarrow>
     committer_step s (s\<lparr>frontier := frontier s AND NOT IN_FLIGHT, writer := WPoisoned\<rparr>)"

text \<open>\<open>raise_to\<close>, the replica applier's operation, one atomic access per step.\<close>

inductive raise_step :: "clock \<Rightarrow> clock \<Rightarrow> bool" where
  a_lock: "writer s = WFree \<Longrightarrow> raise_step s (s\<lparr>writer := WRaise ts\<rparr>)"
| a_load: "writer s = WRaise ts \<Longrightarrow> raise_step s (s\<lparr>writer := WRaiseLoaded ts (frontier s)\<rparr>)"
| a_skip: "writer s = WRaiseLoaded ts st \<Longrightarrow> ts \<le> state_timestamp st \<Longrightarrow>
     raise_step s (s\<lparr>writer := WFree\<rparr>)"
| a_store: "writer s = WRaiseLoaded ts st \<Longrightarrow> state_timestamp st < ts \<Longrightarrow>
     raise_step s (s\<lparr>frontier := pack ts, writer := WRaiseStored ts\<rparr>)"
| a_applied: "writer s = WRaiseStored ts \<Longrightarrow>
     raise_step s (s\<lparr>applied := pack ts, writer := WFree\<rparr>)"

definition clock_step :: "clock \<Rightarrow> clock \<Rightarrow> bool" where
  "clock_step s t \<longleftrightarrow> reader_step s t \<or> committer_step s t"

inductive clock_run :: "clock \<Rightarrow> clock \<Rightarrow> bool" where
  run_refl: "clock_run s s"
| run_step: "clock_run s t \<Longrightarrow> clock_step t u \<Longrightarrow> clock_run s u"

section \<open>The invariant\<close>

definition flight_stamp :: "wphase \<Rightarrow> Timestamp option" where
  "flight_stamp w =
     (case w of WFlight c \<Rightarrow> Some c | WApplied c \<Rightarrow> Some c | WStored c \<Rightarrow> Some c | _ \<Rightarrow> None)"

text \<open>
  The frontier's flag says whether a stamp is assigned but not published, and then the frontier
  is that stamp; stored commits are at or below the frontier, strictly below it while it is a
  reservation or while the in-flight commit is not yet stored; every snapshot handed out is at
  or below the frontier and sees now exactly what it saw when it was handed out.
\<close>

definition flag_inv :: "clock \<Rightarrow> bool" where
  "flag_inv s \<longleftrightarrow>
     (in_flight (frontier s) \<longleftrightarrow> flight_stamp (writer s) \<noteq> None)
     \<and> (\<forall>c. flight_stamp (writer s) = Some c \<longrightarrow> c = state_timestamp (frontier s))
     \<and> (reserved (frontier s) \<longrightarrow> \<not> in_flight (frontier s))"

definition store_inv :: "clock \<Rightarrow> bool" where
  "store_inv s \<longleftrightarrow>
     (\<forall>c \<in> storage s. c \<le> state_timestamp (frontier s))
     \<and> (reserved (frontier s) \<longrightarrow> state_timestamp (frontier s) \<notin> storage s)
     \<and> (\<forall>c. writer s = WFlight c \<longrightarrow> c \<notin> storage s)
     \<and> (\<forall>c. writer s = WApplied c \<or> writer s = WStored c \<longrightarrow> c \<in> storage s)
     \<and> (in_flight (frontier s) \<longrightarrow> state_timestamp (frontier s) \<notin> published s)
     \<and> published s \<subseteq> storage s"

definition load_inv :: "clock \<Rightarrow> bool" where
  "load_inv s \<longleftrightarrow>
     (\<forall>i st before. readers s i = RLoaded st before \<longrightarrow>
        \<not> in_flight st \<and> state_timestamp st \<le> state_timestamp (frontier s)
        \<and> before \<subseteq> storage s \<and> (\<forall>c \<in> before. c \<le> state_timestamp st)
        \<and> (reserved st \<longrightarrow> state_timestamp st \<notin> before))"

definition snap_inv :: "clock \<Rightarrow> bool" where
  "snap_inv s \<longleftrightarrow>
     (\<forall>snap saw before. (snap, saw, before) \<in> snaps s \<longrightarrow>
        snap \<le> state_timestamp (frontier s) \<and> saw = visible s snap \<and> before \<subseteq> saw)"

definition clock_inv :: "clock \<Rightarrow> bool" where
  "clock_inv s \<longleftrightarrow> flag_inv s \<and> store_inv s \<and> load_inv s \<and> snap_inv s"

lemma clock_inv_new: "clock_inv (clock_new ts)"
  by (simp add: clock_inv_def flag_inv_def store_inv_def load_inv_def snap_inv_def clock_new_def
      flight_stamp_def)

lemma candidate_strict: "snapshot_candidate cur now = Inr snap \<Longrightarrow> cur < snap"
  using hts_less_succ [of "logical cur" "wallclock cur"]
  by (auto simp: snapshot_candidate_def u32_checked_succ split: if_splits)

lemma hand_out_simps [simp]:
  "frontier (hand_out i S b s) = frontier s" "writer (hand_out i S b s) = writer s"
  "storage (hand_out i S b s) = storage s" "published (hand_out i S b s) = published s"
  "visible (hand_out i S b s) x = visible s x"
  by (simp_all add: hand_out_def visible_def)

lemma visible_frame [simp]:
  "visible (s\<lparr>frontier := f\<rparr>) x = visible s x" "visible (s\<lparr>writer := w\<rparr>) x = visible s x"
  "visible (s\<lparr>readers := r\<rparr>) x = visible s x" "visible (s\<lparr>applied := a\<rparr>) x = visible s x"
  "visible (s\<lparr>published := p\<rparr>) x = visible s x"
  by (simp_all add: visible_def)

lemma load_invD:
  assumes "load_inv s" and "readers s i = RLoaded st before"
  shows "\<not> in_flight st" and "state_timestamp st \<le> state_timestamp (frontier s)"
    and "before \<subseteq> storage s" and "\<forall>c \<in> before. c \<le> state_timestamp st"
    and "reserved st \<Longrightarrow> \<forall>c \<in> before. c < state_timestamp st"
  using assms by (auto simp: load_inv_def order.strict_iff_order)

text \<open>The reader and snapshot parts survive any step that does not lower the frontier.\<close>

lemma load_inv_mono:
  assumes "load_inv s" and "readers t = readers s"
    and "state_timestamp (frontier s) \<le> state_timestamp (frontier t)" and "storage s \<subseteq> storage t"
  shows "load_inv t"
  using assms unfolding load_inv_def by (metis order_trans)

lemma load_inv_idle: "load_inv s \<Longrightarrow> load_inv (s\<lparr>readers := (readers s)(i := RIdle)\<rparr>)"
  by (auto simp: load_inv_def)

lemma snap_inv_mono:
  assumes "snap_inv s" and "snaps t = snaps s"
    and "state_timestamp (frontier s) \<le> state_timestamp (frontier t)"
    and "\<And>S. S \<le> state_timestamp (frontier s) \<Longrightarrow> visible t S = visible s S"
  shows "snap_inv t"
  unfolding snap_inv_def
proof (intro allI impI)
  fix S saw before
  assume "(S, saw, before) \<in> snaps t"
  with assms(1,2) have "S \<le> state_timestamp (frontier s)" "saw = visible s S" "before \<subseteq> saw"
    by (auto simp: snap_inv_def)
  with assms(3,4) show "S \<le> state_timestamp (frontier t) \<and> saw = visible t S \<and> before \<subseteq> saw"
    by (metis order_trans)
qed

lemma hand_out_inv:
  assumes "clock_inv s" and "S \<le> state_timestamp (frontier s)"
    and "\<forall>c \<in> b. c < S" and "b \<subseteq> storage s"
  shows "clock_inv (hand_out i S b s)"
proof -
  have "flag_inv (hand_out i S b s)" "store_inv (hand_out i S b s)"
    using assms(1) unfolding clock_inv_def flag_inv_def store_inv_def hand_out_simps by blast+
  moreover have "load_inv (hand_out i S b s)" "snap_inv (hand_out i S b s)"
    using assms by (auto simp: clock_inv_def load_inv_def snap_inv_def hand_out_def visible_def)
  ultimately show ?thesis by (simp add: clock_inv_def)
qed

lemma reserve_inv:
  assumes "clock_inv s" and "state_timestamp (frontier s) < S" and "\<not> in_flight (frontier s)"
  shows "clock_inv (s\<lparr>frontier := pack S OR RESERVED\<rparr>)"
proof -
  let ?t = "s\<lparr>frontier := pack S OR RESERVED\<rparr>"
  have le: "state_timestamp (frontier s) \<le> state_timestamp (frontier ?t)"
    using assms(2) by simp
  have "flag_inv ?t" "store_inv ?t"
    using assms by (auto simp: clock_inv_def flag_inv_def store_inv_def)
  moreover have "load_inv ?t" "snap_inv ?t"
    using assms(1) load_inv_mono [of s ?t, OF _ _ le] snap_inv_mono [of s ?t, OF _ _ le]
    by (simp_all add: clock_inv_def)
  ultimately show ?thesis by (simp add: clock_inv_def)
qed

lemma idle_inv: "clock_inv s \<Longrightarrow> clock_inv (s\<lparr>readers := (readers s)(i := RIdle)\<rparr>)"
  by (auto simp: clock_inv_def flag_inv_def store_inv_def load_inv_def snap_inv_def)

lemma reader_step_inv:
  assumes "reader_step s t" and inv: "clock_inv s"
  shows "clock_inv t"
  using assms(1)
proof cases
  case (r_park i)
  have "c < state_timestamp (frontier s)" if "c \<in> published s" for c
    using inv r_park(3) that
    by (auto simp: clock_inv_def store_inv_def order.strict_iff_order)
  moreover have "published s \<subseteq> storage s"
    using inv by (simp add: clock_inv_def store_inv_def)
  ultimately show ?thesis
    using inv r_park by (simp add: hand_out_inv)
next
  case (r_load i)
  with inv show ?thesis
    by (auto simp: clock_inv_def flag_inv_def store_inv_def load_inv_def snap_inv_def)
next
  case (r_share i st before now)
  have ld: "load_inv s" using inv by (simp add: clock_inv_def)
  show ?thesis
    using inv load_invD [OF ld r_share(2)] r_share by (simp add: hand_out_inv)
next
  case (r_overflow i st before now e)
  with inv show ?thesis by (simp add: idle_inv)
next
  case (r_install i st before now snap)
  have ld: "load_inv s" using inv by (simp add: clock_inv_def)
  have lt: "state_timestamp (frontier s) < snap"
    using r_install candidate_strict by simp
  then have "\<forall>c \<in> before. c < snap"
    using load_invD(4) [OF ld r_install(2)] r_install(5) by (metis le_less_trans)
  then show ?thesis
    using inv lt load_invD(1,3) [OF ld r_install(2)] r_install
    by (simp add: hand_out_inv reserve_inv)
next
  case (r_retry i st before now snap)
  with inv show ?thesis by (simp add: idle_inv)
qed

lemma committer_step_frame:
  assumes "committer_step s t" and inv: "clock_inv s"
  shows "readers t = readers s" and "snaps t = snaps s"
    and "state_timestamp (frontier s) \<le> state_timestamp (frontier t)"
    and "S \<le> state_timestamp (frontier s) \<Longrightarrow> visible t S = visible s S"
    and "storage s \<subseteq> storage t"
proof -
  show "readers t = readers s" "snaps t = snaps s" "storage s \<subseteq> storage t"
    using assms(1) by (auto elim!: committer_step.cases)
  show "state_timestamp (frontier s) \<le> state_timestamp (frontier t)"
    using assms(1)
    by (auto elim!: committer_step.cases
        dest!: commit_source.stamp_after_frontier intro: less_imp_le)
  show "visible t S = visible s S" if "S \<le> state_timestamp (frontier s)"
    using assms(1)
  proof cases
    case (w_apply c)
    with inv that have "\<not> c < S"
      by (auto simp: clock_inv_def flag_inv_def flight_stamp_def)
    with w_apply show ?thesis by (auto simp: visible_def)
  qed (simp_all add: visible_def)
qed

lemma committer_step_flag_store:
  assumes "committer_step s t" and "clock_inv s"
  shows "flag_inv t \<and> store_inv t"
  using assms(1)
proof cases
  case (w_advance obs inp c)
  with assms(2) have lt: "state_timestamp (frontier s) < c"
    by (auto dest: commit_source.stamp_after_frontier)
  then have "x \<le> c \<and> x \<noteq> c" if "x \<in> storage s" for x
    using assms(2) that by (auto simp: clock_inv_def store_inv_def)
  with w_advance assms(2) show ?thesis
    by (auto simp: clock_inv_def flag_inv_def store_inv_def flight_stamp_def)
qed (use assms(2) in
    \<open>auto simp: clock_inv_def flag_inv_def store_inv_def flight_stamp_def split: wphase.splits\<close>)

lemma committer_step_inv:
  assumes "committer_step s t" and "clock_inv s"
  shows "clock_inv t"
  using committer_step_frame [OF assms] committer_step_flag_store [OF assms] assms(2)
    load_inv_mono [of s t] snap_inv_mono [of s t]
  by (simp add: clock_inv_def)

lemma clock_step_snaps: "clock_step s t \<Longrightarrow> snaps s \<subseteq> snaps t"
  by (auto simp: clock_step_def hand_out_def elim!: reader_step.cases committer_step.cases)

lemma clock_step_inv: "clock_step s t \<Longrightarrow> clock_inv s \<Longrightarrow> clock_inv t"
  by (auto simp: clock_step_def intro: reader_step_inv committer_step_inv)

lemma clock_run_inv: "clock_run s t \<Longrightarrow> clock_inv s \<Longrightarrow> clock_inv t"
  by (induction rule: clock_run.induct) (auto intro: clock_step_inv)

text \<open>
  C4: snapshot isolation of the lock-free read path. Take any interleaving of readers and
  committers and any snapshot it hands out. The set of commits that snapshot sees is fixed
  from then on, however the run continues: no commit with a smaller stamp appears later. It
  contains every commit that was published before the read began.
\<close>

theorem snapshot_isolation:
  assumes "clock_run (clock_new ts) s" and "(snap, saw, before) \<in> snaps s" and "clock_run s t"
  shows "visible t snap = saw \<and> before \<subseteq> saw"
proof -
  have "(snap, saw, before) \<in> snaps t"
    using assms(3,2) by (induction rule: clock_run.induct) (auto dest: clock_step_snaps)
  moreover have "clock_inv t"
    using assms(1,3) clock_inv_new by (blast intro: clock_run_inv)
  ultimately show ?thesis
    by (simp add: clock_inv_def snap_inv_def)
qed

text \<open>
  A concrete interleaving: a committer assigns stamp 20 over frontier 10 and a reader arrives
  while its writes are not in storage.
\<close>

definition demo_input :: "Timestamp \<Rightarrow> stamp_input" where
  "demo_input now = \<lparr>si_now = now, si_forward_limit = MAX_FORWARD_JUMP_US, si_self_heal = False\<rparr>"

lemma demo_stamp:
  "commit_stamp (demo_input (HybridTimestamp 20 0)) (HybridTimestamp 10 0)
     = Inr (HybridTimestamp 20 0)"
  by (simp add: commit_stamp_def demo_input_def evaluate_clock_skew_def i64_lt_def
      i64_saturating_sub_def MAX_BACKWARD_DRIFT_US_def MAX_FORWARD_JUMP_US_def
      send_with_overflow_self_heal_def send_cases MAX_VALID_TIMESTAMP_sint)

lemma clock_run_reader: "clock_run s t \<Longrightarrow> reader_step t u \<Longrightarrow> clock_run s u"
  by (auto simp: clock_step_def intro: clock_run.run_step)

lemma clock_run_committer: "clock_run s t \<Longrightarrow> committer_step t u \<Longrightarrow> clock_run s u"
  by (auto simp: clock_step_def intro: clock_run.run_step)

theorem snapshot_isolation_witness:
  "\<exists>s t. clock_run (clock_new (HybridTimestamp 10 0)) s \<and> clock_run s t
     \<and> HybridTimestamp 20 0 \<in> storage t \<and> visible t (HybridTimestamp 20 0) = {}"
proof -
  let ?c = "HybridTimestamp 20 0" and ?s0 = "clock_new (HybridTimestamp 10 0)"
  let ?s1 = "?s0\<lparr>writer := WLocked\<rparr>"
  let ?s2 = "?s1\<lparr>writer := WLoaded (frontier ?s1)\<rparr>"
  let ?s3 = "?s2\<lparr>frontier := pack ?c OR IN_FLIGHT, writer := WFlight ?c\<rparr>"
  let ?s4 = "hand_out 0 (state_timestamp (frontier ?s3)) (published ?s3) ?s3"
  let ?s5 = "?s4\<lparr>storage := insert ?c (storage ?s4), writer := WApplied ?c\<rparr>"
  have "clock_run ?s0 ?s1"
    by (rule clock_run_committer [OF run_refl]) (rule w_lock, simp add: clock_new_def)
  then have "clock_run ?s0 ?s2"
    by (rule clock_run_committer) (rule w_load, simp)
  then have "clock_run ?s0 ?s3"
    by (rule clock_run_committer)
      (rule w_advance [of _ _ "demo_input ?c"], simp_all add: clock_new_def demo_stamp)
  then have r4: "clock_run ?s0 ?s4"
    by (rule clock_run_reader) (rule r_park, simp_all add: clock_new_def)
  moreover have r5: "clock_run ?s4 ?s5"
    by (rule clock_run_committer [OF run_refl]) (rule w_apply, simp)
  moreover have snap: "(?c, {}, {}) \<in> snaps ?s4"
    by (simp add: hand_out_def visible_def clock_new_def)
  moreover have "visible ?s5 ?c = {}"
    using snapshot_isolation [OF r4 snap r5] by blast
  moreover have "?c \<in> storage ?s5" by simp
  ultimately show ?thesis by blast
qed

lemma reader_step_mono:
  "reader_step s t \<Longrightarrow> state_timestamp (frontier s) \<le> state_timestamp (frontier t)"
  by (auto elim!: reader_step.cases dest!: candidate_strict intro: less_imp_le)

lemma committer_step_mono:
  "committer_step s t \<Longrightarrow> state_timestamp (frontier s) \<le> state_timestamp (frontier t)"
  by (auto elim!: committer_step.cases dest!: commit_source.stamp_after_frontier
      intro: less_imp_le)

text \<open>
  C13: the allocation frontier never moves backwards under readers and committers, and a
  committed stamp is always strictly above the frontier it was derived from.
\<close>

theorem frontier_monotone:
  assumes "clock_run s t"
  shows "state_timestamp (frontier s) \<le> state_timestamp (frontier t)"
  using assms
  by (induction rule: clock_run.induct)
    (auto simp: clock_step_def dest!: reader_step_mono committer_step_mono intro: order_trans)

theorem frontier_monotone_witness:
  "state_timestamp (frontier (clock_new (HybridTimestamp 10 0)))
     \<le> state_timestamp (frontier ((clock_new (HybridTimestamp 10 0))\<lparr>writer := WLocked\<rparr>))"
  by (rule frontier_monotone)
    (rule clock_run_committer [OF run_refl], rule w_lock, simp add: clock_new_def)

text \<open>
  C15: \<open>raise_to\<close> breaks that guarantee. It checks the frontier and then stores unconditionally;
  the mutex it holds does not exclude readers, so a reservation installed in between is
  overwritten by an older timestamp and the frontier moves backwards past a snapshot that was
  already handed out.
\<close>

theorem raise_to_can_regress:
  "\<exists>a b c d. raise_step (clock_new (HybridTimestamp 10 0)) a \<and> raise_step a b
     \<and> clock_run b c \<and> raise_step c d
     \<and> state_timestamp (frontier d) < state_timestamp (frontier c)
     \<and> (\<exists>snap saw before. (snap, saw, before) \<in> snaps d \<and> state_timestamp (frontier d) < snap)"
proof -
  let ?s0 = "clock_new (HybridTimestamp 10 0)" and ?t = "HybridTimestamp 20 0"
  let ?n = "HybridTimestamp 30 0"
  let ?a = "?s0\<lparr>writer := WRaise ?t\<rparr>"
  let ?b = "?a\<lparr>writer := WRaiseLoaded ?t (frontier ?a)\<rparr>"
  let ?b' = "?b\<lparr>readers := (readers ?b)(0 := RLoaded (frontier ?b) (published ?b))\<rparr>"
  let ?c = "hand_out 0 ?n (published ?b) (?b'\<lparr>frontier := pack ?n OR RESERVED\<rparr>)"
  let ?d = "?c\<lparr>frontier := pack ?t, writer := WRaiseStored ?t\<rparr>"
  have "raise_step ?s0 ?a" by (rule a_lock) (simp add: clock_new_def)
  moreover have "raise_step ?a ?b" by (rule a_load) simp
  moreover have "clock_run ?b ?c"
  proof (rule clock_run_reader [OF clock_run_reader [OF run_refl]])
    show "reader_step ?b ?b'"
      by (rule r_load) (simp_all add: clock_new_def)
    have "snapshot_candidate (HybridTimestamp 10 0) ?n = Inr ?n"
      by (simp add: snapshot_candidate_def hts_order)
    then show "reader_step ?b' ?c"
      by (intro r_install [of _ _ "frontier ?b" _ ?n]) (simp_all add: clock_new_def hts_order)
  qed
  moreover have "raise_step ?c ?d"
    by (rule a_store [of _ _ "frontier ?a"])
      (simp_all add: hand_out_def clock_new_def hts_order)
  moreover have "state_timestamp (frontier ?d) < state_timestamp (frontier ?c)"
    by (simp add: hand_out_def hts_order)
  moreover have "\<exists>snap saw before. (snap, saw, before) \<in> snaps ?d \<and> state_timestamp (frontier ?d) < snap"
    by (rule exI [of _ ?n]) (auto simp: hand_out_def hts_order)
  ultimately show ?thesis by blast
qed

end
