(* ===== verification/Interning.thy ===== *)
theory Interning
  imports Errors
begin

text \<open>
  The string interner: \<open>src/core/interning.rs\<close>, and the translation of persisted ids to live ids
  in \<open>src/storage/index_persistence/strings.rs\<close>. A Rust \<open>str\<close> is its UTF-8 bytes. The first part is
  the interner as one thread sees it; the second part interleaves the atomic accesses of the slow
  path of \<open>intern\<close> over several threads.
\<close>

section \<open>The interner\<close>

type_synonym rstr = bytes

datatype InternedString = InternedString (as_u32: u32)

instantiation InternedString :: linorder
begin

definition less_eq_InternedString :: "InternedString \<Rightarrow> InternedString \<Rightarrow> bool" where
  "less_eq_InternedString a b \<longleftrightarrow> as_u32 a \<le> as_u32 b"

definition less_InternedString :: "InternedString \<Rightarrow> InternedString \<Rightarrow> bool" where
  "less_InternedString a b \<longleftrightarrow> as_u32 a < as_u32 b"

instance
  by standard (auto simp: less_eq_InternedString_def less_InternedString_def
      intro: InternedString.expand)

end

record StringInterner =
  string_to_id :: "(rstr, InternedString) hashmap"
  id_to_string :: "(InternedString, rstr) hashmap"
  next_id :: u32
  max_capacity :: nat

definition DEFAULT_MAX_INTERNED_STRINGS :: nat where
  "DEFAULT_MAX_INTERNED_STRINGS = 10000000"

definition with_max_capacity :: "nat \<Rightarrow> StringInterner" where
  "with_max_capacity cap =
     \<lparr>string_to_id = [], id_to_string = [], next_id = 0, max_capacity = cap\<rparr>"

definition interner_new :: StringInterner where
  "interner_new = with_max_capacity DEFAULT_MAX_INTERNED_STRINGS"

definition set_max_capacity :: "nat \<Rightarrow> StringInterner \<Rightarrow> StringInterner" where
  "set_max_capacity cap s = s\<lparr>max_capacity := cap\<rparr>"

definition get_id :: "StringInterner \<Rightarrow> rstr \<Rightarrow> InternedString option" where
  "get_id s str = hm_get (string_to_id s) str"

definition interner_contains :: "StringInterner \<Rightarrow> rstr \<Rightarrow> bool" where
  "interner_contains s str \<longleftrightarrow> hm_get (string_to_id s) str \<noteq> None"

definition interner_len :: "StringInterner \<Rightarrow> nat" where
  "interner_len s = length (string_to_id s)"

definition resolve_with :: "StringInterner \<Rightarrow> InternedString \<Rightarrow> (rstr \<Rightarrow> 'r) \<Rightarrow> 'r option" where
  "resolve_with s i f = map_option f (hm_get (id_to_string s) i)"

definition resolve :: "StringInterner \<Rightarrow> InternedString \<Rightarrow> rstr option" where
  "resolve s i = hm_get (id_to_string s) i"

definition intern :: "rstr \<Rightarrow> StringInterner \<Rightarrow> (Error + InternedString) \<times> StringInterner" where
  "intern str s =
     (case get_id s str of
        Some i \<Rightarrow> (Inr i, s)
      | None \<Rightarrow>
          (let id_value = next_id s; s1 = s\<lparr>next_id := next_id s + 1\<rparr> in
           if max_capacity s1 \<le> unat id_value
           then (Inl (StorageErr (CapacityExceeded ''string interner'' (unat id_value) (max_capacity s1))),
                 s1\<lparr>next_id := next_id s1 - 1\<rparr>)
           else (Inr (InternedString id_value),
                 s1\<lparr>id_to_string := hm_insert (InternedString id_value) str (id_to_string s1),
                    string_to_id := hm_insert str (InternedString id_value) (string_to_id s1)\<rparr>)))"

definition intern_unchecked :: "rstr \<Rightarrow> StringInterner \<Rightarrow> InternedString \<times> StringInterner" where
  "intern_unchecked str s =
     (case get_id s str of
        Some i \<Rightarrow> (i, s)
      | None \<Rightarrow>
          (let i = InternedString (next_id s) in
           (i, s\<lparr>next_id := next_id s + 1,
                 id_to_string := hm_insert i str (id_to_string s),
                 string_to_id := hm_insert str i (string_to_id s)\<rparr>)))"

definition interner_clear :: "StringInterner \<Rightarrow> StringInterner" where
  "interner_clear s = s\<lparr>string_to_id := [], id_to_string := [], next_id := 0\<rparr>"

text \<open>
  \<open>get_all_strings\<close> without a concurrent writer: the slot table is indexed by id and covers every
  id below \<open>next_id\<close> and every id in the map. A hole below \<open>next_id\<close> that nobody fills ends the
  spin loop with a panic, the value None.
\<close>

definition get_all_strings :: "StringInterner \<Rightarrow> rstr list option" where
  "get_all_strings s =
     (let n = fold max (map (\<lambda>e. Suc (unat (as_u32 (fst e)))) (id_to_string s)) (unat (next_id s));
          slots = map (\<lambda>i. hm_get (id_to_string s) (InternedString (of_nat i))) [0..<n]
      in if list_ex (\<lambda>v. v = None) (take (unat (next_id s)) slots) then None
         else Some (List.map_filter (\<lambda>v. v) slots))"

text \<open>Re-admission of the saved strings, and the translation it yields.\<close>

type_synonym InternerRemap = "InternedString list option"

definition remap_resolve :: "InternerRemap \<Rightarrow> u32 \<Rightarrow> InternedString option" where
  "remap_resolve r file_id =
     (case r of
        None \<Rightarrow> Some (InternedString file_id)
      | Some positions \<Rightarrow>
          (if unat file_id < length positions then Some (positions ! unat file_id) else None))"

definition UNMAPPABLE_FILE_ID :: u32 where
  "UNMAPPABLE_FILE_ID = u32_MAX"

definition remap_id :: "InternerRemap \<Rightarrow> u32 \<Rightarrow> u32" where
  "remap_id r file_id =
     (case remap_resolve r file_id of Some i \<Rightarrow> as_u32 i | None \<Rightarrow> UNMAPPABLE_FILE_ID)"

fun restore_positions :: "rstr list \<Rightarrow> StringInterner \<Rightarrow> InternedString list \<times> StringInterner" where
  "restore_positions [] s = ([], s)"
| "restore_positions (str # strs) s =
     (let (i, s1) = intern_unchecked str s; (is, s2) = restore_positions strs s1 in (i # is, s2))"

definition restore_string_interner ::
  "rstr list \<Rightarrow> StringInterner \<Rightarrow> InternerRemap \<times> StringInterner" where
  "restore_string_interner strs s =
     (let (positions, s1) = restore_positions strs s in (Some positions, s1))"

section \<open>Correctness without interference\<close>

text \<open>
  The two maps are inverse to each other and the ids in use are exactly those below \<open>next_id\<close>.
\<close>

definition interner_inv :: "StringInterner \<Rightarrow> bool" where
  "interner_inv s \<longleftrightarrow>
     hm_wf (string_to_id s) \<and> hm_wf (id_to_string s) \<and>
     (\<forall>str i. get_id s str = Some i \<longleftrightarrow> resolve s i = Some str) \<and>
     (\<forall>i. resolve s i \<noteq> None \<longleftrightarrow> as_u32 i < next_id s)"

text \<open>Adding strings one after the other with a given operation.\<close>

fun intern_all :: "(rstr \<Rightarrow> 's \<Rightarrow> ('e + InternedString) \<times> 's) \<Rightarrow> rstr list \<Rightarrow> 's \<Rightarrow>
    ('e + InternedString list) \<times> 's" where
  "intern_all add [] s = (Inr [], s)"
| "intern_all add (str # strs) s =
     (case add str s of
        (Inl e, s1) \<Rightarrow> (Inl e, s1)
      | (Inr i, s1) \<Rightarrow>
          (case intern_all add strs s1 of
             (Inl e, s2) \<Rightarrow> (Inl e, s2)
           | (Inr is, s2) \<Rightarrow> (Inr (i # is), s2)))"

text \<open>
  What the users of the interner rely on: an id that was handed out names its string from then
  on. \<open>room n s\<close> says that \<open>n\<close> further strings fit the id space.
\<close>

locale string_pool =
  fixes inv :: "'s \<Rightarrow> bool"
    and add :: "rstr \<Rightarrow> 's \<Rightarrow> ('e + InternedString) \<times> 's"
    and look :: "'s \<Rightarrow> InternedString \<Rightarrow> rstr option"
    and room :: "nat \<Rightarrow> 's \<Rightarrow> bool"
  assumes add_inv: "inv s \<Longrightarrow> room (Suc n) s \<Longrightarrow> inv (snd (add str s))"
    and add_room: "inv s \<Longrightarrow> room (Suc n) s \<Longrightarrow> room n (snd (add str s))"
    and add_look: "inv s \<Longrightarrow> room (Suc n) s \<Longrightarrow> add str s = (Inr i, s') \<Longrightarrow> look s' i = Some str"
    and add_keeps: "inv s \<Longrightarrow> room (Suc n) s \<Longrightarrow> look s i = Some t \<Longrightarrow>
      look (snd (add str s)) i = Some t"
begin

lemma add_all:
  assumes "inv s" "room (length strs) s" "intern_all add strs s = (Inr is, s')"
  shows "inv s' \<and> list_all2 (\<lambda>i str. look s' i = Some str) is strs \<and>
    (\<forall>i t. look s i = Some t \<longrightarrow> look s' i = Some t)"
  using assms
proof (induction strs arbitrary: s "is")
  case Nil
  then show ?case by simp
next
  case (Cons str strs)
  obtain r s1 where a: "add str s = (r, s1)"
    by fastforce
  with Cons.prems obtain i js where i: "r = Inr i" and js: "intern_all add strs s1 = (Inr js, s')"
    and is_eq: "is = i # js"
    by (auto split: sum.splits prod.splits)
  have room: "room (Suc (length strs)) s"
    using Cons.prems by simp
  have s1: "inv s1" "room (length strs) s1"
    using add_inv [OF Cons.prems(1) room, of str] add_room [OF Cons.prems(1) room, of str] a by auto
  note ih = Cons.IH [OF s1 js]
  have "look s1 i = Some str"
    using add_look [OF Cons.prems(1) room] a i by auto
  moreover have "look s j = Some t \<Longrightarrow> look s1 j = Some t" for j t
    using add_keeps [OF Cons.prems(1) room, of j t str] a by auto
  ultimately show ?case
    using ih is_eq by auto
qed

end

lemma u32_succ_word: "unat (w :: u32) + 1 < 2 ^ 32 \<Longrightarrow> unat (w + 1) = unat w + 1"
  by (simp add: unat_word_ariths)

lemma interner_fresh:
  assumes "interner_inv s" "get_id s str = None" "unat (next_id s) + 1 < 2 ^ 32"
  defines "i \<equiv> InternedString (next_id s)"
  shows "interner_inv (s\<lparr>next_id := next_id s + 1,
           id_to_string := hm_insert i str (id_to_string s),
           string_to_id := hm_insert str i (string_to_id s)\<rparr>)" (is "interner_inv ?t")
proof -
  have lt: "j < next_id s + 1 \<longleftrightarrow> j < next_id s \<or> j = next_id s" for j
    using u32_succ_word [OF assms(3)] by (auto simp: word_less_nat_alt word_unat_eq_iff)
  have fresh: "resolve s i = None"
    using assms(1) unfolding interner_inv_def i_def
    by (metis InternedString.sel option.distinct(1) order_less_irrefl not_None_eq)
  have maps: "get_id ?t t = (if t = str then Some i else get_id s t)"
    "resolve ?t j = (if j = i then Some str else resolve s j)" for t j
    by (simp_all add: get_id_def resolve_def)
  have "get_id ?t t = Some j \<longleftrightarrow> resolve ?t j = Some t" for t j
  proof (cases "t = str")
    case True
    then have "resolve s j \<noteq> Some t"
      using assms(1,2) by (metis interner_inv_def option.distinct(1))
    with True show ?thesis
      by (auto simp: maps)
  next
    case False
    then show ?thesis
      using assms(1) fresh by (auto simp: maps interner_inv_def)
  qed
  moreover have "resolve ?t j \<noteq> None \<longleftrightarrow> as_u32 j < next_id ?t" for j
  proof (cases "j = i")
    case True
    then have "resolve ?t j = Some str"
      by (simp only: maps simp_thms if_True)
    moreover have "as_u32 j < next_id ?t"
      using True lt by (simp add: i_def)
    ultimately show ?thesis
      by simp
  next
    case False
    then have "as_u32 j \<noteq> next_id s"
      by (cases j) (auto simp: i_def)
    with False show ?thesis
      using assms(1) lt by (simp add: maps interner_inv_def)
  qed
  ultimately show ?thesis
    using assms(1) unfolding interner_inv_def by simp
qed

lemma intern_cases:
  assumes "intern str s = (r, s')"
  obtains (known) i where "get_id s str = Some i" "r = Inr i" "s' = s"
  | (full) "get_id s str = None" "max_capacity s \<le> unat (next_id s)" "s' = s"
      "r = Inl (StorageErr (CapacityExceeded ''string interner'' (unat (next_id s)) (max_capacity s)))"
  | (fresh) "get_id s str = None" "unat (next_id s) < max_capacity s"
      "r = Inr (InternedString (next_id s))"
      "s' = s\<lparr>next_id := next_id s + 1,
        id_to_string := hm_insert (InternedString (next_id s)) str (id_to_string s),
        string_to_id := hm_insert str (InternedString (next_id s)) (string_to_id s)\<rparr>"
  using assms by (auto simp: intern_def Let_def split: option.splits if_splits)

lemma intern_unchecked_cases:
  assumes "intern_unchecked str s = (i, s')"
  obtains (known) "get_id s str = Some i" "s' = s"
  | (fresh) "get_id s str = None" "i = InternedString (next_id s)"
      "s' = s\<lparr>next_id := next_id s + 1,
        id_to_string := hm_insert (InternedString (next_id s)) str (id_to_string s),
        string_to_id := hm_insert str (InternedString (next_id s)) (string_to_id s)\<rparr>"
  using assms by (auto simp: intern_unchecked_def Let_def split: option.splits)

lemma get_id_resolve: "interner_inv s \<Longrightarrow> get_id s str = Some i \<longleftrightarrow> resolve s i = Some str"
  by (simp add: interner_inv_def)

lemma resolve_next_id: "interner_inv s \<Longrightarrow> resolve s (InternedString (next_id s)) = None"
  unfolding interner_inv_def by (metis InternedString.sel order_less_irrefl)

lemma resolve_fresh:
  "resolve (s\<lparr>next_id := n, id_to_string := hm_insert j str (id_to_string s), string_to_id := m\<rparr>) i
     = (if i = j then Some str else resolve s i)"
  by (simp add: resolve_def)

interpretation capped: string_pool interner_inv intern resolve "\<lambda>n s. max_capacity s < 2 ^ 32"
proof
  fix s :: StringInterner and n :: nat and str i s' t
  assume inv: "interner_inv s" and cap: "max_capacity s < 2 ^ 32"
  obtain r u where ru: "intern str s = (r, u)"
    by fastforce
  show "interner_inv (snd (intern str s))"
    using ru
  proof (cases rule: intern_cases)
    case fresh
    then show ?thesis
      using interner_fresh [OF inv fresh(1)] cap ru by simp
  qed (simp_all add: inv ru)
  show "max_capacity (snd (intern str s)) < 2 ^ 32"
    using ru by (cases rule: intern_cases) (use cap in \<open>simp_all add: ru\<close>)
  show "resolve s' i = Some str" if "intern str s = (Inr i, s')"
    using that by (cases rule: intern_cases) (simp_all add: get_id_resolve [OF inv] resolve_fresh)
  show "resolve (snd (intern str s)) i = Some t" if "resolve s i = Some t"
    using ru
  proof (cases rule: intern_cases)
    case fresh
    then have "i \<noteq> InternedString (next_id s)"
      using that resolve_next_id [OF inv] by auto
    with fresh ru that show ?thesis
      by (simp add: resolve_fresh)
  qed (simp_all add: that ru)
qed

definition readmit_op :: "rstr \<Rightarrow> StringInterner \<Rightarrow> (Error + InternedString) \<times> StringInterner" where
  "readmit_op str s = (let (i, s') = intern_unchecked str s in (Inr i, s'))"

interpretation readmit: string_pool interner_inv readmit_op resolve
  "\<lambda>n s. unat (next_id s) + n < 2 ^ 32"
proof
  fix s :: StringInterner and n :: nat and str i s' t
  assume inv: "interner_inv s" and room: "unat (next_id s) + Suc n < 2 ^ 32"
  obtain j u where ru: "intern_unchecked str s = (j, u)"
    by fastforce
  then have op: "readmit_op str s = (Inr j, u)"
    by (simp add: readmit_op_def)
  show "interner_inv (snd (readmit_op str s))"
    using ru
  proof (cases rule: intern_unchecked_cases)
    case fresh
    then show ?thesis
      using interner_fresh [OF inv fresh(1)] room op by simp
  qed (simp add: inv op)
  show "unat (next_id (snd (readmit_op str s))) + n < 2 ^ 32"
    using ru
  proof (cases rule: intern_unchecked_cases)
    case fresh
    then show ?thesis
      using room u32_succ_word [of "next_id s"] op by simp
  qed (use room op in simp)
  show "resolve s' i = Some str" if "readmit_op str s = (Inr i, s')"
  proof -
    have "intern_unchecked str s = (i, s')"
      using that op ru by simp
    then show ?thesis
      by (cases rule: intern_unchecked_cases) (simp_all add: get_id_resolve [OF inv] resolve_fresh)
  qed
  show "resolve (snd (readmit_op str s)) i = Some t" if "resolve s i = Some t"
    using ru
  proof (cases rule: intern_unchecked_cases)
    case fresh
    then have "i \<noteq> InternedString (next_id s)"
      using that resolve_next_id [OF inv] by auto
    with fresh op that show ?thesis
      by (simp add: resolve_fresh)
  qed (simp add: that op)
qed

lemma restore_positions_all:
  "intern_all readmit_op strs s = (let (is, s') = restore_positions strs s in (Inr is, s'))"
  by (induction strs arbitrary: s) (auto simp: readmit_op_def Let_def split: prod.splits)

lemma fold_max_bounded: "list_all (\<lambda>x. x \<le> a) xs \<Longrightarrow> fold max xs (a :: nat) = a"
  by (induction xs) auto

lemma map_filter_Some: "List.map_filter (\<lambda>v. v) (map Some xs) = xs"
  by (induction xs) (simp_all add: List.map_filter_def)

lemma get_all_strings_positions:
  assumes "interner_inv s"
  obtains strs where "get_all_strings s = Some strs" "length strs = unat (next_id s)"
    "\<And>i. i < unat (next_id s) \<Longrightarrow> resolve s (InternedString (of_nat i)) = Some (strs ! i)"
proof -
  let ?n = "unat (next_id s)"
  have below: "resolve s i \<noteq> None \<longleftrightarrow> as_u32 i < next_id s" for i
    using assms unfolding interner_inv_def by blast
  have n: "fold max (map (\<lambda>e. Suc (unat (as_u32 (fst e)))) (id_to_string s)) ?n = ?n"
  proof (rule fold_max_bounded, unfold list_all_iff, rule ballI)
    fix x assume "x \<in> set (map (\<lambda>e. Suc (unat (as_u32 (fst e)))) (id_to_string s))"
    then obtain i str where "(i, str) \<in> set (id_to_string s)" "x = Suc (unat (as_u32 i))"
      by auto
    moreover from this have "resolve s i \<noteq> None"
      by (auto simp: resolve_def map_of_eq_None_iff image_iff intro: bexI [of _ "(i, str)"])
    ultimately show "x \<le> ?n"
      using below by (simp add: word_less_nat_alt)
  qed
  define strs where "strs = map (\<lambda>i. the (resolve s (InternedString (of_nat i)))) [0..<?n]"
  have some: "resolve s (InternedString (of_nat i)) = Some (strs ! i)" if "i < ?n" for i
  proof -
    have "(of_nat i :: u32) < next_id s"
      using that unat64_less unat32_less [of "next_id s"] by (simp add: word_less_nat_alt unat_of_nat)
    then have "resolve s (InternedString (of_nat i)) \<noteq> None"
      using below by simp
    with that show ?thesis
      by (auto simp: strs_def)
  qed
  have slots: "map (\<lambda>i. hm_get (id_to_string s) (InternedString (of_nat i))) [0..<?n] = map Some strs"
    using some by (intro nth_equalityI) (auto simp: resolve_def strs_def)
  have no_hole: "\<not> list_ex (\<lambda>v. v = None) (take m (map Some strs))" for m
    by (simp add: list_ex_iff take_map)
  have "get_all_strings s = Some strs"
    unfolding get_all_strings_def Let_def n slots map_filter_Some using no_hole by (simp only: if_False)
  moreover have "length strs = ?n"
    by (simp add: strs_def)
  ultimately show ?thesis
    using that [of strs] some by blast
qed

text \<open>
  C23: the persisted string table translates every saved id to a live id of the same string,
  whatever the live interner held before and in whatever order, and no id handed out earlier
  changes its meaning. This is what keeps labels and property keys right when an index is loaded
  after the log was replayed.
\<close>

theorem restore_translates_saved_ids:
  assumes saved: "interner_inv saved" "get_all_strings saved = Some strs"
    and live: "interner_inv live" "unat (next_id live) + length strs < 2 ^ 32"
    and restored: "restore_string_interner strs live = (remap, live')"
  shows "interner_inv live' \<and>
    (\<forall>i str. resolve saved i = Some str \<longrightarrow>
       (\<exists>j. remap_resolve remap (as_u32 i) = Some j \<and> resolve live' j = Some str)) \<and>
    (\<forall>i str. resolve live i = Some str \<longrightarrow> resolve live' i = Some str)"
proof -
  obtain "is" where "is": "restore_positions strs live = (is, live')" "remap = Some is"
    using restored by (auto simp: restore_string_interner_def split: prod.splits)
  then have "intern_all readmit_op strs live = (Inr is, live')"
    by (simp add: restore_positions_all)
  note all = readmit.add_all [OF live(1) live(2) this]
  have "\<exists>j. remap_resolve remap (as_u32 i) = Some j \<and> resolve live' j = Some str"
    if "resolve saved i = Some str" for i str
  proof -
    let ?k = "unat (as_u32 i)"
    have k: "?k < unat (next_id saved)"
      using saved(1) that by (auto simp: interner_inv_def word_less_nat_alt)
    obtain strs' where "get_all_strings saved = Some strs'" "length strs' = unat (next_id saved)"
      "resolve saved (InternedString (of_nat ?k)) = Some (strs' ! ?k)"
      using get_all_strings_positions [OF saved(1)] k by metis
    then have "?k < length strs" "strs ! ?k = str"
      using saved(2) that k by auto
    with all "is" show ?thesis
      by (auto simp: remap_resolve_def list_all2_conv_all_nth)
  qed
  with all show ?thesis
    by blast
qed

lemma interner_inv_empty: "interner_inv (with_max_capacity cap)"
  by (simp add: interner_inv_def with_max_capacity_def get_id_def resolve_def)

lemma interner_inv_intern:
  "interner_inv s \<Longrightarrow> max_capacity s < 2 ^ 32 \<Longrightarrow> interner_inv (snd (intern str s))"
  by (rule capped.add_inv)

definition demo_saved :: StringInterner where
  "demo_saved = snd (intern [2] (snd (intern [1] (with_max_capacity 10))))"

definition demo_live :: StringInterner where
  "demo_live = snd (intern [2] (with_max_capacity 10))"

theorem restore_translates_saved_ids_witness:
  "\<exists>j. remap_resolve (fst (restore_string_interner [[1], [2]] demo_live)) 1 = Some j \<and>
       resolve (snd (restore_string_interner [[1], [2]] demo_live)) j = Some [2]"
proof -
  have saved: "interner_inv demo_saved" and live: "interner_inv demo_live"
    unfolding demo_saved_def demo_live_def
    by (intro interner_inv_intern interner_inv_empty; simp add: intern_def with_max_capacity_def get_id_def Let_def)+
  have "get_all_strings demo_saved = Some [[1], [2]]"
    "unat (next_id demo_live) + length [[1], [2 :: u8]] < 2 ^ 32"
    "resolve demo_saved (InternedString 1) = Some [2]"
    by (simp_all add: demo_saved_def demo_live_def intern_def with_max_capacity_def get_id_def
        get_all_strings_def resolve_def Let_def upt_rec List.map_filter_def)
  then show ?thesis
    using restore_translates_saved_ids [OF saved _ live, of "[[1], [2]]"
      "fst (restore_string_interner [[1], [2]] demo_live)"
      "snd (restore_string_interner [[1], [2]] demo_live)"]
    by fastforce
qed

section \<open>Concurrent interning\<close>

text \<open>
  The slow path of \<open>intern\<close> over several threads. \<open>DashMap::entry\<close> keeps the entry of one string
  locked while the closure runs, so two threads never run it for the same string; everything else
  interleaves. A thread reserves an id (\<open>fetch_add\<close>), compares it with the capacity it loads, and
  either rolls the reservation back (\<open>fetch_sub\<close>) or stores the reverse mapping and then the
  forward mapping. \<open>readmit_step\<close> is the reservation of \<open>intern_unchecked\<close>, which skips the
  comparison, and \<open>raise_cap_step\<close> is \<open>set_max_capacity\<close> by a later open.
\<close>

datatype intern_phase =
    IIdle
  | IReserved rstr u32
  | IRejected rstr
  | IAdmitted rstr u32
  | IStored rstr u32

record intern_world =
  pool :: StringInterner
  thread :: "nat \<Rightarrow> intern_phase"
  workers :: nat

fun phase_str :: "intern_phase \<Rightarrow> rstr option" where
  "phase_str IIdle = None"
| "phase_str (IReserved str v) = Some str"
| "phase_str (IRejected str) = Some str"
| "phase_str (IAdmitted str v) = Some str"
| "phase_str (IStored str v) = Some str"

definition entry_locked :: "intern_world \<Rightarrow> rstr \<Rightarrow> bool" where
  "entry_locked w str \<longleftrightarrow> (\<exists>t < workers w. phase_str (thread w t) = Some str)"

abbreviation set_thread :: "nat \<Rightarrow> intern_phase \<Rightarrow> intern_world \<Rightarrow> intern_world" where
  "set_thread t p w \<equiv> w\<lparr>thread := (thread w)(t := p)\<rparr>"

abbreviation set_pool :: "StringInterner \<Rightarrow> intern_world \<Rightarrow> intern_world" where
  "set_pool s w \<equiv> w\<lparr>pool := s\<rparr>"

inductive intern_step :: "intern_world \<Rightarrow> intern_world \<Rightarrow> bool" where
  reserve: "t < workers w \<Longrightarrow> thread w t = IIdle \<Longrightarrow> get_id (pool w) str = None \<Longrightarrow>
    \<not> entry_locked w str \<Longrightarrow>
    intern_step w (set_thread t (IReserved str (next_id (pool w)))
      (set_pool ((pool w)\<lparr>next_id := next_id (pool w) + 1\<rparr>) w))"
| reject: "t < workers w \<Longrightarrow> thread w t = IReserved str v \<Longrightarrow> max_capacity (pool w) \<le> unat v \<Longrightarrow>
    intern_step w (set_thread t (IRejected str) w)"
| rollback: "t < workers w \<Longrightarrow> thread w t = IRejected str \<Longrightarrow>
    intern_step w (set_thread t IIdle
      (set_pool ((pool w)\<lparr>next_id := next_id (pool w) - 1\<rparr>) w))"
| admit: "t < workers w \<Longrightarrow> thread w t = IReserved str v \<Longrightarrow> unat v < max_capacity (pool w) \<Longrightarrow>
    intern_step w (set_thread t (IAdmitted str v) w)"
| store: "t < workers w \<Longrightarrow> thread w t = IAdmitted str v \<Longrightarrow>
    intern_step w (set_thread t (IStored str v) (set_pool ((pool w)
      \<lparr>id_to_string := hm_insert (InternedString v) str (id_to_string (pool w))\<rparr>) w))"
| publish: "t < workers w \<Longrightarrow> thread w t = IStored str v \<Longrightarrow>
    intern_step w (set_thread t IIdle (set_pool ((pool w)
      \<lparr>string_to_id := hm_insert str (InternedString v) (string_to_id (pool w))\<rparr>) w))"

inductive readmit_step :: "intern_world \<Rightarrow> intern_world \<Rightarrow> bool" where
  readmit_reserve: "t < workers w \<Longrightarrow> thread w t = IIdle \<Longrightarrow> get_id (pool w) str = None \<Longrightarrow>
    \<not> entry_locked w str \<Longrightarrow>
    readmit_step w (set_thread t (IAdmitted str (next_id (pool w)))
      (set_pool ((pool w)\<lparr>next_id := next_id (pool w) + 1\<rparr>) w))"

inductive raise_cap_step :: "intern_world \<Rightarrow> intern_world \<Rightarrow> bool" where
  raise_cap: "max_capacity (pool w) \<le> cap \<Longrightarrow>
    raise_cap_step w (set_pool (set_max_capacity cap (pool w)) w)"

text \<open>
  The id of a thread that will not be rolled back counts as assigned from its reservation on.
  Reservations at or above the capacity are surplus: they sit on top of the assigned ids and are
  given back.
\<close>

fun over_phase :: "nat \<Rightarrow> intern_phase \<Rightarrow> bool" where
  "over_phase cap (IReserved str v) \<longleftrightarrow> cap \<le> unat v"
| "over_phase cap (IRejected str) \<longleftrightarrow> True"
| "over_phase cap _ \<longleftrightarrow> False"

definition surplus :: "intern_world \<Rightarrow> nat set" where
  "surplus w = {t. t < workers w \<and> over_phase (max_capacity (pool w)) (thread w t)}"

fun claims :: "nat \<Rightarrow> intern_phase \<Rightarrow> u32 \<Rightarrow> rstr \<Rightarrow> bool" where
  "claims cap (IReserved str v) v' str' \<longleftrightarrow> unat v < cap \<and> v = v' \<and> str = str'"
| "claims cap (IAdmitted str v) v' str' \<longleftrightarrow> v = v' \<and> str = str'"
| "claims cap _ v' str' \<longleftrightarrow> False"

definition assigned :: "intern_world \<Rightarrow> u32 \<Rightarrow> rstr \<Rightarrow> bool" where
  "assigned w v str \<longleftrightarrow> resolve (pool w) (InternedString v) = Some str \<or>
     (\<exists>t < workers w. claims (max_capacity (pool w)) (thread w t) v str)"

definition id_inv :: "nat \<Rightarrow> intern_world \<Rightarrow> bool" where
  "id_inv base w \<longleftrightarrow>
     unat (next_id (pool w)) = base + card (surplus w) \<and>
     (surplus w \<noteq> {} \<longrightarrow> max_capacity (pool w) \<le> base) \<and>
     (\<forall>v. (\<exists>str. assigned w v str) \<longleftrightarrow> unat v < base) \<and>
     (\<forall>v a b. assigned w v a \<longrightarrow> assigned w v b \<longrightarrow> a = b) \<and>
     (\<forall>v v' a. assigned w v a \<longrightarrow> assigned w v' a \<longrightarrow> v = v')"

definition map_inv :: "intern_world \<Rightarrow> bool" where
  "map_inv w \<longleftrightarrow>
     hm_wf (string_to_id (pool w)) \<and> hm_wf (id_to_string (pool w)) \<and>
     (\<forall>a i. get_id (pool w) a = Some i \<longrightarrow> resolve (pool w) i = Some a) \<and>
     (\<forall>a i. resolve (pool w) i = Some a \<longrightarrow> get_id (pool w) a = Some i \<or>
        (\<exists>t < workers w. thread w t = IStored a (as_u32 i)))"

definition thread_inv :: "intern_world \<Rightarrow> bool" where
  "thread_inv w \<longleftrightarrow>
     (\<forall>t < workers w. \<forall>a. phase_str (thread w t) = Some a \<longrightarrow> get_id (pool w) a = None) \<and>
     (\<forall>t < workers w. \<forall>u < workers w. \<forall>a. phase_str (thread w t) = Some a \<longrightarrow>
        phase_str (thread w u) = Some a \<longrightarrow> t = u) \<and>
     (\<forall>t < workers w. \<forall>a v. thread w t = IStored a v \<longrightarrow>
        resolve (pool w) (InternedString v) = Some a)"

definition intern_inv :: "nat \<Rightarrow> intern_world \<Rightarrow> bool" where
  "intern_inv base w \<longleftrightarrow> id_inv base w \<and> map_inv w \<and> thread_inv w"

lemma assigned_at:
  "t < workers w \<Longrightarrow> assigned w v a \<longleftrightarrow> resolve (pool w) (InternedString v) = Some a \<or>
     claims (max_capacity (pool w)) (thread w t) v a \<or>
     (\<exists>u < workers w. u \<noteq> t \<and> claims (max_capacity (pool w)) (thread w u) v a)"
  unfolding assigned_def by metis

lemma surplus_set_thread:
  "t < workers w \<Longrightarrow> max_capacity s = max_capacity (pool w) \<Longrightarrow>
     surplus (set_thread t p (set_pool s w)) =
       (if over_phase (max_capacity (pool w)) p then insert t (surplus w) else surplus w - {t})"
  by (auto simp: surplus_def)

lemma finite_surplus [simp]: "finite (surplus w)"
  by (simp add: surplus_def)

lemma card_surplus_le: "card (surplus w) \<le> workers w"
proof -
  have "surplus w \<subseteq> {..< workers w}"
    by (auto simp: surplus_def)
  then show ?thesis
    using card_mono [of "{..< workers w}" "surplus w"] by simp
qed

lemma mem_surplus: "t \<in> surplus w \<longleftrightarrow> t < workers w \<and> over_phase (max_capacity (pool w)) (thread w t)"
  by (simp add: surplus_def)

lemma map_inv_resolve:
  "map_inv w \<Longrightarrow> resolve (pool w) i = Some a \<Longrightarrow>
     get_id (pool w) a = Some i \<or> (\<exists>t < workers w. thread w t = IStored a (as_u32 i))"
  unfolding map_inv_def by blast

lemma map_inv_get: "map_inv w \<Longrightarrow> get_id (pool w) a = Some i \<Longrightarrow> resolve (pool w) i = Some a"
  unfolding map_inv_def by blast

lemma thread_inv_get:
  "thread_inv w \<Longrightarrow> t < workers w \<Longrightarrow> phase_str (thread w t) = Some a \<Longrightarrow> get_id (pool w) a = None"
  unfolding thread_inv_def by blast

lemma thread_inv_unique:
  "thread_inv w \<Longrightarrow> t < workers w \<Longrightarrow> u < workers w \<Longrightarrow> phase_str (thread w t) = Some a \<Longrightarrow>
     phase_str (thread w u) = Some a \<Longrightarrow> t = u"
  unfolding thread_inv_def by blast

lemma thread_inv_stored:
  "thread_inv w \<Longrightarrow> t < workers w \<Longrightarrow> thread w t = IStored a v \<Longrightarrow>
     resolve (pool w) (InternedString v) = Some a"
  unfolding thread_inv_def by blast

lemma id_inv_unique: "id_inv base w \<Longrightarrow> assigned w v a \<Longrightarrow> assigned w v b \<Longrightarrow> a = b"
  unfolding id_inv_def by blast

lemma id_inv_inject: "id_inv base w \<Longrightarrow> assigned w v a \<Longrightarrow> assigned w v' a \<Longrightarrow> v = v'"
  unfolding id_inv_def by blast

lemma id_inv_dense: "id_inv base w \<Longrightarrow> (\<exists>a. assigned w v a) \<longleftrightarrow> unat v < base"
  unfolding id_inv_def by blast

lemma unassigned_string:
  assumes "map_inv w" "get_id (pool w) str = None" "\<not> entry_locked w str"
  shows "\<not> assigned w v str"
proof
  assume "assigned w v str"
  then consider "resolve (pool w) (InternedString v) = Some str"
    | t where "t < workers w" "claims (max_capacity (pool w)) (thread w t) v str"
    unfolding assigned_def by blast
  then show False
  proof cases
    case 1
    then obtain t where "t < workers w" "thread w t = IStored str v"
      using map_inv_resolve [OF assms(1) 1] assms(2) by auto
    then show ?thesis
      using assms(3) by (auto simp: entry_locked_def)
  next
    case 2
    then show ?thesis
      using assms(3) by (cases "thread w t") (auto simp: entry_locked_def)
  qed
qed

text \<open>The threads keep their strings apart under every step.\<close>

lemma thread_invI:
  assumes "\<And>u a. u < workers w \<Longrightarrow> phase_str (thread w u) = Some a \<Longrightarrow> get_id (pool w) a = None"
    and "\<And>u u' a. u < workers w \<Longrightarrow> u' < workers w \<Longrightarrow> phase_str (thread w u) = Some a \<Longrightarrow>
      phase_str (thread w u') = Some a \<Longrightarrow> u = u'"
    and "\<And>u a v. u < workers w \<Longrightarrow> thread w u = IStored a v \<Longrightarrow>
      resolve (pool w) (InternedString v) = Some a"
  shows "thread_inv w"
  using assms unfolding thread_inv_def by blast

lemma stored_apart:
  assumes "id_inv base w" "thread_inv w" "t < workers w" "thread w t = IAdmitted str v"
    "u < workers w" "thread w u = IStored a v'"
  shows "v' \<noteq> v"
proof
  assume "v' = v"
  then have "assigned w v a" "assigned w v str"
    using assms thread_inv_stored [OF assms(2,5,6)] by (auto simp: assigned_def intro: exI [of _ t])
  then have "a = str"
    using id_inv_unique [OF assms(1)] by blast
  then have "u = t"
    using thread_inv_unique [OF assms(2,5,3)] assms(4,6) by simp
  with assms show False
    by simp
qed

lemma thread_inv_step:
  "intern_step w w' \<Longrightarrow> id_inv base w \<Longrightarrow> thread_inv w \<Longrightarrow> thread_inv w'"
proof (induction rule: intern_step.induct)
  case (reserve t w str)
  show ?case
    using reserve thread_inv_get [OF reserve.prems(2)] thread_inv_unique [OF reserve.prems(2)]
      thread_inv_stored [OF reserve.prems(2)]
    by (intro thread_invI) (auto simp: entry_locked_def get_id_def resolve_def split: if_splits)
next
  case (publish t w str v)
  show ?case
    using publish thread_inv_get [OF publish.prems(2)] thread_inv_unique [OF publish.prems(2)]
      thread_inv_stored [OF publish.prems(2)]
    by (intro thread_invI) (auto simp: get_id_def resolve_def split: if_splits)
next
  case (store t w str v)
  show ?case
    using store thread_inv_get [OF store.prems(2)] thread_inv_unique [OF store.prems(2)]
      thread_inv_stored [OF store.prems(2)] stored_apart [OF store.prems store.hyps]
    by (intro thread_invI) (auto simp: get_id_def resolve_def split: if_splits)
next
  case (reject t w str v)
  show ?case
    using reject thread_inv_get [OF reject.prems(2)] thread_inv_unique [OF reject.prems(2)]
      thread_inv_stored [OF reject.prems(2)]
    by (intro thread_invI) (auto split: if_splits)
next
  case (rollback t w str)
  show ?case
    using rollback thread_inv_get [OF rollback.prems(2)] thread_inv_unique [OF rollback.prems(2)]
      thread_inv_stored [OF rollback.prems(2)]
    by (intro thread_invI) (auto simp: get_id_def resolve_def split: if_splits)
next
  case (admit t w str v)
  show ?case
    using admit thread_inv_get [OF admit.prems(2)] thread_inv_unique [OF admit.prems(2)]
      thread_inv_stored [OF admit.prems(2)]
    by (intro thread_invI) (auto split: if_splits)
qed

lemma pending_unresolved:
  assumes "id_inv base w" "map_inv w" "thread_inv w" "t < workers w" "thread w t = IAdmitted str v"
  shows "resolve (pool w) (InternedString v) = None"
proof (rule ccontr)
  assume "resolve (pool w) (InternedString v) \<noteq> None"
  then obtain a where a: "resolve (pool w) (InternedString v) = Some a"
    by blast
  then have "assigned w v a" "assigned w v str"
    using assms(4,5) by (auto simp: assigned_def intro: exI [of _ t])
  then have "a = str"
    using id_inv_unique [OF assms(1)] by blast
  moreover have "get_id (pool w) str = None"
    using thread_inv_get [OF assms(3,4)] assms(5) by simp
  ultimately obtain u where "u < workers w" "thread w u = IStored str v"
    using map_inv_resolve [OF assms(2) a] by auto
  then show False
    using thread_inv_unique [OF assms(3,4), of u str] assms(5) by simp
qed

lemma map_invI:
  assumes "hm_wf (string_to_id (pool w))" "hm_wf (id_to_string (pool w))"
    and "\<And>a i. get_id (pool w) a = Some i \<Longrightarrow> resolve (pool w) i = Some a"
    and "\<And>a i. resolve (pool w) i = Some a \<Longrightarrow> get_id (pool w) a = Some i \<or>
      (\<exists>t < workers w. thread w t = IStored a (as_u32 i))"
  shows "map_inv w"
  using assms unfolding map_inv_def by blast

lemma map_inv_wf:
  "map_inv w \<Longrightarrow> hm_wf (string_to_id (pool w))" "map_inv w \<Longrightarrow> hm_wf (id_to_string (pool w))"
  by (auto simp: map_inv_def)

lemma stored_elsewhere:
  "\<exists>u < workers w. thread w u = q \<Longrightarrow> thread w t \<noteq> q \<Longrightarrow>
     \<exists>u < workers w. ((thread w)(t := p)) u = q"
  by (metis fun_upd_apply)

text \<open>A step that leaves both maps alone and moves a thread that has stored nothing.\<close>

lemma map_inv_frame:
  assumes "map_inv w" "\<And>a v. thread w t \<noteq> IStored a v"
    "string_to_id s = string_to_id (pool w)" "id_to_string s = id_to_string (pool w)"
  shows "map_inv (set_thread t p (set_pool s w))"
proof (rule map_invI)
  fix a i assume "resolve (pool (set_thread t p (set_pool s w))) i = Some a"
  then have "resolve (pool w) i = Some a"
    using assms(4) by (simp add: resolve_def)
  from map_inv_resolve [OF assms(1) this]
  show "get_id (pool (set_thread t p (set_pool s w))) a = Some i \<or>
      (\<exists>u < workers (set_thread t p (set_pool s w)).
        thread (set_thread t p (set_pool s w)) u = IStored a (as_u32 i))"
    using assms(3) by (auto simp: get_id_def simp del: fun_upd_apply intro: stored_elsewhere [OF _ assms(2)])
qed (use assms map_inv_wf [OF assms(1)] map_inv_get [OF assms(1)] in \<open>auto simp: get_id_def resolve_def\<close>)

lemma map_inv_store:
  assumes "id_inv base w" "map_inv w" "thread_inv w" "t < workers w" "thread w t = IAdmitted str v"
  shows "map_inv (set_thread t (IStored str v) (set_pool ((pool w)
    \<lparr>id_to_string := hm_insert (InternedString v) str (id_to_string (pool w))\<rparr>) w))"
    (is "map_inv ?w")
proof (rule map_invI)
  have unres: "resolve (pool w) (InternedString v) = None"
    by (rule pending_unresolved [OF assms])
  have maps: "get_id (pool ?w) = get_id (pool w)"
    "resolve (pool ?w) i = (if i = InternedString v then Some str else resolve (pool w) i)" for i
    by (auto simp: get_id_def resolve_def)
  show "resolve (pool ?w) i = Some a" if "get_id (pool ?w) a = Some i" for a i
    using map_inv_get [OF assms(2), of a i] that unres unfolding maps by auto
  show "get_id (pool ?w) a = Some i \<or> (\<exists>u < workers ?w. thread ?w u = IStored a (as_u32 i))"
    if "resolve (pool ?w) i = Some a" for a i
  proof (cases "i = InternedString v")
    case True
    then show ?thesis
      using that assms(4) unfolding maps by auto
  next
    case False
    then have "resolve (pool w) i = Some a"
      using that unfolding maps by simp
    from map_inv_resolve [OF assms(2) this] show ?thesis
      using assms(5) unfolding maps
      by (auto simp del: fun_upd_apply intro: stored_elsewhere)
  qed
qed (use map_inv_wf [OF assms(2)] in auto)

lemma map_inv_publish:
  assumes "map_inv w" "thread_inv w" "t < workers w" "thread w t = IStored str v"
  shows "map_inv (set_thread t IIdle (set_pool ((pool w)
    \<lparr>string_to_id := hm_insert str (InternedString v) (string_to_id (pool w))\<rparr>) w))"
    (is "map_inv ?w")
proof (rule map_invI)
  have maps: "resolve (pool ?w) = resolve (pool w)"
    "get_id (pool ?w) a = (if a = str then Some (InternedString v) else get_id (pool w) a)" for a
    by (auto simp: get_id_def resolve_def)
  have none: "get_id (pool w) str = None"
    using thread_inv_get [OF assms(2,3)] assms(4) by simp
  show "resolve (pool ?w) i = Some a" if "get_id (pool ?w) a = Some i" for a i
    using that map_inv_get [OF assms(1), of a i] thread_inv_stored [OF assms(2,3,4)]
    unfolding maps by (auto split: if_splits)
  show "get_id (pool ?w) a = Some i \<or> (\<exists>u < workers ?w. thread ?w u = IStored a (as_u32 i))"
    if res: "resolve (pool ?w) i = Some a" for a i
  proof (cases "a = str")
    case True
    then obtain u where u: "u < workers w" "thread w u = IStored str (as_u32 i)"
      using map_inv_resolve [OF assms(1), of i a] res none unfolding maps by auto
    then have "u = t"
      using thread_inv_unique [OF assms(2,3), of u str] assms(4) by simp
    with u assms(4) True show ?thesis
      unfolding maps by (cases i) simp
  next
    case False
    then show ?thesis
      using map_inv_resolve [OF assms(1), of i a] res assms(4) unfolding maps
      by (auto simp del: fun_upd_apply intro: stored_elsewhere)
  qed
qed (use map_inv_wf [OF assms(1)] in auto)

lemma map_inv_step:
  "intern_step w w' \<Longrightarrow> id_inv base w \<Longrightarrow> map_inv w \<Longrightarrow> thread_inv w \<Longrightarrow> map_inv w'"
proof (induction rule: intern_step.induct)
  case (reject t w str v)
  then show ?case
    using map_inv_frame [of w t "pool w"] by simp
next
  case (admit t w str v)
  then show ?case
    using map_inv_frame [of w t "pool w"] by simp
next
  case (store t w str v)
  then show ?case
    by (intro map_inv_store)
next
  case (publish t w str v)
  then show ?case
    by (intro map_inv_publish)
qed (rule map_inv_frame; simp)+

lemma id_invI:
  assumes "unat (next_id (pool w)) = base + card (surplus w)"
    and "surplus w \<noteq> {} \<Longrightarrow> max_capacity (pool w) \<le> base"
    and "\<And>v. (\<exists>a. assigned w v a) \<longleftrightarrow> unat v < base"
    and "\<And>v a b. assigned w v a \<Longrightarrow> assigned w v b \<Longrightarrow> a = b"
    and "\<And>v v' a. assigned w v a \<Longrightarrow> assigned w v' a \<Longrightarrow> v = v'"
  shows "id_inv base w"
  using assms unfolding id_inv_def by blast

lemma id_inv_count: "id_inv base w \<Longrightarrow> unat (next_id (pool w)) = base + card (surplus w)"
  by (simp add: id_inv_def)

lemma id_inv_over: "id_inv base w \<Longrightarrow> surplus w \<noteq> {} \<Longrightarrow> max_capacity (pool w) \<le> base"
  by (simp add: id_inv_def)

text \<open>A step that assigns nothing: only the surplus and the counter move together.\<close>

lemma id_inv_same_ids:
  assumes "id_inv base w" "\<And>v a. assigned w' v a \<longleftrightarrow> assigned w v a"
    and "unat (next_id (pool w')) = base + card (surplus w')"
    and "surplus w' \<noteq> {} \<Longrightarrow> max_capacity (pool w') \<le> base"
  shows "id_inv base w'"
proof (rule id_invI)
  show "(\<exists>a. assigned w' v a) \<longleftrightarrow> unat v < base" for v
    using id_inv_dense [OF assms(1)] assms(2) by simp
qed (use assms id_inv_unique [OF assms(1)] id_inv_inject [OF assms(1)] in blast)+

lemma id_inv_reserve:
  assumes inv: "id_inv base w" "map_inv w"
    and t: "t < workers w" "thread w t = IIdle"
    and str: "get_id (pool w) str = None" "\<not> entry_locked w str"
    and room: "unat (next_id (pool w)) + 1 < 2 ^ 32"
  defines "w' \<equiv> set_thread t (IReserved str (next_id (pool w)))
      (set_pool ((pool w)\<lparr>next_id := next_id (pool w) + 1\<rparr>) w)"
  shows "\<exists>base'. base \<le> base' \<and> base' \<le> max base (max_capacity (pool w)) \<and> id_inv base' w'"
proof (cases "unat (next_id (pool w)) < max_capacity (pool w)")
  case below: True
  then have empty: "surplus w = {}"
    using id_inv_over [OF inv(1)] id_inv_count [OF inv(1)] by fastforce
  then have base: "base = unat (next_id (pool w))"
    using id_inv_count [OF inv(1)] by simp
  have assigned': "assigned w' v a \<longleftrightarrow> assigned w v a \<or> (v = next_id (pool w) \<and> a = str)" for v a
    using t below assigned_at [of t w' v a] assigned_at [of t w v a]
    by (auto simp: w'_def resolve_def)
  have fresh: "\<not> assigned w (next_id (pool w)) a" for a
    using id_inv_dense [OF inv(1), of "next_id (pool w)"] base by auto
  have new: "\<not> assigned w v str" for v
    by (rule unassigned_string [OF inv(2) str])
  have "id_inv (Suc base) w'"
  proof (rule id_invI)
    show "unat (next_id (pool w')) = Suc base + card (surplus w')"
      using t below empty base u32_succ_word [OF room]
        surplus_set_thread [of t w "(pool w)\<lparr>next_id := next_id (pool w) + 1\<rparr>"]
      by (simp add: w'_def)
    show "surplus w' \<noteq> {} \<Longrightarrow> max_capacity (pool w') \<le> Suc base"
      using t below empty surplus_set_thread [of t w "(pool w)\<lparr>next_id := next_id (pool w) + 1\<rparr>"]
      by (simp add: w'_def)
    show "(\<exists>a. assigned w' v a) \<longleftrightarrow> unat v < Suc base" for v
      using id_inv_dense [OF inv(1), of v] base unfolding assigned'
      by (auto simp: less_Suc_eq word_unat_eq_iff)
    show "assigned w' v a \<Longrightarrow> assigned w' v b \<Longrightarrow> a = b" for v a b
      using id_inv_unique [OF inv(1)] fresh unfolding assigned' by blast
    show "assigned w' v a \<Longrightarrow> assigned w' v' a \<Longrightarrow> v = v'" for v v' a
      using id_inv_inject [OF inv(1)] new unfolding assigned' by blast
  qed
  moreover have "Suc base \<le> max base (max_capacity (pool w))"
    using below base by simp
  ultimately show ?thesis
    by (intro exI [of _ "Suc base"]) simp
next
  case above: False
  have notin: "t \<notin> surplus w"
    using t by (simp add: mem_surplus)
  have surplus': "surplus w' = insert t (surplus w)"
    using t above surplus_set_thread [of t w "(pool w)\<lparr>next_id := next_id (pool w) + 1\<rparr>"]
    by (simp add: w'_def)
  have "id_inv base w'"
  proof (rule id_inv_same_ids [OF inv(1)])
    show "assigned w' v a \<longleftrightarrow> assigned w v a" for v a
      using t above assigned_at [of t w' v a] assigned_at [of t w v a]
      by (auto simp: w'_def resolve_def)
    show "unat (next_id (pool w')) = base + card (surplus w')"
      using notin u32_succ_word [OF room] id_inv_count [OF inv(1)] unfolding surplus'
      by (simp add: w'_def)
    show "max_capacity (pool w') \<le> base"
      using above id_inv_over [OF inv(1)] id_inv_count [OF inv(1)]
      by (cases "surplus w = {}") (simp_all add: w'_def)
  qed
  then show ?thesis
    by (intro exI [of _ base]) simp
qed

lemma id_inv_rollback:
  assumes inv: "id_inv base w" and t: "t < workers w" "thread w t = IRejected str"
  shows "id_inv base (set_thread t IIdle
      (set_pool ((pool w)\<lparr>next_id := next_id (pool w) - 1\<rparr>) w))" (is "id_inv base ?w")
proof (rule id_inv_same_ids [OF inv])
  have "t \<in> surplus w"
    using t by (simp add: mem_surplus)
  then have card: "card (surplus w) = Suc (card (surplus w - {t}))"
    by (metis card_Suc_Diff1 finite_surplus)
  then have "next_id (pool w) \<noteq> 0"
    using id_inv_count [OF inv] by auto
  then have "unat (next_id (pool w) - 1) = unat (next_id (pool w)) - 1"
    by (metis unat_minus_one)
  then show "unat (next_id (pool ?w)) = base + card (surplus ?w)"
    using t card id_inv_count [OF inv]
      surplus_set_thread [of t w "(pool w)\<lparr>next_id := next_id (pool w) - 1\<rparr>" IIdle]
    by simp
  show "max_capacity (pool ?w) \<le> base"
    using id_inv_over [OF inv] \<open>t \<in> surplus w\<close> by auto
  show "assigned ?w v a \<longleftrightarrow> assigned w v a" for v a
    using t assigned_at [of t ?w v a] assigned_at [of t w v a] by (auto simp: resolve_def)
qed

lemma surplus_frame:
  "t < workers w \<Longrightarrow> max_capacity s = max_capacity (pool w) \<Longrightarrow>
     over_phase (max_capacity (pool w)) p = over_phase (max_capacity (pool w)) (thread w t) \<Longrightarrow>
     surplus (set_thread t p (set_pool s w)) = surplus w"
  using surplus_set_thread [of t w s p] mem_surplus [of t w] by auto

lemma id_inv_frame:
  assumes inv: "id_inv base w" and t: "t < workers w"
    and same: "max_capacity s = max_capacity (pool w)" "next_id s = next_id (pool w)"
    and over: "over_phase (max_capacity (pool w)) p = over_phase (max_capacity (pool w)) (thread w t)"
    and ids: "\<And>v a. resolve s (InternedString v) = Some a \<or> claims (max_capacity (pool w)) p v a \<longleftrightarrow>
      resolve (pool w) (InternedString v) = Some a \<or>
      claims (max_capacity (pool w)) (thread w t) v a"
  shows "id_inv base (set_thread t p (set_pool s w))" (is "id_inv base ?w")
proof (rule id_inv_same_ids [OF inv])
  note surplus = surplus_frame [OF t same(1) over]
  show "unat (next_id (pool ?w)) = base + card (surplus ?w)"
    unfolding surplus using id_inv_count [OF inv] same(2) by simp
  show "surplus ?w \<noteq> {} \<Longrightarrow> max_capacity (pool ?w) \<le> base"
    unfolding surplus using id_inv_over [OF inv] same(1) by simp
  show "assigned ?w v a \<longleftrightarrow> assigned w v a" for v a
    using t same(1) ids [of v a] assigned_at [of t ?w v a] assigned_at [of t w v a] by auto
qed

lemma id_inv_step:
  assumes "intern_step w w'" "id_inv base w" "map_inv w" "thread_inv w"
    "unat (next_id (pool w)) + 1 < 2 ^ 32"
  shows "\<exists>base'. base \<le> base' \<and> base' \<le> max base (max_capacity (pool w)) \<and> id_inv base' w'"
  using assms
proof (induction rule: intern_step.induct)
  case (reserve t w str)
  then show ?case
    by (intro id_inv_reserve)
next
  case (rollback t w str)
  then show ?case
    by (intro exI [of _ base] conjI id_inv_rollback) auto
next
  case (reject t w str v)
  then show ?case
    using id_inv_frame [of base w t "pool w" "IRejected str"] by (intro exI [of _ base]) auto
next
  case (admit t w str v)
  then show ?case
    using id_inv_frame [of base w t "pool w" "IAdmitted str v"] by (intro exI [of _ base]) auto
next
  case (store t w str v)
  note unres = pending_unresolved [OF store.prems(1-3) store.hyps]
  show ?case
    using store unres by (intro exI [of _ base] conjI id_inv_frame) (auto simp: resolve_def)
next
  case (publish t w str v)
  then show ?case
    by (intro exI [of _ base] conjI id_inv_frame) (auto simp: resolve_def)
qed

lemma step_keeps:
  "intern_step w w' \<Longrightarrow> workers w' = workers w \<and> max_capacity (pool w') = max_capacity (pool w)"
  by (induction rule: intern_step.induct) auto

text \<open>
  The invariant along a run: with a fixed capacity the assigned ids never pass the larger of the
  capacity and the ids in use at the start, so the counter cannot wrap while
  \<open>workers\<close> further reservations fit.
\<close>

lemma intern_run_inv:
  assumes "intern_step\<^sup>*\<^sup>* w w'" "intern_inv base w"
    "max base (max_capacity (pool w)) + workers w + 1 < 2 ^ 32"
  shows "\<exists>base'. base' \<le> max base (max_capacity (pool w)) \<and> intern_inv base' w' \<and>
    workers w' = workers w \<and> max_capacity (pool w') = max_capacity (pool w)"
  using assms(1)
proof induction
  case base
  then show ?case
    using assms(2) by (intro exI [of _ base]) auto
next
  case (step u u')
  then obtain b where b: "b \<le> max base (max_capacity (pool w))" "intern_inv b u"
    "workers u = workers w" "max_capacity (pool u) = max_capacity (pool w)"
    by auto
  have "unat (next_id (pool u)) \<le> b + workers u"
    using b(2) id_inv_count card_surplus_le [of u] by (fastforce simp: intern_inv_def)
  then have room: "unat (next_id (pool u)) + 1 < 2 ^ 32"
    using assms(3) b by linarith
  from b(2) have invs: "id_inv b u" "map_inv u" "thread_inv u"
    by (auto simp: intern_inv_def)
  obtain b' where "b' \<le> max b (max_capacity (pool u))" "id_inv b' u'"
    using id_inv_step [OF step.hyps(2) invs room] by auto
  moreover have "map_inv u'" "thread_inv u'"
    using map_inv_step [OF step.hyps(2) invs] thread_inv_step [OF step.hyps(2) invs(1,3)] by auto
  ultimately show ?case
    using step_keeps [OF step.hyps(2)] b by (intro exI [of _ b']) (auto simp: intern_inv_def)
qed

definition quiet_world :: "StringInterner \<Rightarrow> nat \<Rightarrow> intern_world" where
  "quiet_world s n = \<lparr>pool = s, thread = (\<lambda>_. IIdle), workers = n\<rparr>"

lemma quiet_world_inv:
  assumes "interner_inv s"
  shows "intern_inv (unat (next_id s)) (quiet_world s n)"
proof -
  have assigned: "assigned (quiet_world s n) v a \<longleftrightarrow> resolve s (InternedString v) = Some a" for v a
    by (simp add: assigned_def quiet_world_def)
  have bij: "get_id s a = Some i \<longleftrightarrow> resolve s i = Some a" for a i
    using assms by (simp add: interner_inv_def)
  have "id_inv (unat (next_id s)) (quiet_world s n)"
  proof (rule id_invI)
    show "(\<exists>a. assigned (quiet_world s n) v a) \<longleftrightarrow> unat v < unat (next_id s)" for v
      using assms unfolding assigned interner_inv_def
      by (metis InternedString.sel option.exhaust option.distinct(1) word_less_nat_alt)
    show "assigned (quiet_world s n) v a \<Longrightarrow> assigned (quiet_world s n) v' a \<Longrightarrow> v = v'" for v v' a
      unfolding assigned using bij by (metis InternedString.inject option.inject)
  qed (auto simp: quiet_world_def surplus_def assigned_def)
  moreover have "map_inv (quiet_world s n)" "thread_inv (quiet_world s n)"
    using assms bij by (auto simp: map_inv_def thread_inv_def quiet_world_def interner_inv_def)
  ultimately show ?thesis
    by (simp add: intern_inv_def)
qed

lemma quiescent_inv:
  assumes "intern_inv base w" "\<And>t. t < workers w \<Longrightarrow> thread w t = IIdle"
  shows "interner_inv (pool w)"
proof -
  from assms(1) have inv: "id_inv base w" "map_inv w"
    by (auto simp: intern_inv_def)
  have assigned: "assigned w v a \<longleftrightarrow> resolve (pool w) (InternedString v) = Some a" for v a
    using assms(2) by (auto simp: assigned_def)
  have "surplus w = {}"
    using assms(2) by (auto simp: surplus_def)
  then have base: "base = unat (next_id (pool w))"
    using id_inv_count [OF inv(1)] by simp
  have dense: "resolve (pool w) i \<noteq> None \<longleftrightarrow> as_u32 i < next_id (pool w)" for i
    using id_inv_dense [OF inv(1), of "as_u32 i"] base assigned by (auto simp: word_less_nat_alt)
  have "get_id (pool w) a = Some i \<longleftrightarrow> resolve (pool w) i = Some a" for a i
    using map_inv_resolve [OF inv(2), of i a] map_inv_get [OF inv(2), of a i] assms(2) by auto
  with dense map_inv_wf [OF inv(2)] show ?thesis
    unfolding interner_inv_def by blast
qed

text \<open>
  C11: under every interleaving of any number of threads that intern with a fixed capacity, an id
  never stands for two strings and every published id resolves to its string, also while other
  threads reserve ids past the capacity and give them back. Once no call is running the ids in
  use are again exactly those below the counter, so saving the string table by position is sound.
\<close>

theorem concurrent_interning_sound:
  assumes "interner_inv s" "intern_step\<^sup>*\<^sup>* (quiet_world s n) w"
    "max (unat (next_id s)) (max_capacity s) + n + 1 < 2 ^ 32"
  shows "(\<forall>a b i. get_id (pool w) a = Some i \<longrightarrow> get_id (pool w) b = Some i \<longrightarrow> a = b) \<and>
    (\<forall>a i. get_id (pool w) a = Some i \<longrightarrow> resolve (pool w) i = Some a) \<and>
    ((\<forall>t < n. thread w t = IIdle) \<longrightarrow> interner_inv (pool w))"
proof -
  obtain base where inv: "intern_inv base w" "workers w = n"
    using intern_run_inv [OF assms(2) quiet_world_inv [OF assms(1)]] assms(3)
    by (auto simp: quiet_world_def)
  then have "map_inv w"
    by (simp add: intern_inv_def)
  note get = map_inv_get [OF this]
  have "(\<forall>t < n. thread w t = IIdle) \<longrightarrow> interner_inv (pool w)"
    using quiescent_inv [OF inv(1)] inv(2) by simp
  moreover have "a = b" if "get_id (pool w) a = Some i" "get_id (pool w) b = Some i" for a b i
    using get [OF that(1)] get [OF that(2)] by simp
  ultimately show ?thesis
    using get by blast
qed

text \<open>The same steps as a function of an action, to evaluate schedules.\<close>

datatype intern_action = AReserve nat rstr | AReadmit nat rstr | AAdvance nat

definition locked_exec :: "intern_world \<Rightarrow> rstr \<Rightarrow> bool" where
  "locked_exec w str \<longleftrightarrow> list_ex (\<lambda>t. phase_str (thread w t) = Some str) [0..<workers w]"

lemma locked_exec: "locked_exec w str = entry_locked w str"
  by (auto simp: locked_exec_def entry_locked_def list_ex_iff)

fun intern_exec :: "intern_action \<Rightarrow> intern_world \<Rightarrow> intern_world option" where
  "intern_exec (AReserve t str) w =
     (if t < workers w \<and> thread w t = IIdle \<and> get_id (pool w) str = None \<and> \<not> locked_exec w str
      then Some (set_thread t (IReserved str (next_id (pool w)))
        (set_pool ((pool w)\<lparr>next_id := next_id (pool w) + 1\<rparr>) w)) else None)"
| "intern_exec (AReadmit t str) w =
     (if t < workers w \<and> thread w t = IIdle \<and> get_id (pool w) str = None \<and> \<not> locked_exec w str
      then Some (set_thread t (IAdmitted str (next_id (pool w)))
        (set_pool ((pool w)\<lparr>next_id := next_id (pool w) + 1\<rparr>) w)) else None)"
| "intern_exec (AAdvance t) w =
     (if t < workers w then
        (case thread w t of
           IIdle \<Rightarrow> None
         | IReserved str v \<Rightarrow>
             Some (set_thread t (if unat v < max_capacity (pool w) then IAdmitted str v
               else IRejected str) w)
         | IRejected str \<Rightarrow>
             Some (set_thread t IIdle (set_pool ((pool w)\<lparr>next_id := next_id (pool w) - 1\<rparr>) w))
         | IAdmitted str v \<Rightarrow>
             Some (set_thread t (IStored str v) (set_pool ((pool w)
               \<lparr>id_to_string := hm_insert (InternedString v) str (id_to_string (pool w))\<rparr>) w))
         | IStored str v \<Rightarrow>
             Some (set_thread t IIdle (set_pool ((pool w)
               \<lparr>string_to_id := hm_insert str (InternedString v) (string_to_id (pool w))\<rparr>) w)))
      else None)"

fun intern_schedule :: "intern_action list \<Rightarrow> intern_world \<Rightarrow> intern_world option" where
  "intern_schedule [] w = Some w"
| "intern_schedule (a # as) w =
     (case intern_exec a w of None \<Rightarrow> None | Some w' \<Rightarrow> intern_schedule as w')"

fun is_readmit :: "intern_action \<Rightarrow> bool" where
  "is_readmit (AReadmit t str) \<longleftrightarrow> True"
| "is_readmit _ \<longleftrightarrow> False"

lemmas intern_step_intros = intern_step.intros [simplified] readmit_step.intros [simplified]

lemma intern_exec_step:
  "intern_exec a w = Some w' \<Longrightarrow> \<not> is_readmit a \<Longrightarrow> intern_step w w'"
  by (cases a) (auto simp: locked_exec intro: intern_step_intros split: if_splits intern_phase.splits)


lemma intern_schedule_run:
  "intern_schedule as w = Some w' \<Longrightarrow> list_all (\<lambda>a. \<not> is_readmit a) as \<Longrightarrow> intern_step\<^sup>*\<^sup>* w w'"
  by (induction as arbitrary: w)
    (auto split: option.splits intro: converse_rtranclp_into_rtranclp dest: intern_exec_step)


lemmas schedule_simps = quiet_world_def with_max_capacity_def intern_def get_id_def resolve_def
  Let_def locked_exec_def upt_rec

theorem concurrent_interning_sound_witness:
  "\<exists>w. intern_schedule [AReserve 0 [1], AReserve 1 [2], AAdvance 1, AAdvance 0, AAdvance 1, AAdvance 0,
       AAdvance 0] (quiet_world (with_max_capacity 1) 2) = Some w \<and> interner_inv (pool w)"
proof -
  obtain w where w: "intern_schedule [AReserve 0 [1], AReserve 1 [2], AAdvance 1, AAdvance 0,
      AAdvance 1, AAdvance 0, AAdvance 0] (quiet_world (with_max_capacity 1) 2) = Some w"
    "\<forall>t < 2. thread w t = IIdle"
    by (simp add: schedule_simps)
  have run: "intern_step\<^sup>*\<^sup>* (quiet_world (with_max_capacity 1) 2) w"
    by (rule intern_schedule_run [OF w(1)]) simp
  have "max (unat (next_id (with_max_capacity 1))) (max_capacity (with_max_capacity 1)) + 2 + 1 < 2 ^ 32"
    by (simp add: with_max_capacity_def)
  with concurrent_interning_sound [OF interner_inv_empty run] w show ?thesis
    by blast
qed


end
