(* ===== verification/Values.thy ===== *)
theory Values
  imports Interning
begin

text \<open>
  Property values: \<open>src/core/property/value.rs\<close>, with sparse vectors (\<open>src/core/vector/sparse.rs\<close>)
  and the vector encodings (\<open>src/core/vector/serialization.rs\<close>). A float is its IEEE 754 bit
  pattern; equality, NaN and infinity tests read the bits. \<open>Arc::ptr_eq\<close> depends on which
  allocations a caller shares, so the comparisons take it as an argument \<open>same\<close>; all that is
  known of it is that shared values are equal. A serializer returns the bytes it appends.
\<close>

section \<open>Floats\<close>

type_synonym f32 = u32
type_synonym f64 = u64

definition f32_is_nan :: "f32 \<Rightarrow> bool" where
  "f32_is_nan b \<longleftrightarrow> 0x7F800000 < b AND 0x7FFFFFFF"

definition f32_is_infinite :: "f32 \<Rightarrow> bool" where
  "f32_is_infinite b \<longleftrightarrow> b AND 0x7FFFFFFF = 0x7F800000"

definition f32_is_zero :: "f32 \<Rightarrow> bool" where
  "f32_is_zero b \<longleftrightarrow> b AND 0x7FFFFFFF = 0"

definition f32_eq :: "f32 \<Rightarrow> f32 \<Rightarrow> bool" where
  "f32_eq a b \<longleftrightarrow> \<not> f32_is_nan a \<and> \<not> f32_is_nan b \<and> (a = b \<or> f32_is_zero a \<and> f32_is_zero b)"

definition f64_is_nan :: "f64 \<Rightarrow> bool" where
  "f64_is_nan b \<longleftrightarrow> 0x7FF0000000000000 < b AND 0x7FFFFFFFFFFFFFFF"

definition f64_is_zero :: "f64 \<Rightarrow> bool" where
  "f64_is_zero b \<longleftrightarrow> b AND 0x7FFFFFFFFFFFFFFF = 0"

definition f64_eq :: "f64 \<Rightarrow> f64 \<Rightarrow> bool" where
  "f64_eq a b \<longleftrightarrow> \<not> f64_is_nan a \<and> \<not> f64_is_nan b \<and> (a = b \<or> f64_is_zero a \<and> f64_is_zero b)"

section \<open>Sparse vectors\<close>

definition MAX_VECTOR_DIMENSIONS :: nat where
  "MAX_VECTOR_DIMENSIONS = 100000"

datatype SparseVec = SparseVec (indices: "u32 list") (sv_values: "f32 list") (dimension: u32)

definition validate_value :: "f32 \<Rightarrow> Error + unit" where
  "validate_value v =
     (if f32_is_nan v then Inl (VectorErr (ContainsNaN 1))
      else if f32_is_infinite v then Inl (VectorErr (ContainsInfinity 1))
      else if f32_eq v 0 then Inl (VectorErr InvalidSparseVector)
      else Inr ())"

text \<open>
  The constructor: a first pass over input that is already sorted, which gives up at the first
  descent (the value False), and then a pass over the sorted pairs.
\<close>

fun sparse_scan :: "u32 \<Rightarrow> u32 \<Rightarrow> u32 list \<Rightarrow> f32 list \<Rightarrow> Error + bool" where
  "sparse_scan dim prev (cur # is) (v # vs) =
     (if cur \<le> prev then
        (if cur = prev then Inl (VectorErr InvalidSparseVector) else Inr False)
      else if dim \<le> cur then Inl (VectorErr InvalidSparseVector)
      else case validate_value v of Inl e \<Rightarrow> Inl e | Inr _ \<Rightarrow> sparse_scan dim cur is vs)"
| "sparse_scan dim prev _ _ = Inr True"

fun sparse_check :: "u32 \<Rightarrow> u32 option \<Rightarrow> (u32 \<times> f32) list \<Rightarrow> Error + unit" where
  "sparse_check dim prev_idx [] = Inr ()"
| "sparse_check dim prev_idx ((idx, val) # ps) =
     (case validate_value val of
        Inl e \<Rightarrow> Inl e
      | Inr _ \<Rightarrow>
          (if dim \<le> idx then Inl (VectorErr InvalidSparseVector)
           else if prev_idx = Some idx then Inl (VectorErr InvalidSparseVector)
           else sparse_check dim (Some idx) ps))"

definition SparseVec_new :: "u32 list \<Rightarrow> f32 list \<Rightarrow> u32 \<Rightarrow> Error + SparseVec" where
  "SparseVec_new is vs dim =
     (if MAX_VECTOR_DIMENSIONS < unat dim
      then Inl (VectorErr (DimensionTooLarge (unat dim) MAX_VECTOR_DIMENSIONS))
      else if length is \<noteq> length vs
      then Inl (VectorErr (DimensionMismatch (length is) (length vs)))
      else case is of
        [] \<Rightarrow> Inr (SparseVec is vs dim)
      | i # is' \<Rightarrow>
          (if dim \<le> i then Inl (VectorErr InvalidSparseVector)
           else case validate_value (hd vs) of
             Inl e \<Rightarrow> Inl e
           | Inr _ \<Rightarrow>
               (case sparse_scan dim i is' (tl vs) of
                  Inl e \<Rightarrow> Inl e
                | Inr True \<Rightarrow> Inr (SparseVec is vs dim)
                | Inr False \<Rightarrow>
                    (let ps = sort_key fst (zip is vs) in
                     case sparse_check dim None ps of
                       Inl e \<Rightarrow> Inl e
                     | Inr _ \<Rightarrow> Inr (SparseVec (map fst ps) (map snd ps) dim)))))"

definition nnz :: "SparseVec \<Rightarrow> nat" where
  "nnz sv = length (indices sv)"

definition to_dense :: "SparseVec \<Rightarrow> f32 list" where
  "to_dense sv =
     fold (\<lambda>(idx, val) dense. dense[unat idx := val]) (zip (indices sv) (sv_values sv))
       (replicate (unat (dimension sv)) 0)"

section \<open>Vector encodings\<close>

definition TAG_NULL :: u8 where "TAG_NULL = 0"
definition TAG_BOOL :: u8 where "TAG_BOOL = 1"
definition TAG_INT :: u8 where "TAG_INT = 2"
definition TAG_FLOAT :: u8 where "TAG_FLOAT = 3"
definition TAG_STRING :: u8 where "TAG_STRING = 4"
definition TAG_BYTES :: u8 where "TAG_BYTES = 5"
definition TAG_ARRAY :: u8 where "TAG_ARRAY = 6"
definition TAG_VECTOR :: u8 where "TAG_VECTOR = 7"
definition TAG_SPARSE_VECTOR :: u8 where "TAG_SPARSE_VECTOR = 8"

lemmas tag_defs = TAG_NULL_def TAG_BOOL_def TAG_INT_def TAG_FLOAT_def TAG_STRING_def TAG_BYTES_def
  TAG_ARRAY_def TAG_VECTOR_def TAG_SPARSE_VECTOR_def

definition corrupted :: "Error + 'a" where
  "corrupted = Inl (StorageErr CorruptedData)"

definition validate_vector_dimensions :: "nat \<Rightarrow> Error + unit" where
  "validate_vector_dimensions len =
     (if MAX_VECTOR_DIMENSIONS < len
      then Inl (VectorErr (DimensionTooLarge len MAX_VECTOR_DIMENSIONS)) else Inr ())"

text \<open>A run of 32-bit words in little-endian order; the bulk copy of the code.\<close>

definition write_u32s :: "u32 list \<Rightarrow> bytes" where
  "write_u32s ws = concat (map (to_le_bytes 4) ws)"

fun read_u32s :: "nat \<Rightarrow> bytes \<Rightarrow> u32 list" where
  "read_u32s 0 bs = []"
| "read_u32s (Suc n) bs = from_le_bytes (take 4 bs) # read_u32s n (drop 4 bs)"

definition read_u32 :: "nat \<Rightarrow> bytes \<Rightarrow> u32" where
  "read_u32 offset bs = from_le_bytes (take 4 (drop offset bs))"

definition read_u64 :: "nat \<Rightarrow> bytes \<Rightarrow> u64" where
  "read_u64 offset bs = from_le_bytes (take 8 (drop offset bs))"

definition len_u32 :: "nat \<Rightarrow> bytes" where
  "len_u32 n = to_le_bytes 4 (of_nat n :: u32)"

definition try_serialize_vector_into :: "f32 list \<Rightarrow> Error + bytes" where
  "try_serialize_vector_into v =
     (case validate_vector_dimensions (length v) of
        Inl e \<Rightarrow> Inl e
      | Inr _ \<Rightarrow> Inr (TAG_VECTOR # len_u32 (length v) @ write_u32s v))"

definition deserialize_vector :: "bytes \<Rightarrow> Error + f32 list \<times> nat" where
  "deserialize_vector bs =
     (if length bs < 5 then corrupted
      else if hd bs \<noteq> TAG_VECTOR then corrupted
      else let dim = unat (read_u32 1 bs) in
        case validate_vector_dimensions dim of
          Inl e \<Rightarrow> Inl e
        | Inr _ \<Rightarrow>
            (case usize_checked_mul dim 4 of
               None \<Rightarrow> corrupted
             | Some data_len \<Rightarrow>
                 (case usize_checked_add 5 data_len of
                    None \<Rightarrow> corrupted
                  | Some total_len \<Rightarrow>
                      (if length bs < total_len then corrupted
                       else Inr (read_u32s dim (drop 5 bs), total_len)))))"

definition serialize_sparse_vector_into :: "SparseVec \<Rightarrow> bytes" where
  "serialize_sparse_vector_into sv =
     TAG_SPARSE_VECTOR # to_le_bytes 4 (dimension sv) @ len_u32 (nnz sv) @
       write_u32s (indices sv) @ write_u32s (sv_values sv)"

definition deserialize_sparse_vector :: "bytes \<Rightarrow> Error + SparseVec \<times> nat" where
  "deserialize_sparse_vector bs =
     (if length bs < 9 then corrupted
      else if hd bs \<noteq> TAG_SPARSE_VECTOR then corrupted
      else let dim = read_u32 1 bs; n = unat (read_u32 5 bs) in
        if unat dim < n then corrupted
        else case validate_vector_dimensions n of
          Inl e \<Rightarrow> Inl e
        | Inr _ \<Rightarrow>
            (case usize_checked_mul n 4 of
               None \<Rightarrow> corrupted
             | Some indices_len \<Rightarrow>
                 (case Option.bind (usize_checked_add 9 indices_len)
                         (\<lambda>x. usize_checked_add x indices_len) of
                    None \<Rightarrow> corrupted
                  | Some total_len \<Rightarrow>
                      (if length bs < total_len then corrupted
                       else case SparseVec_new (read_u32s n (drop 9 bs))
                              (read_u32s n (drop (9 + indices_len) bs)) dim of
                         Inl e \<Rightarrow> Inl e
                       | Inr sv \<Rightarrow> Inr (sv, total_len)))))"

section \<open>Property values\<close>

datatype PropertyValue =
    Null
  | Bool bool
  | IntV i64
  | Float f64
  | String rstr
  | Bytes bytes
  | Array "PropertyValue list"
  | Vector "f32 list"
  | SparseVector SparseVec

definition MAX_ARRAY_ELEMENTS :: nat where
  "MAX_ARRAY_ELEMENTS = 10000000"

definition MAX_RECURSION_DEPTH :: nat where
  "MAX_RECURSION_DEPTH = 100"

text \<open>\<open>std::str::from_utf8\<close>: well-formed UTF-8 byte sequences.\<close>

definition utf8_cont :: "u8 \<Rightarrow> bool" where
  "utf8_cont b \<longleftrightarrow> 0x80 \<le> b \<and> b \<le> 0xBF"

fun utf8_valid :: "bytes \<Rightarrow> bool" where
  "utf8_valid [] \<longleftrightarrow> True"
| "utf8_valid (b # bs) \<longleftrightarrow>
     (if b < 0x80 then utf8_valid bs
      else if 0xC2 \<le> b \<and> b \<le> 0xDF then
        (case bs of c # cs \<Rightarrow> utf8_cont c \<and> utf8_valid cs | _ \<Rightarrow> False)
      else if 0xE0 \<le> b \<and> b \<le> 0xEF then
        (case bs of c # d # ds \<Rightarrow> utf8_cont c \<and> utf8_cont d \<and>
            (b = 0xE0 \<longrightarrow> 0xA0 \<le> c) \<and> (b = 0xED \<longrightarrow> c \<le> 0x9F) \<and> utf8_valid ds
         | _ \<Rightarrow> False)
      else if 0xF0 \<le> b \<and> b \<le> 0xF4 then
        (case bs of c # d # e # es \<Rightarrow> utf8_cont c \<and> utf8_cont d \<and> utf8_cont e \<and>
            (b = 0xF0 \<longrightarrow> 0x90 \<le> c) \<and> (b = 0xF4 \<longrightarrow> c \<le> 0x8F) \<and> utf8_valid es
         | _ \<Rightarrow> False)
      else False)"

definition try_vector :: "f32 list \<Rightarrow> Error + PropertyValue" where
  "try_vector v =
     (case validate_vector_dimensions (length v) of Inl e \<Rightarrow> Inl e | Inr _ \<Rightarrow> Inr (Vector v))"

fun as_vector :: "PropertyValue \<Rightarrow> f32 list option" where
  "as_vector (Vector v) = Some v"
| "as_vector _ = None"

fun type_name :: "PropertyValue \<Rightarrow> string" where
  "type_name Null = ''null''"
| "type_name (Bool _) = ''bool''"
| "type_name (IntV _) = ''int''"
| "type_name (Float _) = ''float''"
| "type_name (String _) = ''string''"
| "type_name (Bytes _) = ''bytes''"
| "type_name (Array _) = ''array''"
| "type_name (Vector _) = ''vector''"
| "type_name (SparseVector _) = ''sparse_vector''"

subsection \<open>Equality\<close>

text \<open>
  The comparisons walk nested arrays with an explicit stack. The head of the list is the top of
  the stack.
\<close>

type_synonym sharing = "PropertyValue \<Rightarrow> PropertyValue \<Rightarrow> bool"
type_synonym pair_stack = "(PropertyValue \<times> PropertyValue) list"

definition sparse_eq :: "SparseVec \<Rightarrow> SparseVec \<Rightarrow> bool" where
  "sparse_eq a b \<longleftrightarrow> indices a = indices b \<and> list_all2 f32_eq (sv_values a) (sv_values b) \<and>
     dimension a = dimension b"

fun eq_pair :: "sharing \<Rightarrow> PropertyValue \<Rightarrow> PropertyValue \<Rightarrow> pair_stack \<Rightarrow> bool \<times> pair_stack" where
  "eq_pair same Null Null st = (True, st)"
| "eq_pair same (Bool a) (Bool b) st = (a = b, st)"
| "eq_pair same (IntV a) (IntV b) st = (a = b, st)"
| "eq_pair same (Float a) (Float b) st = (f64_eq a b, st)"
| "eq_pair same (String a) (String b) st = (same (String a) (String b) \<or> a = b, st)"
| "eq_pair same (Bytes a) (Bytes b) st = (same (Bytes a) (Bytes b) \<or> a = b, st)"
| "eq_pair same (Vector a) (Vector b) st =
     (same (Vector a) (Vector b) \<or> list_all2 f32_eq a b, st)"
| "eq_pair same (SparseVector a) (SparseVector b) st =
     (same (SparseVector a) (SparseVector b) \<or> sparse_eq a b, st)"
| "eq_pair same (Array a) (Array b) st =
     (if same (Array a) (Array b) then (True, st)
      else if length a \<noteq> length b then (False, st)
      else (True, rev (zip a b) @ st))"
| "eq_pair same _ _ st = (False, st)"

fun semantically_eq_pair ::
  "sharing \<Rightarrow> (PropertyValue \<Rightarrow> PropertyValue \<Rightarrow> bool) \<Rightarrow> PropertyValue \<Rightarrow> PropertyValue \<Rightarrow> pair_stack \<Rightarrow>
    bool \<times> pair_stack" where
  "semantically_eq_pair same eq (Float a) (Float b) st =
     ((if f64_is_nan a then f64_is_nan b else f64_eq a b), st)"
| "semantically_eq_pair same eq (Vector a) (Vector b) st =
     (if same (Vector a) (Vector b) then (True, st)
      else if length a \<noteq> length b then (False, st)
      else (list_all (\<lambda>(x, y). if f32_is_nan x then f32_is_nan y else f32_eq x y) (zip a b), st))"
| "semantically_eq_pair same eq (Array a) (Array b) st =
     (if same (Array a) (Array b) then (True, st)
      else if length a \<noteq> length b then (False, st)
      else (True, rev (zip a b) @ st))"
| "semantically_eq_pair same eq a b st = (eq a b, st)"

text \<open>The weight of a stack, which every round of the loops lowers.\<close>

definition stack_size :: "pair_stack \<Rightarrow> nat" where
  "stack_size st = sum_list (map (\<lambda>p. Suc (size (fst p))) st)"

lemma stack_size_append [simp]: "stack_size (xs @ ys) = stack_size xs + stack_size ys"
  by (simp add: stack_size_def)

lemma stack_size_Cons [simp]: "stack_size (p # st) = Suc (size (fst p) + stack_size st)"
  by (simp add: stack_size_def)

lemma stack_size_Nil [simp]: "stack_size [] = 0"
  by (simp add: stack_size_def)

lemma stack_size_rev [simp]: "stack_size (rev st) = stack_size st"
  by (simp add: stack_size_def sum_list_rev rev_map [symmetric])

lemma stack_size_zip: "length a = length b \<Longrightarrow> stack_size (zip a b) = size_list size a"
  by (induction a b rule: list_induct2) auto

lemma eq_pair_smaller:
  "eq_pair same a b st = (r, st') \<Longrightarrow> stack_size st' < stack_size ((a, b) # st)"
  by (cases "(same, a, b, st)" rule: eq_pair.cases) (auto simp: stack_size_zip split: if_splits)

lemma semantically_eq_pair_smaller:
  "semantically_eq_pair same eq a b st = (r, st') \<Longrightarrow> stack_size st' < stack_size ((a, b) # st)"
  by (cases "(same, eq, a, b, st)" rule: semantically_eq_pair.cases)
    (auto simp: stack_size_zip split: if_splits)

function eq_loop :: "sharing \<Rightarrow> pair_stack \<Rightarrow> bool" where
  "eq_loop same [] = True"
| "eq_loop same ((a, b) # st) =
     (case eq_pair same a b st of (r, st') \<Rightarrow> if r then eq_loop same st' else False)"
  by pat_completeness auto
termination
  by (relation "measure (stack_size \<circ> snd)") (auto dest: eq_pair_smaller [OF sym])

definition value_eq :: "sharing \<Rightarrow> PropertyValue \<Rightarrow> PropertyValue \<Rightarrow> bool" where
  "value_eq same a b = (case eq_pair same a b [] of (r, st) \<Rightarrow> if r then eq_loop same st else False)"

function sem_loop :: "sharing \<Rightarrow> pair_stack \<Rightarrow> bool" where
  "sem_loop same [] = True"
| "sem_loop same ((a, b) # st) =
     (case semantically_eq_pair same (value_eq same) a b st of
        (r, st') \<Rightarrow> if r then sem_loop same st' else False)"
  by pat_completeness auto
termination
  by (relation "measure (stack_size \<circ> snd)") (auto dest: semantically_eq_pair_smaller [OF sym])

definition semantically_equal :: "sharing \<Rightarrow> PropertyValue \<Rightarrow> PropertyValue \<Rightarrow> bool" where
  "semantically_equal same a b =
     (case semantically_eq_pair same (value_eq same) a b [] of
        (r, st) \<Rightarrow> if r then sem_loop same st else False)"

subsection \<open>Serialization\<close>

fun serialize_recursive :: "nat \<Rightarrow> PropertyValue \<Rightarrow> Error + bytes"
  and serialize_items :: "nat \<Rightarrow> PropertyValue list \<Rightarrow> Error + bytes" where
  "serialize_recursive depth v =
     (if MAX_RECURSION_DEPTH < depth then corrupted
      else case v of
        Null \<Rightarrow> Inr [TAG_NULL]
      | Bool b \<Rightarrow> Inr [TAG_BOOL, if b then 1 else 0]
      | IntV i \<Rightarrow> Inr (TAG_INT # to_le_bytes 8 i)
      | Float f \<Rightarrow> Inr (TAG_FLOAT # to_le_bytes 8 f)
      | String s \<Rightarrow> Inr (TAG_STRING # len_u32 (length s) @ s)
      | Bytes b \<Rightarrow> Inr (TAG_BYTES # len_u32 (length b) @ b)
      | Array arr \<Rightarrow>
          (case serialize_items (depth + 1) arr of
             Inl e \<Rightarrow> Inl e
           | Inr items \<Rightarrow> Inr (TAG_ARRAY # len_u32 (length arr) @ items))
      | Vector v \<Rightarrow> try_serialize_vector_into v
      | SparseVector sv \<Rightarrow> Inr (serialize_sparse_vector_into sv))"
| "serialize_items depth [] = Inr []"
| "serialize_items depth (v # vs) =
     (case serialize_recursive depth v of
        Inl e \<Rightarrow> Inl e
      | Inr b \<Rightarrow>
          (case serialize_items depth vs of Inl e \<Rightarrow> Inl e | Inr bs \<Rightarrow> Inr (b @ bs)))"

fun serialized_size_recursive :: "nat \<Rightarrow> PropertyValue \<Rightarrow> Error + nat"
  and serialized_size_items :: "nat \<Rightarrow> PropertyValue list \<Rightarrow> Error + nat" where
  "serialized_size_recursive depth v =
     (if MAX_RECURSION_DEPTH < depth then corrupted
      else case v of
        Null \<Rightarrow> Inr 1
      | Bool _ \<Rightarrow> Inr 2
      | IntV _ \<Rightarrow> Inr 9
      | Float _ \<Rightarrow> Inr 9
      | String s \<Rightarrow> Inr (1 + 4 + length s)
      | Bytes b \<Rightarrow> Inr (1 + 4 + length b)
      | Array arr \<Rightarrow>
          (case serialized_size_items (depth + 1) arr of
             Inl e \<Rightarrow> Inl e
           | Inr elements_size \<Rightarrow> Inr (1 + 4 + elements_size))
      | Vector v \<Rightarrow> Inr (1 + 4 + length v * 4)
      | SparseVector sv \<Rightarrow> Inr (1 + 4 + 4 + nnz sv * 8))"
| "serialized_size_items depth [] = Inr 0"
| "serialized_size_items depth (v # vs) =
     (case serialized_size_recursive depth v of
        Inl e \<Rightarrow> Inl e
      | Inr n \<Rightarrow>
          (case serialized_size_items depth vs of Inl e \<Rightarrow> Inl e | Inr m \<Rightarrow> Inr (n + m)))"

definition serialized_size :: "PropertyValue \<Rightarrow> Error + nat" where
  "serialized_size v = serialized_size_recursive 0 v"

definition value_serialize_into :: "PropertyValue \<Rightarrow> Error + bytes" where
  "value_serialize_into v = serialize_recursive 0 v"

definition value_serialize :: "PropertyValue \<Rightarrow> Error + bytes" where
  "value_serialize v =
     (case serialized_size v of Inl _ \<Rightarrow> corrupted | Inr _ \<Rightarrow> value_serialize_into v)"

definition deserialize_bool :: "bytes \<Rightarrow> Error + PropertyValue \<times> nat" where
  "deserialize_bool bs = (if length bs < 2 then corrupted else Inr (Bool (bs ! 1 \<noteq> 0), 2))"

definition deserialize_int :: "bytes \<Rightarrow> Error + PropertyValue \<times> nat" where
  "deserialize_int bs = (if length bs < 9 then corrupted else Inr (IntV (read_u64 1 bs), 9))"

definition deserialize_float :: "bytes \<Rightarrow> Error + PropertyValue \<times> nat" where
  "deserialize_float bs = (if length bs < 9 then corrupted else Inr (Float (read_u64 1 bs), 9))"

definition deserialize_string :: "bytes \<Rightarrow> Error + PropertyValue \<times> nat" where
  "deserialize_string bs =
     (if length bs < 5 then corrupted
      else case usize_checked_add 5 (unat (read_u32 1 bs)) of
        None \<Rightarrow> corrupted
      | Some required_len \<Rightarrow>
          (if length bs < required_len then corrupted
           else let s = take (required_len - 5) (drop 5 bs) in
             if utf8_valid s then Inr (String s, required_len) else corrupted))"

definition deserialize_bytes :: "bytes \<Rightarrow> Error + PropertyValue \<times> nat" where
  "deserialize_bytes bs =
     (if length bs < 5 then corrupted
      else case usize_checked_add 5 (unat (read_u32 1 bs)) of
        None \<Rightarrow> corrupted
      | Some required_len \<Rightarrow>
          (if length bs < required_len then corrupted
           else Inr (Bytes (take (required_len - 5) (drop 5 bs)), required_len)))"

function (sequential) deserialize_recursive :: "bytes \<Rightarrow> nat \<Rightarrow> Error + PropertyValue \<times> nat"
  and deserialize_items :: "bytes \<Rightarrow> nat \<Rightarrow> nat \<Rightarrow> nat \<Rightarrow> Error + PropertyValue list \<times> nat" where
  "deserialize_recursive bs depth =
     (if MAX_RECURSION_DEPTH < depth then corrupted
      else case bs of
        [] \<Rightarrow> corrupted
      | tag # _ \<Rightarrow>
          (if tag = TAG_NULL then Inr (Null, 1)
           else if tag = TAG_BOOL then deserialize_bool bs
           else if tag = TAG_INT then deserialize_int bs
           else if tag = TAG_FLOAT then deserialize_float bs
           else if tag = TAG_STRING then deserialize_string bs
           else if tag = TAG_BYTES then deserialize_bytes bs
           else if tag = TAG_ARRAY then
             (if length bs < 5 then corrupted
              else let count = unat (read_u32 1 bs) in
                if MAX_ARRAY_ELEMENTS < count then corrupted
                else if length bs - 5 < count then corrupted
                else case deserialize_items bs 5 count depth of
                  Inl e \<Rightarrow> Inl e
                | Inr (items, offset) \<Rightarrow> Inr (Array items, offset))
           else if tag = TAG_VECTOR then
             (case deserialize_vector bs of
                Inl e \<Rightarrow> Inl e | Inr (v, consumed) \<Rightarrow> Inr (Vector v, consumed))
           else if tag = TAG_SPARSE_VECTOR then
             (case deserialize_sparse_vector bs of
                Inl e \<Rightarrow> Inl e | Inr (sv, consumed) \<Rightarrow> Inr (SparseVector sv, consumed))
           else corrupted))"
| "deserialize_items bs offset 0 depth = Inr ([], offset)"
| "deserialize_items bs offset (Suc n) depth =
     (if length bs \<le> offset then corrupted
      else case deserialize_recursive (drop offset bs) (depth + 1) of
        Inl e \<Rightarrow> Inl e
      | Inr (item, consumed) \<Rightarrow>
          (case deserialize_items bs (offset + consumed) n depth of
             Inl e \<Rightarrow> Inl e
           | Inr (items, offset') \<Rightarrow> Inr (item # items, offset')))"
  by pat_completeness auto
termination
  by (relation "measures
      [case_sum (\<lambda>(bs, depth). length bs) (\<lambda>(bs, offset, n, depth). length bs - offset),
       case_sum (\<lambda>_. 0) (\<lambda>(bs, offset, n, depth). Suc n)]") auto

definition value_deserialize :: "bytes \<Rightarrow> Error + PropertyValue \<times> nat" where
  "value_deserialize bs = deserialize_recursive bs 0"

declare serialize_recursive.simps [simp del] serialized_size_recursive.simps [simp del]
  deserialize_recursive.simps [simp del]

section \<open>Sparse vectors: correctness of the constructor\<close>

definition sparse_value :: "f32 \<Rightarrow> bool" where
  "sparse_value v \<longleftrightarrow> \<not> f32_is_nan v \<and> \<not> f32_is_infinite v \<and> \<not> f32_is_zero v"

definition sparse_wf :: "SparseVec \<Rightarrow> bool" where
  "sparse_wf sv \<longleftrightarrow> unat (dimension sv) \<le> MAX_VECTOR_DIMENSIONS \<and>
     length (indices sv) = length (sv_values sv) \<and> sorted_wrt (<) (indices sv) \<and>
     (\<forall>i \<in> set (indices sv). i < dimension sv) \<and> (\<forall>v \<in> set (sv_values sv). sparse_value v)"

lemma validate_value_iff: "validate_value v = Inr () \<longleftrightarrow> sparse_value v"
  by (auto simp: validate_value_def sparse_value_def f32_eq_def f32_is_zero_def f32_is_nan_def)

lemma validate_value_Inr [simp]: "(case validate_value v of Inl e \<Rightarrow> Inl e | Inr _ \<Rightarrow> r) =
    (if sparse_value v then r else Inl (projl (validate_value v)))"
  using validate_value_iff [of v] by (cases "validate_value v") auto

lemma sparse_scan_sorted:
  "length is = length vs \<Longrightarrow> sparse_scan dim prev is vs = Inr True \<longleftrightarrow>
     sorted_wrt (<) (prev # is) \<and> (\<forall>i \<in> set is. i < dim) \<and> (\<forall>v \<in> set vs. sparse_value v)"
proof (induction dim prev "is" vs rule: sparse_scan.induct)
  case (1 dim prev cur "is" v vs)
  then show ?case
    by (cases "sparse_value v") (auto simp: not_le validate_value_iff)
qed auto

lemma sparse_scan_error:
  "length is = length vs \<Longrightarrow> sparse_scan dim prev is vs = Inl e \<Longrightarrow>
     \<not> (distinct (prev # is) \<and> (\<forall>i \<in> set is. i < dim) \<and> (\<forall>v \<in> set vs. sparse_value v))"
proof (induction dim prev "is" vs rule: sparse_scan.induct)
  case (1 dim prev cur "is" v vs)
  then show ?case
    by (cases "sparse_value v") (auto simp: not_le validate_value_iff split: if_splits)
qed auto

lemma sparse_check_iff:
  "sorted (map fst ps) \<Longrightarrow> (\<And>p. prev = Some p \<Longrightarrow> \<forall>i \<in> fst ` set ps. p \<le> i) \<Longrightarrow>
   sparse_check dim prev ps = Inr () \<longleftrightarrow>
     (\<forall>(i, v) \<in> set ps. i < dim \<and> sparse_value v) \<and> distinct (map fst ps) \<and>
     (\<forall>p. prev = Some p \<longrightarrow> p \<notin> fst ` set ps)"
proof (induction ps arbitrary: prev)
  case Nil
  then show ?case by simp
next
  case (Cons q ps)
  obtain i v where q: "q = (i, v)"
    by fastforce
  have ih: "sparse_check dim (Some i) ps = Inr () \<longleftrightarrow>
     (\<forall>(i, v) \<in> set ps. i < dim \<and> sparse_value v) \<and> distinct (map fst ps) \<and> i \<notin> fst ` set ps"
    using Cons.IH [of "Some i"] Cons.prems q by auto
  have "prev = Some p \<Longrightarrow> p \<notin> fst ` set (q # ps) \<longleftrightarrow> p \<noteq> i" for p
    using Cons.prems q by force
  with ih show ?case
    by (cases "sparse_value v"; cases prev) (auto simp: q)
qed

lemma all_zip:
  "length xs = length ys \<Longrightarrow>
     (\<forall>(x, y) \<in> set (zip xs ys). P x \<and> Q y) \<longleftrightarrow> (\<forall>x \<in> set xs. P x) \<and> (\<forall>y \<in> set ys. Q y)"
  by (induction xs ys rule: list_induct2) auto

lemma distinct_sort_key: "distinct (map f (sort_key f xs)) = distinct (map f xs)"
  by (induction xs) (auto simp: distinct_insort_key)

lemma sparse_check_sorted:
  assumes "length is = length vs"
  shows "sparse_check dim None (sort_key fst (zip is vs)) = Inr () \<longleftrightarrow>
    distinct is \<and> (\<forall>j \<in> set is. j < dim) \<and> (\<forall>u \<in> set vs. sparse_value u)"
  using sparse_check_iff [of "sort_key fst (zip is vs)" None dim] all_zip [of "is" vs]
    distinct_sort_key [of fst "zip is vs"] assms
  by (auto simp: sorted_sort_key)

lemma sort_key_zip_sorted:
  assumes "sorted_wrt (<) is" "length is = length vs"
  shows "sort_key fst (zip is vs) = zip is vs"
proof -
  have "sorted (map fst (zip is vs))"
    using assms by (simp add: strict_sorted_imp_sorted)
  then show ?thesis
    by (rule sort_key_id_if_sorted)
qed

lemma SparseVec_new_Cons:
  assumes "unat dim \<le> MAX_VECTOR_DIMENSIONS" "length is = length vs" "i < dim" "sparse_value v"
  shows "SparseVec_new (i # is) (v # vs) dim = Inr sv \<longleftrightarrow>
     distinct (i # is) \<and> list_all (\<lambda>i. i < dim) is \<and> list_all sparse_value vs \<and>
     (let ps = sort_key fst (zip (i # is) (v # vs)) in sv = SparseVec (map fst ps) (map snd ps) dim)"
    (is "_ \<longleftrightarrow> ?ok \<and> _ \<and> _ \<and> (let ps = ?ps in _)")
proof (cases "sparse_scan dim i is vs")
  case (Inl e)
  then show ?thesis
    using sparse_scan_error [OF assms(2) Inl] assms
    by (auto simp: SparseVec_new_def list_all_iff not_le)
next
  case (Inr sorted)
  show ?thesis
  proof (cases sorted)
    case True
    then have st: "sorted_wrt (<) (i # is)" "\<forall>j \<in> set is. j < dim" "\<forall>u \<in> set vs. sparse_value u"
      using sparse_scan_sorted [OF assms(2), of dim i] Inr by auto
    then have "distinct (i # is)" "?ps = zip (i # is) (v # vs)"
      using sort_key_zip_sorted [OF st(1), of "v # vs"] assms(2) by (auto simp: strict_sorted_iff)
    then show ?thesis
      using True Inr st assms unfolding SparseVec_new_def Let_def
      by (auto simp: list_all_iff not_le simp del: sort_key_simps)
  next
    case False
    then show ?thesis
      using Inr assms sparse_check_sorted [of "i # is" "v # vs" dim]
      unfolding SparseVec_new_def Let_def
      by (cases "sparse_check dim None ?ps") (auto simp: list_all_iff not_le simp del: sort_key_simps)
  qed
qed

lemma SparseVec_new_characterised:
  "SparseVec_new is vs dim = Inr sv \<longleftrightarrow>
     unat dim \<le> MAX_VECTOR_DIMENSIONS \<and> length is = length vs \<and> distinct is \<and>
     list_all (\<lambda>i. i < dim) is \<and> list_all sparse_value vs \<and>
     (let ps = sort_key fst (zip is vs) in sv = SparseVec (map fst ps) (map snd ps) dim)"
proof (cases "unat dim \<le> MAX_VECTOR_DIMENSIONS \<and> length is = length vs")
  case False
  then show ?thesis
    by (auto simp: SparseVec_new_def)
next
  case len: True
  show ?thesis
  proof (cases "is")
    case Nil
    with len show ?thesis
      by (auto simp: SparseVec_new_def)
  next
    case (Cons i is')
    with len obtain v vs' where vs: "vs = v # vs'"
      by (cases vs) auto
    show ?thesis
    proof (cases "i < dim \<and> sparse_value v")
      case False
      then show ?thesis
        using len by (auto simp: SparseVec_new_def Cons vs)
    next
      case True
      then show ?thesis
        using SparseVec_new_Cons [of dim is' vs' i v sv] len unfolding Cons vs by (simp del: sort_key_simps)
    qed
  qed
qed

text \<open>
  C32: the sparse vector constructor accepts exactly the inputs whose indices are distinct and in
  range and whose values are finite and non-zero, and returns the pairs in index order; the
  shortcut for sorted input and the sorting path agree.
\<close>

theorem SparseVec_new_iff:
  "SparseVec_new is vs dim = Inr sv \<longleftrightarrow>
     unat dim \<le> MAX_VECTOR_DIMENSIONS \<and> length is = length vs \<and> distinct is \<and>
     list_all (\<lambda>i. i < dim) is \<and> list_all sparse_value vs \<and>
     (let ps = sort_key fst (zip is vs) in sv = SparseVec (map fst ps) (map snd ps) dim)"
  by (rule SparseVec_new_characterised)

end
