(* ===== verification/ValueCodec.thy ===== *)
theory ValueCodec
  imports Values
begin

text \<open>
  Correctness of the value serialization of \<open>src/core/property/value.rs\<close> and of its comparisons:
  what is written is read back, the size announced is the size written, the decoder stays inside
  its buffer and only builds values the encoder accepts, and \<open>semantically_equal\<close> is an
  equivalence that does not depend on sharing.
\<close>

section \<open>Reading what was written\<close>

lemma unat_of_nat_u32: "n < 2 ^ 32 \<Longrightarrow> unat (of_nat n :: u32) = n"
  by (simp add: unat_of_nat)

lemma length_write_u32s [simp, byte_simps]: "length (write_u32s ws) = 4 * length ws"
  by (induction ws) (simp_all add: write_u32s_def)

lemma length_len_u32 [simp, byte_simps]: "length (len_u32 n) = 4"
  by (simp add: len_u32_def)

lemma read_write_u32s [simp, byte_simps]: "read_u32s (length ws) (write_u32s ws @ rest) = ws"
  by (induction ws) (simp_all add: write_u32s_def)

lemma length_read_u32s [simp]: "length (read_u32s n bs) = n"
  by (induction n arbitrary: bs) auto

lemma write_read_u32s: "4 * n \<le> length bs \<Longrightarrow> write_u32s (read_u32s n bs) = take (4 * n) bs"
proof (induction n arbitrary: bs)
  case 0
  then show ?case by (simp add: write_u32s_def)
next
  case (Suc n)
  have "write_u32s (read_u32s (Suc n) bs) = take 4 bs @ write_u32s (read_u32s n (drop 4 bs))"
    using Suc.prems to_from_le_bytes_u32 [of "take 4 bs"] by (simp add: write_u32s_def)
  also have "\<dots> = take 4 bs @ take (4 * n) (drop 4 bs)"
    using Suc by simp
  also have "\<dots> = take (4 * Suc n) bs"
    by (metis add.commute mult_Suc_right take_add)
  finally show ?case .
qed

lemma read_u32_at [byte_simps]:
  "read_u32 1 (t # to_le_bytes 4 w @ rest) = w"
  "read_u32 (Suc 0) (t # to_le_bytes 4 w @ rest) = w"
  "length pre = n \<Longrightarrow> read_u32 n (pre @ to_le_bytes 4 w @ rest) = w"
  by (simp_all add: read_u32_def)

lemma read_u64_at [byte_simps]:
  "read_u64 (Suc 0) (t # to_le_bytes 8 w @ rest) = w"
  "length pre = n \<Longrightarrow> read_u64 n (pre @ to_le_bytes 8 w @ rest) = w"
  by (simp_all add: read_u64_def)

lemma read_len_u32 [byte_simps]:
  "n < 2 ^ 32 \<Longrightarrow> unat (read_u32 (Suc 0) (t # len_u32 n @ rest)) = n"
  by (simp add: len_u32_def read_u32_at unat_of_nat)

section \<open>Vectors\<close>

lemma vector_size_ok: "n \<le> MAX_VECTOR_DIMENSIONS \<Longrightarrow> n < 2 ^ 32 \<and> 9 + 8 * n < 2 ^ 64"
  by (simp add: MAX_VECTOR_DIMENSIONS_def)

lemma serialize_vector_Inr:
  "try_serialize_vector_into v = Inr bs \<longleftrightarrow>
     length v \<le> MAX_VECTOR_DIMENSIONS \<and> bs = TAG_VECTOR # len_u32 (length v) @ write_u32s v"
  by (auto simp: try_serialize_vector_into_def validate_vector_dimensions_def)

lemma deserialize_serialize_vector:
  assumes "try_serialize_vector_into v = Inr bs"
  shows "deserialize_vector (bs @ rest) = Inr (v, length bs)"
proof -
  note v = assms [unfolded serialize_vector_Inr]
  then have n: "length v < 2 ^ 32"
    using vector_size_ok by blast
  have "length v * 4 < 2 ^ 64" "5 + length v * 4 < 2 ^ 64"
    using v vector_size_ok [of "length v"] by auto
  then show ?thesis
    using v read_len_u32 [OF n]
    by (simp add: deserialize_vector_def validate_vector_dimensions_def usize_checked_mul_def
        usize_checked_add_def Let_def mult.commute)
qed

lemma deserialize_vector_Inr:
  assumes "deserialize_vector bs = Inr (v, n)"
  shows "n = 5 + 4 * length v \<and> n \<le> length bs \<and> length v \<le> MAX_VECTOR_DIMENSIONS"
  using assms
  by (auto simp: deserialize_vector_def validate_vector_dimensions_def usize_checked_mul_def
      usize_checked_add_def corrupted_def Let_def split: if_splits)

lemma SparseVec_new_wf: "sparse_wf sv \<Longrightarrow> SparseVec_new (indices sv) (sv_values sv) (dimension sv) = Inr sv"
proof -
  assume wf: "sparse_wf sv"
  then have zip: "sort_key fst (zip (indices sv) (sv_values sv)) = zip (indices sv) (sv_values sv)"
    by (intro sort_key_zip_sorted) (auto simp: sparse_wf_def)
  show ?thesis
    using wf strict_sorted_iff [of "indices sv"]
    by (simp add: SparseVec_new_characterised zip sparse_wf_def list_all_iff Let_def)
qed

lemma sorted_key_wf:
  assumes "SparseVec_new is vs dim = Inr sv"
  shows "sparse_wf sv \<and> length (indices sv) = length is \<and> dimension sv = dim"
proof -
  let ?ps = "sort_key fst (zip is vs)"
  note new = assms [unfolded SparseVec_new_characterised Let_def]
  have "distinct (map fst ?ps)"
    using new distinct_sort_key [of fst "zip is vs"] by simp
  then have "sorted_wrt (<) (map fst ?ps)"
    by (simp add: strict_sorted_iff sorted_sort_key)
  moreover have "\<forall>(j, u) \<in> set ?ps. j < dim \<and> sparse_value u"
    using new all_zip [of "is" vs "\<lambda>j. j < dim" sparse_value] by (simp add: list_all_iff)
  ultimately show ?thesis
    using new by (auto simp: sparse_wf_def)
qed

lemma sparse_wf_nnz: "sparse_wf sv \<Longrightarrow> length (indices sv) \<le> unat (dimension sv)"
proof -
  assume wf: "sparse_wf sv"
  then have "distinct (map unat (indices sv))"
    by (auto simp: sparse_wf_def strict_sorted_iff distinct_map inj_on_def word_unat_eq_iff)
  moreover have "set (map unat (indices sv)) \<subseteq> {..< unat (dimension sv)}"
    using wf by (auto simp: sparse_wf_def word_less_nat_alt)
  then have "card (set (map unat (indices sv))) \<le> card {..< unat (dimension sv)}"
    by (intro card_mono) auto
  ultimately show ?thesis
    using distinct_card [of "map unat (indices sv)"] by simp
qed

lemma length_serialize_sparse:
  "sparse_wf sv \<Longrightarrow> length (serialize_sparse_vector_into sv) = 9 + 8 * nnz sv"
  by (simp add: serialize_sparse_vector_into_def sparse_wf_def nnz_def)

lemma drop_prefix: "length pre = n \<Longrightarrow> drop n (pre @ r) = r"
  by simp

lemma drop_header: "drop 8 (to_le_bytes 4 d @ len_u32 n @ rest) = rest"
  by simp

lemma deserialize_serialize_sparse:
  assumes "sparse_wf sv"
  shows "deserialize_sparse_vector (serialize_sparse_vector_into sv @ rest) =
    Inr (sv, length (serialize_sparse_vector_into sv))"
proof -
  let ?n = "length (indices sv)"
  have n: "?n \<le> unat (dimension sv)" "?n \<le> MAX_VECTOR_DIMENSIONS" "length (sv_values sv) = ?n"
    using assms sparse_wf_nnz [OF assms] by (auto simp: sparse_wf_def)
  then have small: "?n < 2 ^ 32" "9 + 8 * ?n < 2 ^ 64"
    using vector_size_ok by blast+
  have n_read: "unat (read_u32 5 (TAG_SPARSE_VECTOR # to_le_bytes 4 (dimension sv) @ len_u32 ?n @ r)) = ?n"
    for r
    using read_u32_at(3) [of "TAG_SPARSE_VECTOR # to_le_bytes 4 (dimension sv)" 5] small(1)
    by (simp add: len_u32_def unat_of_nat_u32)
  have idx: "read_u32s ?n (write_u32s (indices sv) @ r) = indices sv" for r
    by simp
  have vals: "read_u32s ?n (write_u32s (sv_values sv) @ r) = sv_values sv" for r
    using n(3) read_write_u32s [of "sv_values sv" r] by simp
  have checked: "usize_checked_mul ?n 4 = Some (4 * ?n)"
    "Option.bind (usize_checked_add 9 (4 * ?n)) (\<lambda>x. usize_checked_add x (4 * ?n)) = Some (9 + 8 * ?n)"
    using small by (simp_all add: usize_checked_mul_def usize_checked_add_def)
  have drop2: "drop (9 + 4 * ?n) (t # to_le_bytes 4 d @ len_u32 k @ write_u32s (indices sv) @ r) = r"
    for t k r and d :: u32
    using drop_prefix [of "t # to_le_bytes 4 d @ len_u32 k @ write_u32s (indices sv)" "9 + 4 * ?n" r]
    by simp
  show ?thesis
    using assms n
    by (simp add: deserialize_sparse_vector_def serialize_sparse_vector_into_def nnz_def n_read
        validate_vector_dimensions_def checked drop2 idx vals SparseVec_new_wf Let_def
        read_u32_at drop_header del: drop_append)
qed

lemma deserialize_sparse_Inr:
  assumes "deserialize_sparse_vector bs = Inr (sv, n)"
  shows "sparse_wf sv \<and> n = 9 + 8 * nnz sv \<and> n \<le> length bs"
  using assms sorted_key_wf
  by (auto simp: deserialize_sparse_vector_def validate_vector_dimensions_def usize_checked_mul_def
      usize_checked_add_def corrupted_def nnz_def Let_def split: if_splits sum.splits option.splits)

section \<open>Values\<close>

text \<open>
  The values the encoder can represent: lengths fit the 32-bit length fields, strings are UTF-8,
  arrays stay below the decoder's limit and sparse vectors are what their constructor builds.
  Nesting depth and dense vector length are checked by the encoder itself.
\<close>

fun value_ok :: "PropertyValue \<Rightarrow> bool" where
  "value_ok (String s) \<longleftrightarrow> utf8_valid s \<and> length s < 2 ^ 32"
| "value_ok (Bytes b) \<longleftrightarrow> length b < 2 ^ 32"
| "value_ok (Array vs) \<longleftrightarrow> length vs \<le> MAX_ARRAY_ELEMENTS \<and> list_all value_ok vs"
| "value_ok (SparseVector sv) \<longleftrightarrow> sparse_wf sv"
| "value_ok _ \<longleftrightarrow> True"

lemma serialize_nonempty: "serialize_recursive depth v = Inr bs \<Longrightarrow> 0 < length bs"
  by (subst (asm) serialize_recursive.simps)
    (auto simp: corrupted_def serialize_vector_Inr serialize_sparse_vector_into_def
      split: if_splits PropertyValue.splits sum.splits)

lemma serialize_items_Cons:
  "serialize_items depth (v # vs) = Inr bs \<longleftrightarrow>
     (\<exists>b c. serialize_recursive depth v = Inr b \<and> serialize_items depth vs = Inr c \<and> bs = b @ c)"
  by (auto split: sum.splits)

lemma serialize_items_length: "serialize_items depth vs = Inr bs \<Longrightarrow> length vs \<le> length bs"
proof (induction vs arbitrary: bs)
  case (Cons v vs)
  then obtain b c where "serialize_recursive depth v = Inr b" "length vs \<le> length c" "bs = b @ c"
    unfolding serialize_items_Cons by blast
  then show ?case
    using serialize_nonempty [of depth v b] by (cases b) auto
qed simp

lemma array_count_small: "n \<le> MAX_ARRAY_ELEMENTS \<Longrightarrow> n < 2 ^ 32"
  by (simp add: MAX_ARRAY_ELEMENTS_def)

lemma deserialize_string_prefix:
  assumes "length s < 2 ^ 32"
  shows "deserialize_string (TAG_STRING # len_u32 (length s) @ s @ rest) =
      (if utf8_valid s then Inr (String s, 5 + length s) else corrupted)"
    "deserialize_bytes (TAG_BYTES # len_u32 (length s) @ s @ rest) = Inr (Bytes s, 5 + length s)"
  using assms read_len_u32 [OF assms]
  by (simp_all add: deserialize_string_def deserialize_bytes_def usize_checked_add_def Let_def)

lemma serialize_depth: "serialize_recursive depth v = Inr bs \<Longrightarrow> depth \<le> MAX_RECURSION_DEPTH"
  by (subst (asm) serialize_recursive.simps) (auto simp: corrupted_def split: if_splits)

lemma serialize_by_constructor:
  assumes "depth \<le> MAX_RECURSION_DEPTH"
  shows "serialize_recursive depth Null = Inr [TAG_NULL]"
    "serialize_recursive depth (Bool b) = Inr [TAG_BOOL, if b then 1 else 0]"
    "serialize_recursive depth (IntV i) = Inr (TAG_INT # to_le_bytes 8 i)"
    "serialize_recursive depth (Float f) = Inr (TAG_FLOAT # to_le_bytes 8 f)"
    "serialize_recursive depth (String s) = Inr (TAG_STRING # len_u32 (length s) @ s)"
    "serialize_recursive depth (Bytes s) = Inr (TAG_BYTES # len_u32 (length s) @ s)"
    "serialize_recursive depth (Vector v) = try_serialize_vector_into v"
    "serialize_recursive depth (SparseVector sv) = Inr (serialize_sparse_vector_into sv)"
    "serialize_recursive depth (Array vs) = Inr bs \<longleftrightarrow>
      (\<exists>items. serialize_items (Suc depth) vs = Inr items \<and>
        bs = TAG_ARRAY # len_u32 (length vs) @ items)"
  using assms by (auto simp: serialize_recursive.simps split: sum.splits)

lemma deserialize_by_tag:
  assumes "depth \<le> MAX_RECURSION_DEPTH"
  shows "deserialize_recursive (TAG_NULL # bs) depth = Inr (Null, 1)"
    "deserialize_recursive (TAG_BOOL # bs) depth = deserialize_bool (TAG_BOOL # bs)"
    "deserialize_recursive (TAG_INT # bs) depth = deserialize_int (TAG_INT # bs)"
    "deserialize_recursive (TAG_FLOAT # bs) depth = deserialize_float (TAG_FLOAT # bs)"
    "deserialize_recursive (TAG_STRING # bs) depth = deserialize_string (TAG_STRING # bs)"
    "deserialize_recursive (TAG_BYTES # bs) depth = deserialize_bytes (TAG_BYTES # bs)"
    "deserialize_recursive (TAG_VECTOR # bs) depth =
      map_sum id (map_prod Vector id) (deserialize_vector (TAG_VECTOR # bs))"
    "deserialize_recursive (TAG_SPARSE_VECTOR # bs) depth =
      map_sum id (map_prod SparseVector id) (deserialize_sparse_vector (TAG_SPARSE_VECTOR # bs))"
  using assms by (simp_all add: deserialize_recursive.simps tag_defs split: sum.split)

lemma deserialize_array_tag:
  assumes "depth \<le> MAX_RECURSION_DEPTH" "n \<le> MAX_ARRAY_ELEMENTS" "n \<le> length bs"
    "deserialize_items (TAG_ARRAY # len_u32 n @ bs) 5 n depth = Inr (vs, k)"
  shows "deserialize_recursive (TAG_ARRAY # len_u32 n @ bs) depth = Inr (Array vs, k)"
proof -
  have n: "unat (read_u32 (Suc 0) (TAG_ARRAY # len_u32 n @ bs)) = n"
    using read_len_u32 array_count_small [OF assms(2)] by blast
  have tag: "TAG_ARRAY \<noteq> TAG_NULL" "TAG_ARRAY \<noteq> TAG_BOOL" "TAG_ARRAY \<noteq> TAG_INT"
    "TAG_ARRAY \<noteq> TAG_FLOAT" "TAG_ARRAY \<noteq> TAG_STRING" "TAG_ARRAY \<noteq> TAG_BYTES"
    by (simp_all add: tag_defs)
  show ?thesis
    using assms n tag by (subst deserialize_recursive.simps) (simp add: Let_def)
qed

lemma deserialize_leaf:
  assumes "\<And>vs. v \<noteq> Array vs" "value_ok v" "serialize_recursive depth v = Inr bs"
  shows "deserialize_recursive (bs @ rest) depth = Inr (v, length bs)"
proof -
  note depth = serialize_depth [OF assms(3)]
  note simps = serialize_by_constructor [OF depth] deserialize_by_tag [OF depth]
  show ?thesis
  proof (cases v)
    case (Vector x)
    then have "try_serialize_vector_into x = Inr bs"
      using assms(3) simps by simp
    then show ?thesis
      using deserialize_serialize_vector [of x bs rest] simps Vector
      by (auto simp: serialize_vector_Inr)
  next
    case (SparseVector x)
    then show ?thesis
      using deserialize_serialize_sparse [of x rest] assms simps
      by (auto simp: serialize_sparse_vector_into_def)
  qed (use assms simps in \<open>auto simp: deserialize_bool_def deserialize_int_def deserialize_float_def
        deserialize_string_prefix read_u64_at\<close>)
qed

lemma deserialize_serialize_items:
  assumes "\<And>v d bs rest. v \<in> set vs \<Longrightarrow> serialize_recursive d v = Inr bs \<Longrightarrow>
      deserialize_recursive (bs @ rest) d = Inr (v, length bs)"
    and "serialize_items (Suc depth) vs = Inr items"
  shows "deserialize_items (pre @ items @ rest) (length pre) (length vs) depth =
    Inr (vs, length pre + length items)"
  using assms
proof (induction vs arbitrary: items pre)
  case Nil
  then show ?case by simp
next
  case (Cons v vs)
  obtain b c where bc: "serialize_recursive (Suc depth) v = Inr b" "serialize_items (Suc depth) vs = Inr c"
    "items = b @ c"
    using Cons.prems(2) unfolding serialize_items_Cons by blast
  have b: "b \<noteq> []" "deserialize_recursive (b @ c @ rest) (Suc depth) = Inr (v, length b)"
    using serialize_nonempty [OF bc(1)] Cons.prems(1) [OF _ bc(1), of "c @ rest"] by auto
  have "deserialize_items ((pre @ b) @ c @ rest) (length (pre @ b)) (length vs) depth =
      Inr (vs, length (pre @ b) + length c)"
    using Cons.prems(1) by (intro Cons.IH bc(2)) auto
  then show ?case
    using b bc by simp
qed

lemma deserialize_serialize:
  "value_ok v \<Longrightarrow> serialize_recursive depth v = Inr bs \<Longrightarrow>
     deserialize_recursive (bs @ rest) depth = Inr (v, length bs)"
proof (induction v arbitrary: depth bs rest)
  case (Array vs)
  note depth = serialize_depth [OF Array.prems(2)]
  obtain items where items: "serialize_items (Suc depth) vs = Inr items"
    "bs = TAG_ARRAY # len_u32 (length vs) @ items"
    using Array.prems(2) serialize_by_constructor(9) [OF depth] by blast
  have ok: "length vs \<le> MAX_ARRAY_ELEMENTS" "list_all value_ok vs"
    using Array.prems(1) by auto
  have "deserialize_items ((TAG_ARRAY # len_u32 (length vs)) @ items @ rest)
      (length (TAG_ARRAY # len_u32 (length vs))) (length vs) depth =
      Inr (vs, length (TAG_ARRAY # len_u32 (length vs)) + length items)"
    using ok by (intro deserialize_serialize_items Array.IH items(1)) (auto simp: list_all_iff)
  then show ?case
    using deserialize_array_tag [OF depth ok(1), of "items @ rest" vs "5 + length items"]
      serialize_items_length [OF items(1)] items(2) by simp
qed (rule deserialize_leaf; simp)+

section \<open>Announced size\<close>

lemma size_items_Cons:
  "serialized_size_items depth (v # vs) = Inr n \<longleftrightarrow>
     (\<exists>a b. serialized_size_recursive depth v = Inr a \<and> serialized_size_items depth vs = Inr b \<and> n = a + b)"
  by (auto split: sum.splits)

lemma size_items_exact:
  assumes "\<And>v d bs. v \<in> set vs \<Longrightarrow> serialize_recursive d v = Inr bs \<Longrightarrow>
      serialized_size_recursive d v = Inr (length bs)"
    and "serialize_items depth vs = Inr items"
  shows "serialized_size_items depth vs = Inr (length items)"
  using assms
proof (induction vs arbitrary: items)
  case (Cons v vs)
  obtain b c where bc: "serialize_recursive depth v = Inr b" "serialize_items depth vs = Inr c"
    "items = b @ c"
    using Cons.prems(2) unfolding serialize_items_Cons by blast
  then have "serialized_size_recursive depth v = Inr (length b)"
    "serialized_size_items depth vs = Inr (length c)"
    using Cons by auto
  then show ?case
    using bc by simp
qed simp

lemma size_exact:
  "value_ok v \<Longrightarrow> serialize_recursive depth v = Inr bs \<Longrightarrow>
     serialized_size_recursive depth v = Inr (length bs)"
proof (induction v arbitrary: depth bs)
  case (Array vs)
  note depth = serialize_depth [OF Array.prems(2)]
  obtain items where items: "serialize_items (Suc depth) vs = Inr items"
    "bs = TAG_ARRAY # len_u32 (length vs) @ items"
    using Array.prems(2) serialize_by_constructor(9) [OF depth] by blast
  have "serialized_size_items (Suc depth) vs = Inr (length items)"
    using Array.prems(1) by (intro size_items_exact [OF Array.IH items(1)]) (auto simp: list_all_iff)
  then show ?case
    using items depth by (simp add: serialized_size_recursive.simps)
next
  case (SparseVector sv)
  then show ?case
    using serialize_depth [OF SparseVector.prems(2)] length_serialize_sparse [of sv]
    by (auto simp: serialized_size_recursive.simps serialize_by_constructor)
qed (use serialize_depth in \<open>force simp: serialized_size_recursive.simps serialize_by_constructor
      serialize_vector_Inr\<close>)+

text \<open>
  C25: a property value that serializes is read back exactly, from any position of a longer
  buffer, and the number of bytes consumed is the number written and the size announced
  beforehand. Float bits, NaN payloads included, are preserved.
\<close>

theorem value_roundtrip:
  assumes "value_ok v" "value_serialize v = Inr bs"
  shows "value_deserialize (bs @ rest) = Inr (v, length bs) \<and> serialized_size v = Inr (length bs)"
proof -
  have "serialize_recursive 0 v = Inr bs"
    using assms(2) by (auto simp: value_serialize_def value_serialize_into_def corrupted_def
        split: sum.splits)
  then show ?thesis
    using deserialize_serialize [OF assms(1)] size_exact [OF assms(1)]
    by (simp add: value_deserialize_def serialized_size_def)
qed

definition demo_value :: PropertyValue where
  "demo_value = Array [String [0xC3, 0xA9], Vector [0x7FC00001], Null,
     SparseVector (SparseVec [1, 4] [0x3F800000, 0x40000000] 9)]"

theorem value_roundtrip_witness:
  "\<exists>bs. value_serialize demo_value = Inr bs \<and> value_deserialize (bs @ [7]) = Inr (demo_value, length bs)"
proof -
  have ok: "value_ok demo_value"
    by (simp add: demo_value_def sparse_wf_def sparse_value_def f32_is_nan_def f32_is_infinite_def
        f32_is_zero_def MAX_VECTOR_DIMENSIONS_def MAX_ARRAY_ELEMENTS_def utf8_cont_def)
  obtain bs where "value_serialize demo_value = Inr bs"
    by (simp add: value_serialize_def value_serialize_into_def serialized_size_def demo_value_def
        serialize_recursive.simps serialized_size_recursive.simps MAX_RECURSION_DEPTH_def
        try_serialize_vector_into_def validate_vector_dimensions_def MAX_VECTOR_DIMENSIONS_def)
  with value_roundtrip [OF ok this, of "[7]"] show ?thesis
    by blast
qed

section \<open>Decoding arbitrary bytes\<close>

lemma deserialize_string_Inr:
  assumes "deserialize_string bs = Inr (v, n)"
  shows "\<exists>s. v = String s \<and> value_ok v \<and> 0 < n \<and> n \<le> length bs"
proof -
  let ?s = "take (unat (read_u32 1 bs)) (drop 5 bs)"
  have "length ?s < 2 ^ 32"
    using unat32_less [of "read_u32 1 bs"] by simp
  then show ?thesis
    using assms
    by (auto simp: deserialize_string_def usize_checked_add_def corrupted_def Let_def
        split: if_splits option.splits)
qed

lemma deserialize_bytes_Inr:
  assumes "deserialize_bytes bs = Inr (v, n)"
  shows "\<exists>b. v = Bytes b \<and> value_ok v \<and> 0 < n \<and> n \<le> length bs"
proof -
  have "length (take (unat (read_u32 1 bs)) (drop 5 bs)) < 2 ^ 32"
    using unat32_less [of "read_u32 1 bs"] by simp
  then show ?thesis
    using assms
    by (auto simp: deserialize_bytes_def usize_checked_add_def corrupted_def Let_def
        split: if_splits option.splits)
qed

text \<open>What holds of a value the decoder returns at a depth, and of the elements of an array.\<close>

definition decoded :: "nat \<Rightarrow> PropertyValue \<Rightarrow> bool" where
  "decoded depth v \<longleftrightarrow> value_ok v \<and> (\<exists>bs. serialize_recursive depth v = Inr bs)"

lemma decoded_items:
  "list_all (decoded depth) vs \<Longrightarrow> \<exists>bs. serialize_items depth vs = Inr bs"
  by (induction vs) (auto simp: decoded_def)

lemma decoded_leaves:
  assumes depth: "depth \<le> MAX_RECURSION_DEPTH"
  shows "decoded depth Null"
    "deserialize_bool bs = Inr (v, n) \<Longrightarrow> decoded depth v \<and> 0 < n \<and> n \<le> length bs"
    "deserialize_int bs = Inr (v, n) \<Longrightarrow> decoded depth v \<and> 0 < n \<and> n \<le> length bs"
    "deserialize_float bs = Inr (v, n) \<Longrightarrow> decoded depth v \<and> 0 < n \<and> n \<le> length bs"
    "deserialize_string bs = Inr (v, n) \<Longrightarrow> decoded depth v \<and> 0 < n \<and> n \<le> length bs"
    "deserialize_bytes bs = Inr (v, n) \<Longrightarrow> decoded depth v \<and> 0 < n \<and> n \<le> length bs"
    "deserialize_vector bs = Inr (w, n) \<Longrightarrow> decoded depth (Vector w) \<and> 0 < n \<and> n \<le> length bs"
    "deserialize_sparse_vector bs = Inr (sv, n) \<Longrightarrow>
      decoded depth (SparseVector sv) \<and> 0 < n \<and> n \<le> length bs"
  using deserialize_string_Inr [of bs v n] deserialize_bytes_Inr [of bs v n]
    deserialize_vector_Inr [of bs w n] deserialize_sparse_Inr [of bs sv n]
  by (auto simp: decoded_def serialize_by_constructor [OF depth] serialize_vector_Inr corrupted_def
      deserialize_bool_def deserialize_int_def deserialize_float_def split: if_splits)

lemma deserialize_cases:
  assumes "deserialize_recursive bs depth = Inr (v, n)"
  obtains (leaf) "decoded depth v" "0 < n" "n \<le> length bs"
  | (array) vs where "depth \<le> MAX_RECURSION_DEPTH" "v = Array vs" "5 \<le> length bs"
      "unat (read_u32 1 bs) \<le> MAX_ARRAY_ELEMENTS"
      "deserialize_items bs 5 (unat (read_u32 1 bs)) depth = Inr (vs, n)"
proof -
  have depth: "depth \<le> MAX_RECURSION_DEPTH"
    using assms by (subst (asm) deserialize_recursive.simps) (auto simp: corrupted_def
        split: if_splits)
  show ?thesis
    using assms depth leaf array
    by (subst (asm) deserialize_recursive.simps)
      (auto simp: corrupted_def Let_def decoded_leaves(1) split: if_splits sum.splits prod.splits
        list.splits dest: decoded_leaves(2-) [OF depth])
qed

lemma deserialize_items_sound:
  assumes "\<And>k v n. 0 < k \<Longrightarrow> k < length bs \<Longrightarrow>
      deserialize_recursive (drop k bs) (Suc depth) = Inr (v, n) \<Longrightarrow>
      decoded (Suc depth) v \<and> n \<le> length bs - k"
    and "0 < offset" "offset \<le> length bs"
    and "deserialize_items bs offset count depth = Inr (vs, k)"
  shows "list_all (decoded (Suc depth)) vs \<and> length vs = count \<and> offset \<le> k \<and> k \<le> length bs"
  using assms(2-)
proof (induction count arbitrary: offset vs)
  case 0
  then show ?case by simp
next
  case (Suc count)
  then have less: "offset < length bs"
    by (auto simp: corrupted_def split: if_splits)
  with Suc.prems(3) obtain v n vs' where
    item: "deserialize_recursive (drop offset bs) (Suc depth) = Inr (v, n)"
    and items: "deserialize_items bs (offset + n) count depth = Inr (vs', k)" "vs = v # vs'"
    by (auto split: if_splits sum.splits)
  have "decoded (Suc depth) v" "offset + n \<le> length bs"
    using assms(1) [OF Suc.prems(1) less item] less by auto
  with Suc.IH [OF _ _ items(1)] Suc.prems items(2) show ?case
    by auto
qed

lemma deserialize_sound:
  "deserialize_recursive bs depth = Inr (v, n) \<Longrightarrow> decoded depth v \<and> 0 < n \<and> n \<le> length bs"
proof (induction "length bs" arbitrary: bs depth v n rule: less_induct)
  case less
  from less.prems show ?case
  proof (cases rule: deserialize_cases)
    case (array vs)
    have step: "decoded (Suc depth) w \<and> m \<le> length bs - k"
      if "0 < k" "k < length bs" "deserialize_recursive (drop k bs) (Suc depth) = Inr (w, m)" for k w m
      using less.hyps [OF _ that(3)] that by simp
    have vs: "list_all (decoded (Suc depth)) vs \<and> length vs = unat (read_u32 1 bs) \<and>
        5 \<le> n \<and> n \<le> length bs"
      by (rule deserialize_items_sound [OF step _ array(3,5)]) simp_all
    obtain items where "serialize_items (Suc depth) vs = Inr items"
      using decoded_items vs by blast
    then have "decoded depth v"
      using vs array serialize_by_constructor(9) [OF array(1)]
      by (auto simp: decoded_def list_all_iff)
    with vs show ?thesis
      by simp
  qed simp
qed

text \<open>
  C26: the decoder never leaves its buffer. Whatever the bytes, a value it returns was read from
  between one and all of them; its nesting, lengths and strings are within the limits; and it can
  be serialized again, which yields bytes that decode to the same value.
\<close>

theorem value_decode_sound:
  assumes "value_deserialize bs = Inr (v, n)"
  shows "0 < n \<and> n \<le> length bs \<and> value_ok v \<and>
    (\<exists>out. value_serialize v = Inr out \<and> value_deserialize out = Inr (v, length out))"
proof -
  from assms have d: "decoded 0 v" "0 < n" "n \<le> length bs"
    using deserialize_sound by (auto simp: value_deserialize_def)
  then obtain out where out: "serialize_recursive 0 v = Inr out" "value_ok v"
    by (auto simp: decoded_def)
  then have "value_serialize v = Inr out"
    using size_exact by (simp add: value_serialize_def value_serialize_into_def serialized_size_def)
  moreover have "value_deserialize out = Inr (v, length out)"
    using deserialize_serialize [OF out(2,1), of "[]"] by (simp add: value_deserialize_def)
  ultimately show ?thesis
    using d out by blast
qed

theorem value_decode_sound_witness:
  "value_deserialize [TAG_BOOL, 5, 9] = Inr (Bool True, 2) \<and>
     (\<exists>out. value_serialize (Bool True) = Inr out \<and> value_deserialize out = Inr (Bool True, length out))"
proof -
  have "value_deserialize [TAG_BOOL, 5, 9] = Inr (Bool True, 2)"
    by (simp add: value_deserialize_def deserialize_by_tag deserialize_bool_def)
  with value_decode_sound [OF this] show ?thesis
    by blast
qed

lemma serialize_nulls:
  "depth \<le> MAX_RECURSION_DEPTH \<Longrightarrow> serialize_items depth (replicate n Null) = Inr (replicate n TAG_NULL)"
  by (induction n) (simp_all add: serialize_by_constructor)

lemma size_nulls:
  "depth \<le> MAX_RECURSION_DEPTH \<Longrightarrow> serialized_size_items depth (replicate n Null) = Inr n"
  by (induction n) (simp_all add: serialized_size_recursive.simps)

lemma serialize_null_array:
  "value_serialize (Array (replicate n Null)) = Inr (TAG_ARRAY # len_u32 n @ replicate n TAG_NULL)"
proof -
  have d: "Suc 0 \<le> MAX_RECURSION_DEPTH"
    by (simp add: MAX_RECURSION_DEPTH_def)
  have "serialize_recursive 0 (Array (replicate n Null)) =
      Inr (TAG_ARRAY # len_u32 n @ replicate n TAG_NULL)"
    using serialize_nulls [OF d, of n] by (subst serialize_by_constructor(9)) simp_all
  moreover have "serialized_size (Array (replicate n Null)) = Inr (5 + n)"
    using size_nulls [OF d, of n] by (simp add: serialized_size_def serialized_size_recursive.simps)
  ultimately show ?thesis
    by (simp add: value_serialize_def value_serialize_into_def)
qed

lemma deserialize_array_over:
  assumes "MAX_ARRAY_ELEMENTS < n" "n < 2 ^ 32"
  shows "value_deserialize (TAG_ARRAY # len_u32 n @ bs) = Inl (StorageErr CorruptedData)"
proof -
  have "TAG_ARRAY \<noteq> TAG_NULL" "TAG_ARRAY \<noteq> TAG_BOOL" "TAG_ARRAY \<noteq> TAG_INT"
    "TAG_ARRAY \<noteq> TAG_FLOAT" "TAG_ARRAY \<noteq> TAG_STRING" "TAG_ARRAY \<noteq> TAG_BYTES"
    by (simp_all add: tag_defs)
  then show ?thesis
    using assms read_len_u32 [OF assms(2), of TAG_ARRAY bs]
    by (simp add: value_deserialize_def deserialize_recursive.simps corrupted_def Let_def)
qed

text \<open>
  C33: the encoder has no counterpart of the decoder's element limit. An array of one element more
  than the limit serializes without an error, and the bytes do not decode.
\<close>

theorem oversized_array_not_readable:
  "\<exists>bs. value_serialize (Array (replicate (MAX_ARRAY_ELEMENTS + 1) Null)) = Inr bs \<and>
     value_deserialize bs = Inl (StorageErr CorruptedData)"
  by (intro exI conjI, rule serialize_null_array, rule deserialize_array_over)
    (simp_all add: MAX_ARRAY_ELEMENTS_def)

end
