(* ===== verification/ValueEq.thy ===== *)
theory ValueEq
  imports ValueCodec
begin

text \<open>
  \<open>semantically_equal\<close> of \<open>src/core/property/value.rs\<close> against a structural definition: the
  stack loop decides it, sharing of allocations does not change its answer, and it is an
  equivalence on the values the constructors build.
\<close>

definition f64_same :: "f64 \<Rightarrow> f64 \<Rightarrow> bool" where
  "f64_same a b \<longleftrightarrow> (if f64_is_nan a then f64_is_nan b else f64_eq a b)"

definition f32_same :: "f32 \<Rightarrow> f32 \<Rightarrow> bool" where
  "f32_same a b \<longleftrightarrow> (if f32_is_nan a then f32_is_nan b else f32_eq a b)"

fun sem_eq :: "PropertyValue \<Rightarrow> PropertyValue \<Rightarrow> bool" where
  "sem_eq (Float a) (Float b) \<longleftrightarrow> f64_same a b"
| "sem_eq (Vector a) (Vector b) \<longleftrightarrow> list_all2 f32_same a b"
| "sem_eq (Array a) (Array b) \<longleftrightarrow> list_all2 sem_eq a b"
| "sem_eq (SparseVector a) (SparseVector b) \<longleftrightarrow> sparse_eq a b"
| "sem_eq a b \<longleftrightarrow> a = b"

section \<open>An equivalence\<close>

lemma f64_same_refl [simp]: "f64_same a a"
  by (simp add: f64_same_def f64_eq_def)

lemma f64_same_sym: "f64_same a b \<Longrightarrow> f64_same b a"
  by (auto simp: f64_same_def f64_eq_def split: if_splits)

lemma f64_same_trans: "f64_same a b \<Longrightarrow> f64_same b c \<Longrightarrow> f64_same a c"
  by (auto simp: f64_same_def f64_eq_def split: if_splits)

lemma f32_same_refl [simp]: "f32_same a a"
  by (simp add: f32_same_def f32_eq_def)

lemma f32_same_sym: "f32_same a b \<Longrightarrow> f32_same b a"
  by (auto simp: f32_same_def f32_eq_def split: if_splits)

lemma f32_same_trans: "f32_same a b \<Longrightarrow> f32_same b c \<Longrightarrow> f32_same a c"
  by (auto simp: f32_same_def f32_eq_def split: if_splits)

lemma f32_eq_sym: "f32_eq a b \<Longrightarrow> f32_eq b a"
  by (auto simp: f32_eq_def)

lemma f32_eq_trans: "f32_eq a b \<Longrightarrow> f32_eq b c \<Longrightarrow> f32_eq a c"
  by (auto simp: f32_eq_def)

lemma f32_eq_same: "f32_eq a b \<Longrightarrow> f32_same a b"
  by (auto simp: f32_eq_def f32_same_def)

lemma list_all2_sym_ih:
  "list_all2 P xs ys \<Longrightarrow> (\<And>x y. x \<in> set xs \<Longrightarrow> P x y \<Longrightarrow> P y x) \<Longrightarrow> list_all2 P ys xs"
  by (simp add: list_all2_conv_all_nth)

lemma list_all2_trans_ih:
  "list_all2 P xs ys \<Longrightarrow> list_all2 P ys zs \<Longrightarrow>
     (\<And>x y z. x \<in> set xs \<Longrightarrow> P x y \<Longrightarrow> P y z \<Longrightarrow> P x z) \<Longrightarrow> list_all2 P xs zs"
  unfolding list_all2_conv_all_nth by (metis nth_mem)

lemma list_all2_refl_ih: "(\<And>x. x \<in> set xs \<Longrightarrow> P x x) \<Longrightarrow> list_all2 P xs xs"
  by (simp add: list_all2_conv_all_nth)

lemma sparse_eq_refl: "sparse_wf sv \<Longrightarrow> sparse_eq sv sv"
  by (auto simp: sparse_eq_def sparse_wf_def sparse_value_def f32_eq_def intro: list_all2_refl_ih)

lemma sparse_eq_sym: "sparse_eq a b \<Longrightarrow> sparse_eq b a"
  by (auto simp: sparse_eq_def intro: list_all2_sym_ih f32_eq_sym)

lemma sparse_eq_trans: "sparse_eq a b \<Longrightarrow> sparse_eq b c \<Longrightarrow> sparse_eq a c"
  by (auto simp: sparse_eq_def intro: list_all2_trans_ih f32_eq_trans)

lemma sem_eq_refl: "value_ok v \<Longrightarrow> sem_eq v v"
  by (induction v) (auto simp: list_all_iff intro: list_all2_refl_ih sparse_eq_refl)

lemma sem_eq_sym: "sem_eq a b \<Longrightarrow> sem_eq b a"
proof (induction a b rule: sem_eq.induct)
  case (3 a b)
  then show ?case
    by (auto simp: list_all2_conv_all_nth)
qed (auto intro: f64_same_sym list_all2_sym_ih f32_same_sym sparse_eq_sym)

lemma sem_eq_inv:
  "sem_eq (Float x) v \<longleftrightarrow> (\<exists>y. v = Float y \<and> f64_same x y)"
  "sem_eq (Vector xs) v \<longleftrightarrow> (\<exists>ys. v = Vector ys \<and> list_all2 f32_same xs ys)"
  "sem_eq (Array vs) v \<longleftrightarrow> (\<exists>us. v = Array us \<and> list_all2 sem_eq vs us)"
  "sem_eq (SparseVector sv) v \<longleftrightarrow> (\<exists>sw. v = SparseVector sw \<and> sparse_eq sv sw)"
  by (cases v; simp)+

lemma f32s_trans: "list_all2 f32_same xs ys \<Longrightarrow> list_all2 f32_same ys zs \<Longrightarrow> list_all2 f32_same xs zs"
  by (rule list_all2_trans_ih) (auto elim: f32_same_trans)

lemma sem_eq_trans: "sem_eq a b \<Longrightarrow> sem_eq b c \<Longrightarrow> sem_eq a c"
proof (induction a arbitrary: b c)
  case (Array vs)
  then obtain us ws where us: "b = Array us" "c = Array ws" "list_all2 sem_eq vs us" "list_all2 sem_eq us ws"
    by (auto simp: sem_eq_inv)
  have "list_all2 sem_eq vs ws"
    by (rule list_all2_trans_ih [OF us(3,4)]) (rule Array.IH)
  with us show ?case
    by simp
qed (auto simp: sem_eq_inv; blast intro: f64_same_trans sparse_eq_trans f32s_trans)+

section \<open>The stack loop\<close>

text \<open>Comparing the top pair and then the rest of the stack.\<close>

definition stack_eq :: "pair_stack \<Rightarrow> bool" where
  "stack_eq st \<longleftrightarrow> list_all (\<lambda>(a, b). sem_eq a b) st"

definition stack_ok :: "pair_stack \<Rightarrow> bool" where
  "stack_ok st \<longleftrightarrow> list_all (\<lambda>(a, b). value_ok a \<and> value_ok b) st"

lemma stack_eq_zip: "length xs = length ys \<Longrightarrow> stack_eq (rev (zip xs ys)) \<longleftrightarrow> list_all2 sem_eq xs ys"
  by (simp add: stack_eq_def list_all2_iff list_all_iff)

lemma stack_ok_zip: "list_all value_ok xs \<Longrightarrow> list_all value_ok ys \<Longrightarrow> stack_ok (rev (zip xs ys))"
  by (auto simp: stack_ok_def list_all_iff dest: set_zip_leftD set_zip_rightD)

lemma value_eq_leaf:
  assumes "\<And>x y. same x y \<Longrightarrow> x = y" "value_ok a"
    and "\<And>x y. \<not> (a = Float x \<and> b = Float y)" "\<And>x y. \<not> (a = Vector x \<and> b = Vector y)"
      "\<And>x y. \<not> (a = Array x \<and> b = Array y)"
  shows "value_eq same a b \<longleftrightarrow> sem_eq a b"
  using assms(2-) assms(1) [of a b] sparse_eq_refl
  by (cases a; cases b) (auto simp: value_eq_def)

lemma list_all2_zip: "length xs = length ys \<Longrightarrow>
    list_all (\<lambda>(x, y). P x y) (zip xs ys) \<longleftrightarrow> list_all2 P xs ys"
  by (simp add: list_all2_iff list_all_iff)

lemma sem_pair:
  assumes law: "\<And>x y. same x y \<Longrightarrow> x = y" and ok: "value_ok a" "value_ok b"
    and r: "semantically_eq_pair same (value_eq same) a b st = (r, st')"
  shows "\<exists>new. st' = new @ st \<and> stack_ok new \<and> (r \<and> stack_eq new \<longleftrightarrow> sem_eq a b)"
proof -
  consider (float) x y where "a = Float x" "b = Float y" | (vec) x y where "a = Vector x" "b = Vector y"
    | (array) x y where "a = Array x" "b = Array y"
    | (leaf) "\<And>x y. \<not> (a = Float x \<and> b = Float y)" "\<And>x y. \<not> (a = Vector x \<and> b = Vector y)"
      "\<And>x y. \<not> (a = Array x \<and> b = Array y)"
    by blast
  then show ?thesis
  proof cases
    case float
    then show ?thesis
      using r by (auto simp: f64_same_def stack_eq_def stack_ok_def)
  next
    case vec
    then show ?thesis
      using r law [of a b] list_all2_zip [of x y f32_same] list_all2_lengthD [of f32_same x y]
      by (auto simp: f32_same_def stack_eq_def stack_ok_def list_all2_refl_ih split: if_splits)
  next
    case array
    then show ?thesis
      using r law [of a b] ok stack_eq_zip [of x y] stack_ok_zip [of x y] sem_eq_refl [OF ok(1)]
        list_all2_lengthD [of sem_eq x y]
      by (auto simp: stack_eq_def stack_ok_def split: if_splits)
  next
    case leaf
    then have "semantically_eq_pair same (value_eq same) a b st = (value_eq same a b, st)"
      by (cases a; cases b) auto
    then show ?thesis
      using r value_eq_leaf [OF law ok(1) leaf] by (auto simp: stack_eq_def stack_ok_def)
  qed
qed

lemma sem_loop_correct:
  "(\<And>x y. same x y \<Longrightarrow> x = y) \<Longrightarrow> stack_ok st \<Longrightarrow> sem_loop same st \<longleftrightarrow> stack_eq st"
proof (induction same st rule: sem_loop.induct)
  case (1 same)
  then show ?case by (simp add: stack_eq_def)
next
  case (2 same a b st)
  obtain r st' where r: "semantically_eq_pair same (value_eq same) a b st = (r, st')"
    by fastforce
  from "2.prems"(2) have ok: "value_ok a" "value_ok b" "stack_ok st"
    by (auto simp: stack_ok_def)
  obtain new where new: "st' = new @ st" "stack_ok new" "r \<and> stack_eq new \<longleftrightarrow> sem_eq a b"
    using sem_pair [OF "2.prems"(1) ok(1,2) r] by blast
  have "r \<Longrightarrow> sem_loop same st' \<longleftrightarrow> stack_eq st'"
    using "2.IH" [OF r [symmetric]] "2.prems"(1) ok new by (auto simp: stack_ok_def)
  then show ?case
    using r new by (auto simp: stack_eq_def)
qed

lemma semantically_equal_correct:
  assumes "\<And>x y. same x y \<Longrightarrow> x = y" "value_ok a" "value_ok b"
  shows "semantically_equal same a b \<longleftrightarrow> sem_eq a b"
  using sem_loop_correct [OF assms(1), of same "[(a, b)]"] assms(2,3)
  by (simp add: semantically_equal_def stack_ok_def stack_eq_def split: prod.splits)

text \<open>
  C29: on values the constructors build, semantic equality is decided by the explicit stack for
  every nesting, its answer does not depend on which allocations the two sides share, and it is an
  equivalence relation, NaN included.
\<close>

theorem semantic_equality_equivalence:
  assumes "\<And>x y. same x y \<Longrightarrow> x = y" "value_ok a" "value_ok b" "value_ok c"
  shows "semantically_equal same a b = semantically_equal (\<lambda>_ _. False) a b \<and>
    semantically_equal same a a \<and>
    (semantically_equal same a b \<longrightarrow> semantically_equal same b a) \<and>
    (semantically_equal same a b \<longrightarrow> semantically_equal same b c \<longrightarrow> semantically_equal same a c)"
proof -
  note eq = semantically_equal_correct [OF assms(1)]
  have "semantically_equal (\<lambda>_ _. False) a b \<longleftrightarrow> sem_eq a b"
    using semantically_equal_correct [of "\<lambda>_ _. False" a b] assms by simp
  then show ?thesis
    using assms(2-) by (simp add: eq) (blast intro: sem_eq_refl sem_eq_sym sem_eq_trans)
qed

theorem semantic_equality_equivalence_witness:
  "semantically_equal (=) (Array [Float 0x7FF8000000000000, Null]) (Array [Float 0x7FF8000000000001, Null]) \<and>
   \<not> value_eq (\<lambda>_ _. False) (Array [Float 0x7FF8000000000000]) (Array [Float 0x7FF8000000000000]) \<and>
   semantically_equal (=) (Array [Float 0x7FF8000000000001, Null]) (Array [Float 0x7FF8000000000000, Null])"
proof -
  let ?a = "Array [Float 0x7FF8000000000000, Null]" and ?b = "Array [Float 0x7FF8000000000001, Null]"
  have ok: "value_ok ?a" "value_ok ?b"
    by (simp_all add: MAX_ARRAY_ELEMENTS_def)
  have "semantically_equal (=) ?a ?b"
    by (simp add: semantically_equal_def value_eq_def f64_is_nan_def)
  moreover have "\<not> value_eq (\<lambda>_ _. False) (Array [Float 0x7FF8000000000000]) (Array [Float 0x7FF8000000000000])"
    by (simp add: value_eq_def f64_eq_def f64_is_nan_def)
  ultimately show ?thesis
    using semantic_equality_equivalence [of "(=)" ?a ?b ?a] ok by blast
qed

end
