(* ===== verification/PropMap.thy ===== *)
theory PropMap
  imports ValueEq
begin

text \<open>
  Property maps and their builder: \<open>src/core/property/map.rs\<close>. The global interner is an explicit
  argument and result. Sizes are \<open>usize\<close>; the saturating additions of the code are kept. The
  fallback length for a key that is missing from the interner (256) is kept as well; debug builds
  stop there.
\<close>

type_synonym PropertyKey = InternedString

record PropertyMap =
  inner :: "(PropertyKey, PropertyValue) hashmap"
  cached_size :: nat

definition MAX_PROPERTY_MAP_CAPACITY :: nat where
  "MAX_PROPERTY_MAP_CAPACITY = 100000"

definition RECURSION_PENALTY_SIZE :: nat where
  "RECURSION_PENALTY_SIZE = 10 * 1024 * 1024"

section \<open>Reading\<close>

definition PropertyMap_new :: PropertyMap where
  "PropertyMap_new = \<lparr>inner = [], cached_size = 4\<rparr>"

definition get_by_interned_key :: "PropertyMap \<Rightarrow> PropertyKey \<Rightarrow> PropertyValue option" where
  "get_by_interned_key pm key = hm_get (inner pm) key"

definition pm_get :: "StringInterner \<Rightarrow> PropertyMap \<Rightarrow> rstr \<Rightarrow> PropertyValue option" where
  "pm_get s pm key = Option.bind (get_id s key) (get_by_interned_key pm)"

definition contains_interned_key :: "PropertyMap \<Rightarrow> PropertyKey \<Rightarrow> bool" where
  "contains_interned_key pm key \<longleftrightarrow> hm_get (inner pm) key \<noteq> None"

definition contains_key :: "StringInterner \<Rightarrow> PropertyMap \<Rightarrow> rstr \<Rightarrow> bool" where
  "contains_key s pm key \<longleftrightarrow>
     (case get_id s key of None \<Rightarrow> False | Some i \<Rightarrow> contains_interned_key pm i)"

definition pm_len :: "PropertyMap \<Rightarrow> nat" where
  "pm_len pm = length (inner pm)"

definition contains_vector :: "PropertyMap \<Rightarrow> bool" where
  "contains_vector pm \<longleftrightarrow>
     list_ex (\<lambda>(k, v). case v of Vector _ \<Rightarrow> True | SparseVector _ \<Rightarrow> True | _ \<Rightarrow> False) (inner pm)"

definition pm_serialized_size :: "PropertyMap \<Rightarrow> nat" where
  "pm_serialized_size pm = cached_size pm"

text \<open>
  Equality: pointer identity of the two maps (\<open>shared\<close>), then the cached sizes, then the entries.
\<close>

definition hashmap_eq ::
  "sharing \<Rightarrow> (PropertyKey, PropertyValue) hashmap \<Rightarrow> (PropertyKey, PropertyValue) hashmap \<Rightarrow> bool" where
  "hashmap_eq same m m' \<longleftrightarrow> length m = length m' \<and>
     list_all (\<lambda>(k, v). case hm_get m' k of None \<Rightarrow> False | Some v' \<Rightarrow> value_eq same v v') m"

definition pm_eq :: "bool \<Rightarrow> sharing \<Rightarrow> PropertyMap \<Rightarrow> PropertyMap \<Rightarrow> bool" where
  "pm_eq shared same a b \<longleftrightarrow>
     (if shared then True
      else if cached_size a \<noteq> cached_size b then False
      else hashmap_eq same (inner a) (inner b))"

section \<open>Serialization\<close>

fun serialize_entries :: "StringInterner \<Rightarrow> (PropertyKey \<times> PropertyValue) list \<Rightarrow> Error + bytes" where
  "serialize_entries s [] = Inr []"
| "serialize_entries s ((key, v) # es) =
     (case resolve_with s key (\<lambda>key_bytes. len_u32 (length key_bytes) @ key_bytes) of
        None \<Rightarrow> Inl (StorageErr InconsistentState)
      | Some kb \<Rightarrow>
          (case value_serialize_into v of
             Inl e \<Rightarrow> Inl e
           | Inr vb \<Rightarrow>
               (case serialize_entries s es of Inl e \<Rightarrow> Inl e | Inr bs \<Rightarrow> Inr (kb @ vb @ bs))))"

definition pm_serialize_into :: "StringInterner \<Rightarrow> PropertyMap \<Rightarrow> Error + bytes" where
  "pm_serialize_into s pm =
     (case serialize_entries s (sort_key fst (inner pm)) of
        Inl e \<Rightarrow> Inl e
      | Inr bs \<Rightarrow> Inr (len_u32 (length (inner pm)) @ bs))"

primrec deserialize_entries ::
  "bytes \<Rightarrow> nat \<Rightarrow> nat \<Rightarrow> (PropertyKey, PropertyValue) hashmap \<Rightarrow> nat \<Rightarrow> StringInterner \<Rightarrow>
    (Error + (PropertyKey, PropertyValue) hashmap \<times> nat \<times> nat) \<times> StringInterner" where
  "deserialize_entries bs 0 offset m calculated s = (Inr (m, offset, calculated), s)"
| "deserialize_entries bs (Suc n) offset m calculated s =
     (if length bs < offset + 4 then (corrupted, s)
      else let key_len = unat (read_u32 offset bs); offset = offset + 4 in
        if length bs < offset + key_len then (corrupted, s)
        else let key_str = take key_len (drop offset bs) in
          if \<not> utf8_valid key_str then (corrupted, s)
          else case intern key_str s of
            (Inl e, s1) \<Rightarrow> (Inl e, s1)
          | (Inr key, s1) \<Rightarrow>
              (case value_deserialize (drop (offset + key_len) bs) of
                 Inl e \<Rightarrow> (Inl e, s1)
               | Inr (v, consumed) \<Rightarrow>
                   (if hm_get m key \<noteq> None then (corrupted, s1)
                    else deserialize_entries bs n (offset + key_len + consumed) (hm_insert key v m)
                      (usize_saturating_add (usize_saturating_add calculated (4 + key_len)) consumed)
                      s1)))"

definition pm_deserialize ::
  "bytes \<Rightarrow> StringInterner \<Rightarrow> (Error + PropertyMap \<times> nat) \<times> StringInterner" where
  "pm_deserialize bs s =
     (if length bs < 4 then (corrupted, s)
      else let count = unat (read_u32 0 bs) in
        if MAX_PROPERTY_MAP_CAPACITY < count then (corrupted, s)
        else if length bs - 4 < count * 5 then (corrupted, s)
        else case deserialize_entries bs count 4 [] 4 s of
          (Inl e, s1) \<Rightarrow> (Inl e, s1)
        | (Inr (m, offset, calculated), s1) \<Rightarrow>
            (if offset \<noteq> calculated then (corrupted, s1)
             else (Inr (\<lparr>inner = m, cached_size = calculated\<rparr>, offset), s1)))"

section \<open>Building\<close>

definition key_len_or_default :: "StringInterner \<Rightarrow> PropertyKey \<Rightarrow> nat" where
  "key_len_or_default s key = (case resolve_with s key length of None \<Rightarrow> 256 | Some n \<Rightarrow> n)"

definition size_or_penalty :: "PropertyValue \<Rightarrow> nat" where
  "size_or_penalty v = (case serialized_size v of Inl _ \<Rightarrow> RECURSION_PENALTY_SIZE | Inr n \<Rightarrow> n)"

fun from_iter_loop ::
  "StringInterner \<Rightarrow> (PropertyKey \<times> PropertyValue) list \<Rightarrow> (PropertyKey, PropertyValue) hashmap \<Rightarrow> nat \<Rightarrow>
    PropertyMap" where
  "from_iter_loop s [] m sz = \<lparr>inner = m, cached_size = sz\<rparr>"
| "from_iter_loop s ((key, v) # es) m sz =
     (let key_size = 4 + key_len_or_default s key;
          sz1 = usize_saturating_add (usize_saturating_add sz key_size) (size_or_penalty v)
      in from_iter_loop s es (hm_insert key v m)
        (case hm_get m key of
           None \<Rightarrow> sz1
         | Some old \<Rightarrow> sz1 - key_size - size_or_penalty old))"

definition PropertyMap_from_iter :: "StringInterner \<Rightarrow> (PropertyKey \<times> PropertyValue) list \<Rightarrow> PropertyMap" where
  "PropertyMap_from_iter s es = from_iter_loop s es [] 4"

record PropertyMapBuilder =
  bmap :: "(PropertyKey, PropertyValue) hashmap"
  current_size :: nat

definition PropertyMapBuilder_new :: PropertyMapBuilder where
  "PropertyMapBuilder_new = \<lparr>bmap = [], current_size = 4\<rparr>"

definition from_map :: "PropertyMap \<Rightarrow> PropertyMapBuilder" where
  "from_map pm = \<lparr>bmap = inner pm, current_size = cached_size pm\<rparr>"

definition try_insert ::
  "rstr \<Rightarrow> PropertyValue \<Rightarrow> PropertyMapBuilder \<Rightarrow> StringInterner \<Rightarrow>
    (Error + PropertyMapBuilder) \<times> StringInterner" where
  "try_insert key v b s =
     (case intern key s of
        (Inl e, s1) \<Rightarrow> (Inl e, s1)
      | (Inr i, s1) \<Rightarrow>
          ((case serialized_size v of
              Inl e \<Rightarrow> Inl e
            | Inr val_size \<Rightarrow>
                (case hm_get (bmap b) i of
                   Some old \<Rightarrow>
                     (case serialized_size old of
                        Inl e \<Rightarrow> Inl e
                      | Inr old_size \<Rightarrow>
                          Inr (b\<lparr>bmap := hm_insert i v (bmap b),
                                 current_size := usize_saturating_add (current_size b - old_size) val_size\<rparr>))
                 | None \<Rightarrow>
                     Inr (b\<lparr>bmap := hm_insert i v (bmap b),
                            current_size := usize_saturating_add
                              (usize_saturating_add (current_size b) (4 + length key)) val_size\<rparr>))), s1))"

definition try_insert_by_key ::
  "StringInterner \<Rightarrow> PropertyKey \<Rightarrow> PropertyValue \<Rightarrow> PropertyMapBuilder \<Rightarrow> Error + PropertyMapBuilder" where
  "try_insert_by_key s key v b =
     (case serialized_size v of
        Inl e \<Rightarrow> Inl e
      | Inr val_size \<Rightarrow>
          (case hm_get (bmap b) key of
             Some old \<Rightarrow>
               (case serialized_size old of
                  Inl e \<Rightarrow> Inl e
                | Inr old_size \<Rightarrow>
                    Inr (b\<lparr>bmap := hm_insert key v (bmap b),
                           current_size := usize_saturating_add (current_size b - old_size) val_size\<rparr>))
           | None \<Rightarrow>
               Inr (b\<lparr>bmap := hm_insert key v (bmap b),
                      current_size := usize_saturating_add
                        (usize_saturating_add (current_size b) (4 + key_len_or_default s key)) val_size\<rparr>)))"

definition try_remove_by_key ::
  "StringInterner \<Rightarrow> PropertyKey \<Rightarrow> PropertyMapBuilder \<Rightarrow> Error + PropertyMapBuilder" where
  "try_remove_by_key s key b =
     (case hm_get (bmap b) key of
        None \<Rightarrow> Inr b
      | Some old \<Rightarrow>
          (case serialized_size old of
             Inl e \<Rightarrow> Inl e
           | Inr old_size \<Rightarrow>
               Inr (b\<lparr>bmap := hm_remove key (bmap b),
                      current_size := current_size b - (4 + key_len_or_default s key) - old_size\<rparr>)))"

definition try_remove ::
  "StringInterner \<Rightarrow> rstr \<Rightarrow> PropertyMapBuilder \<Rightarrow> Error + PropertyMapBuilder" where
  "try_remove s key b =
     (case get_id s key of None \<Rightarrow> Inr b | Some i \<Rightarrow> try_remove_by_key s i b)"

definition try_insert_vector ::
  "rstr \<Rightarrow> f32 list \<Rightarrow> PropertyMapBuilder \<Rightarrow> StringInterner \<Rightarrow>
    (Error + PropertyMapBuilder) \<times> StringInterner" where
  "try_insert_vector key vec b s =
     (case try_vector vec of Inl e \<Rightarrow> (Inl e, s) | Inr v \<Rightarrow> try_insert key v b s)"

definition build :: "PropertyMapBuilder \<Rightarrow> PropertyMap" where
  "build b = \<lparr>inner = bmap b, cached_size = current_size b\<rparr>"

section \<open>Canonical bytes and round trip\<close>

lemma hm_set_unique:
  assumes "hm_wf m" "hm_wf m'" "map_of m = map_of m'"
  shows "set m = set m'"
proof -
  have "e \<in> set m \<longleftrightarrow> e \<in> set m'" for e
    using assms hm_get_mem [of m] hm_get_mem [of m'] by (metis surj_pair)
  then show ?thesis
    by blast
qed

lemma hm_wf_sort: "hm_wf m \<Longrightarrow> hm_wf (sort_key fst m)"
  by (simp add: distinct_sort_key)

lemma sort_entries_unique:
  fixes m m' :: "('k::linorder \<times> 'v) list"
  assumes "hm_wf m" "hm_wf m'" "map_of m = map_of m'"
  shows "sort_key fst m = sort_key fst m'"
proof (rule map_sorted_distinct_set_unique [of fst])
  show "inj_on fst (set (sort_key fst m) \<union> set (sort_key fst m'))"
    using hm_set_unique [OF assms] assms(1) by (simp add: distinct_map)
qed (use assms hm_set_unique [OF assms] in \<open>simp_all add: distinct_sort_key\<close>)

lemma map_of_sort: "hm_wf m \<Longrightarrow> map_of (sort_key fst m) = map_of m"
  by (rule map_of_inject_set [THEN iffD2, rotated 2]) (simp_all add: distinct_sort_key)

definition entry_ok :: "StringInterner \<Rightarrow> PropertyKey \<times> PropertyValue \<Rightarrow> bool" where
  "entry_ok s e \<longleftrightarrow> value_ok (snd e) \<and>
     (case resolve s (fst e) of None \<Rightarrow> False | Some str \<Rightarrow> utf8_valid str \<and> length str < 2 ^ 32)"

lemma intern_known: "interner_inv s \<Longrightarrow> resolve s i = Some str \<Longrightarrow> intern str s = (Inr i, s)"
  using get_id_resolve [of s str i] by (simp add: intern_def)

lemma serialize_entries_Cons:
  "serialize_entries s ((k, v) # es) = Inr bs \<longleftrightarrow>
     (\<exists>str vb c. resolve s k = Some str \<and> serialize_recursive 0 v = Inr vb \<and>
        serialize_entries s es = Inr c \<and> bs = len_u32 (length str) @ str @ vb @ c)"
  by (auto simp: resolve_with_def resolve_def value_serialize_into_def split: option.splits sum.splits)

lemma serialize_entries_length: "serialize_entries s es = Inr bs \<Longrightarrow> 5 * length es \<le> length bs"
proof (induction es arbitrary: bs)
  case (Cons e es)
  obtain k v where e: "e = (k, v)"
    by fastforce
  obtain str vb c where c: "serialize_recursive 0 v = Inr vb" "serialize_entries s es = Inr c"
    "bs = len_u32 (length str) @ str @ vb @ c"
    using Cons.prems unfolding e serialize_entries_Cons by blast
  show ?case
    using Cons.IH [OF c(2)] serialize_nonempty [OF c(1)] c(3) by (cases vb) auto
qed simp

lemma update_fresh: "k \<notin> fst ` set m \<Longrightarrow> hm_insert k v m = m @ [(k, v)]"
  by (induction m) auto

lemma read_u32_len:
  "length pre = n \<Longrightarrow> k < 2 ^ 32 \<Longrightarrow> unat (read_u32 n (pre @ len_u32 k @ rest)) = k"
  by (simp add: len_u32_def read_u32_at unat_of_nat_u32)

lemma deserialize_entries_step:
  assumes "offset + 4 + key_len \<le> length bs" "unat (read_u32 offset bs) = key_len"
    "utf8_valid (take key_len (drop (offset + 4) bs))"
    "intern (take key_len (drop (offset + 4) bs)) s = (Inr key, s1)"
    "value_deserialize (drop (offset + 4 + key_len) bs) = Inr (v, consumed)" "hm_get m key = None"
  shows "deserialize_entries bs (Suc n) offset m c s =
    deserialize_entries bs n (offset + 4 + key_len + consumed) (hm_insert key v m)
      (usize_saturating_add (usize_saturating_add c (4 + key_len)) consumed) s1"
  using assms by (simp add: Let_def)

lemma deserialize_serialize_entries:
  assumes inv: "interner_inv s"
  shows "serialize_entries s es = Inr bs \<Longrightarrow> list_all (entry_ok s) es \<Longrightarrow> hm_wf (m @ es) \<Longrightarrow>
    c + length bs < 2 ^ 64 \<Longrightarrow>
    deserialize_entries (pre @ bs @ rest) (length es) (length pre) m c s =
      (Inr (m @ es, length pre + length bs, c + length bs), s)"
proof (induction es arbitrary: bs m pre c)
  case Nil
  then show ?case by simp
next
  case (Cons e es)
  obtain k v where e: "e = (k, v)"
    by fastforce
  obtain str vb d where d: "resolve s k = Some str" "serialize_recursive 0 v = Inr vb"
    "serialize_entries s es = Inr d" and bs: "bs = len_u32 (length str) @ str @ vb @ d"
    using Cons.prems(1) unfolding e serialize_entries_Cons by blast
  have ok: "value_ok v" "utf8_valid str" "length str < 2 ^ 32" "k \<notin> fst ` set m"
    using Cons.prems(2,3) d(1) by (auto simp: e entry_ok_def)
  have val: "value_deserialize (vb @ d @ rest) = Inr (v, length vb)"
    using deserialize_serialize [OF ok(1) d(2), of "d @ rest"] by (simp add: value_deserialize_def)
  have len: "unat (read_u32 (length pre) (pre @ len_u32 (length str) @ str @ vb @ d @ rest)) = length str"
    by (rule read_u32_len [OF refl ok(3)])
  have drops: "drop (length pre + 4) (pre @ len_u32 (length str) @ str @ r) = str @ r"
    "drop (length pre + 4 + length str) (pre @ len_u32 (length str) @ str @ r) = r" for r
    using drop_prefix [of "pre @ len_u32 (length str)" "length pre + 4" "str @ r"]
      drop_prefix [of "pre @ len_u32 (length str) @ str" "length pre + 4 + length str" r] by simp_all
  let ?pre = "pre @ len_u32 (length str) @ str @ vb"
  have sat: "usize_saturating_add (usize_saturating_add c (4 + length str)) (length vb) =
      c + (4 + length str) + length vb"
    using Cons.prems(4) bs by (simp add: usize_saturating_add_def)
  have "deserialize_entries (?pre @ d @ rest) (length es) (length ?pre) (m @ [(k, v)])
      (c + (4 + length str) + length vb) s =
      (Inr ((m @ [(k, v)]) @ es, length ?pre + length d, c + (4 + length str) + length vb + length d), s)"
    by (rule Cons.IH [OF d(3)]) (use Cons.prems e bs in auto)
  moreover have "deserialize_entries (pre @ bs @ rest) (Suc (length es)) (length pre) m c s =
      deserialize_entries (pre @ bs @ rest) (length es) (length pre + 4 + length str + length vb)
        (hm_insert k v m)
        (usize_saturating_add (usize_saturating_add c (4 + length str)) (length vb)) s"
    by (rule deserialize_entries_step)
      (use len drops ok val intern_known [OF inv d(1)] in \<open>simp_all add: bs map_of_eq_None_iff\<close>)
  ultimately show ?case
    using sat update_fresh [OF ok(4), of v] by (simp add: e bs add.assoc)
qed

lemma pm_serialize_Inr:
  "pm_serialize_into s pm = Inr bs \<longleftrightarrow>
     (\<exists>c. serialize_entries s (sort_key fst (inner pm)) = Inr c \<and> bs = len_u32 (length (inner pm)) @ c)"
  by (auto simp: pm_serialize_into_def split: sum.splits)

text \<open>
  C27: the bytes of a property map depend only on its entries, not on the iteration order of the
  hash map, and they are read back with the interner unchanged: the same entries, in key order,
  with the cached size equal to the bytes consumed. Writing the result again gives the same bytes.
\<close>

theorem property_map_roundtrip:
  assumes "interner_inv s" "hm_wf (inner pm)" "list_all (entry_ok s) (inner pm)"
    "length (inner pm) \<le> MAX_PROPERTY_MAP_CAPACITY"
    "pm_serialize_into s pm = Inr bs" "length bs < 2 ^ 64"
  shows "\<exists>pm'. pm_deserialize (bs @ rest) s = (Inr (pm', length bs), s) \<and>
    map_of (inner pm') = map_of (inner pm) \<and> cached_size pm' = length bs \<and>
    pm_serialize_into s pm' = Inr bs \<and>
    (\<forall>other. hm_wf (inner other) \<longrightarrow> map_of (inner other) = map_of (inner pm) \<longrightarrow>
       pm_serialize_into s other = Inr bs)"
proof -
  let ?es = "sort_key fst (inner pm)"
  obtain c where c: "serialize_entries s ?es = Inr c" "bs = len_u32 (length ?es) @ c"
    using assms(5) unfolding pm_serialize_Inr by auto
  have small: "length ?es < 2 ^ 32"
    using assms(4) by (simp add: MAX_PROPERTY_MAP_CAPACITY_def)
  have "deserialize_entries (len_u32 (length ?es) @ c @ rest) (length ?es)
      (length (len_u32 (length ?es))) [] 4 s =
      (Inr ([] @ ?es, length (len_u32 (length ?es)) + length c, 4 + length c), s)"
    using assms c by (intro deserialize_serialize_entries) (auto simp: distinct_sort_key list_all_iff)
  then have dec: "deserialize_entries (bs @ rest) (length ?es) 4 [] 4 s =
      (Inr (?es, length bs, length bs), s)"
    using c by simp
  have "unat (read_u32 0 (bs @ rest)) = length ?es"
    using read_u32_len [of "[]" 0 "length ?es" "c @ rest"] small c by simp
  then have read: "pm_deserialize (bs @ rest) s =
      (Inr (\<lparr>inner = ?es, cached_size = length bs\<rparr>, length bs), s)"
    using dec assms(4) serialize_entries_length [OF c(1)] c(2)
    by (simp add: pm_deserialize_def Let_def)
  have same: "pm_serialize_into s other = Inr bs"
    if "hm_wf (inner other)" "map_of (inner other) = map_of (inner pm)" for other
    using sort_entries_unique [OF that(1) assms(2) that(2)] c
    unfolding pm_serialize_Inr by (metis length_sort)
  show ?thesis
    using read same [of "\<lparr>inner = ?es, cached_size = length bs\<rparr>"] same
      hm_wf_sort [OF assms(2)] map_of_sort [OF assms(2)]
    by (intro exI [of _ "\<lparr>inner = ?es, cached_size = length bs\<rparr>"]) simp
qed

definition demo_map :: PropertyMap where
  "demo_map = \<lparr>inner = [(InternedString 1, IntV 7), (InternedString 0, Bool True)], cached_size = 0\<rparr>"

lemma demo_saved_inv: "interner_inv demo_saved"
  unfolding demo_saved_def
  by (intro interner_inv_intern interner_inv_empty)
    (simp_all add: intern_def with_max_capacity_def get_id_def Let_def)

theorem property_map_roundtrip_witness:
  "\<exists>bs pm'. pm_serialize_into demo_saved demo_map = Inr bs \<and>
     pm_deserialize (bs @ [1]) demo_saved = (Inr (pm', length bs), demo_saved) \<and>
     map_of (inner pm') = map_of (inner demo_map)"
proof -
  have res: "resolve demo_saved (InternedString 0) = Some [1]" "resolve demo_saved (InternedString 1) = Some [2]"
    by (simp_all add: demo_saved_def intern_def with_max_capacity_def get_id_def resolve_def Let_def)
  have ok: "hm_wf (inner demo_map)" "list_all (entry_ok demo_saved) (inner demo_map)"
    "length (inner demo_map) \<le> MAX_PROPERTY_MAP_CAPACITY"
    by (simp_all add: demo_map_def entry_ok_def res MAX_PROPERTY_MAP_CAPACITY_def)
  obtain bs where bs: "pm_serialize_into demo_saved demo_map = Inr bs" "length bs < 2 ^ 64"
    using res by (simp add: demo_map_def pm_serialize_into_def resolve_with_def resolve_def
        value_serialize_into_def serialize_recursive.simps less_InternedString_def
        less_eq_InternedString_def)
  show ?thesis
    using property_map_roundtrip [OF demo_saved_inv ok bs, of "[1]"] bs by blast
qed

section \<open>Sizes\<close>

definition entry_size :: "StringInterner \<Rightarrow> PropertyKey \<times> PropertyValue \<Rightarrow> nat" where
  "entry_size s e = 4 + key_len_or_default s (fst e) + size_or_penalty (snd e)"

definition map_size :: "StringInterner \<Rightarrow> (PropertyKey, PropertyValue) hashmap \<Rightarrow> nat" where
  "map_size s m = 4 + sum_list (map (entry_size s) m)"

lemma sum_insert:
  "hm_wf m \<Longrightarrow> sum_list (map f (hm_insert k v m)) +
     (case hm_get m k of None \<Rightarrow> 0 | Some old \<Rightarrow> f (k, old)) = sum_list (map f m) + (f (k, v) :: nat)"
  by (induction m) (auto split: option.splits simp: map_of_eq_None_iff)

lemma sum_remove:
  "hm_wf m \<Longrightarrow> sum_list (map f (hm_remove k m)) +
     (case hm_get m k of None \<Rightarrow> 0 | Some old \<Rightarrow> f (k, old)) = (sum_list (map f m) :: nat)"
proof (induction m)
  case (Cons e m)
  then show ?case
    by (cases e) (auto simp: map_of_eq_None_iff split: option.splits)
qed simp

lemma get_le_sum: "hm_get m k = Some v \<Longrightarrow> f (k, v) \<le> sum_list (map f m :: nat list)"
  by (auto dest!: map_of_SomeD intro: member_le_sum_list)

text \<open>
  The invariant of a builder: its running size is the sum over its entries. Every key it holds is
  interned and every value within the depth limit.
\<close>

definition sized :: "StringInterner \<Rightarrow> PropertyMapBuilder \<Rightarrow> bool" where
  "sized s b \<longleftrightarrow> hm_wf (bmap b) \<and> current_size b = map_size s (bmap b) \<and>
     list_all (\<lambda>(k, v). resolve s k \<noteq> None \<and> value_ok v \<and> (\<exists>n. serialized_size v = Inr n)) (bmap b)"

lemma key_len_resolve: "resolve s k = Some str \<Longrightarrow> key_len_or_default s k = length str"
  by (simp add: key_len_or_default_def resolve_with_def resolve_def)

lemma sized_keeps:
  assumes "sized s b" "\<And>i t. resolve s i = Some t \<Longrightarrow> resolve s' i = Some t"
  shows "sized s' b"
proof -
  have "entry_size s' e = entry_size s e" if "e \<in> set (bmap b)" for e
    using that assms by (fastforce simp: sized_def list_all_iff entry_size_def key_len_resolve)
  then have "map_size s' (bmap b) = map_size s (bmap b)"
    by (simp add: map_size_def cong: map_cong)
  moreover have "list_all (\<lambda>(k, v). resolve s' k \<noteq> None \<and> value_ok v \<and> (\<exists>n. serialized_size v = Inr n)) (bmap b)"
    using assms by (fastforce simp: sized_def list_all_iff)
  ultimately show ?thesis
    using assms(1) by (simp add: sized_def)
qed

lemma list_all_insert:
  "hm_wf m \<Longrightarrow> list_all P m \<Longrightarrow> P (k, v) \<Longrightarrow> list_all P (hm_insert k v m)"
  by (induction m) auto

lemma list_all_remove: "list_all P m \<Longrightarrow> list_all P (hm_remove k m)"
  by (auto simp: list_all_iff AList.delete_eq)

lemma size_or_penalty_Inr: "serialized_size v = Inr n \<Longrightarrow> size_or_penalty v = n"
  by (simp add: size_or_penalty_def)

lemma sized_get: "sized s b \<Longrightarrow> hm_get (bmap b) k = Some v \<Longrightarrow>
    serialized_size v = Inr (size_or_penalty v) \<and> resolve s k \<noteq> None \<and> value_ok v"
  unfolding sized_def list_all_iff using map_of_SomeD [of "bmap b" k v]
  by (fastforce simp: size_or_penalty_def)

lemma insert_by_key_sized:
  assumes "sized s b" "resolve s k = Some str" "value_ok v" "serialized_size v = Inr n"
    "map_size s (bmap b) + 4 + length str + n < 2 ^ 64"
  shows "try_insert_by_key s k v b = Inr b' \<Longrightarrow>
    sized s b' \<and> map_size s (bmap b') \<le> map_size s (bmap b) + 4 + length str + n"
proof -
  assume b': "try_insert_by_key s k v b = Inr b'"
  note sum = sum_insert [of "bmap b" "entry_size s" k v]
  note len = key_len_resolve [OF assms(2)] size_or_penalty_Inr [OF assms(4)]
  have m: "bmap b' = hm_insert k v (bmap b)"
    using b' assms(4) by (auto simp: try_insert_by_key_def split: option.splits sum.splits)
  have "current_size b' = map_size s (bmap b')" "map_size s (bmap b') \<le> map_size s (bmap b) + 4 + length str + n"
  proof -
    show "map_size s (bmap b') \<le> map_size s (bmap b) + 4 + length str + n"
      using sum assms(1) len unfolding m
      by (auto simp: map_size_def entry_size_def sized_def split: option.splits)
    show "current_size b' = map_size s (bmap b')"
    proof (cases "hm_get (bmap b) k")
      case None
      then show ?thesis
        using b' sum assms len unfolding m
        by (simp add: try_insert_by_key_def map_size_def entry_size_def sized_def
            usize_saturating_add_def) (auto simp: usize_saturating_add_def)
    next
      case (Some old)
      then show ?thesis
        using b' sum assms len sized_get [OF assms(1) Some] get_le_sum [OF Some, of "entry_size s"]
        unfolding m
        by (auto simp: try_insert_by_key_def map_size_def entry_size_def sized_def
            usize_saturating_add_def)
    qed
  qed
  moreover have "list_all (\<lambda>(k, v). resolve s k \<noteq> None \<and> value_ok v \<and> (\<exists>n. serialized_size v = Inr n)) (bmap b')"
    unfolding m using assms by (intro list_all_insert) (auto simp: sized_def)
  ultimately show ?thesis
    using assms(1) unfolding sized_def m by simp
qed

lemma remove_by_key_sized:
  assumes "sized s b" "try_remove_by_key s k b = Inr b'"
  shows "sized s b' \<and> map_size s (bmap b') \<le> map_size s (bmap b)"
proof (cases "hm_get (bmap b) k")
  case None
  then show ?thesis
    using assms by (simp add: try_remove_by_key_def)
next
  case (Some old)
  note sum = sum_remove [of "bmap b" "entry_size s" k]
  have old: "serialized_size old = Inr (size_or_penalty old)"
    using sized_get [OF assms(1) Some] by simp
  then have m: "bmap b' = hm_remove k (bmap b)"
    using assms(2) Some by (auto simp: try_remove_by_key_def)
  have "current_size b' = map_size s (bmap b')"
    using assms sum Some old get_le_sum [OF Some, of "entry_size s"] unfolding m
    by (auto simp: try_remove_by_key_def map_size_def entry_size_def sized_def)
  moreover have "map_size s (bmap b') \<le> map_size s (bmap b)"
    using sum assms(1) unfolding m by (simp add: map_size_def sized_def)
  ultimately show ?thesis
    using assms(1) unfolding sized_def m by (intro conjI list_all_remove) auto
qed

lemma try_insert_by_key_interned:
  "intern key s = (Inr i, s1) \<Longrightarrow> resolve s1 i = Some key \<Longrightarrow>
     try_insert key v b s = (try_insert_by_key s1 i v b, s1)"
  by (auto simp: try_insert_def try_insert_by_key_def key_len_resolve split: sum.split option.split)

text \<open>A sequence of builder calls, each on the result of the one before.\<close>

datatype build_op = BInsert rstr PropertyValue | BRemove rstr

fun run_builder :: "build_op list \<Rightarrow> PropertyMapBuilder \<Rightarrow> StringInterner \<Rightarrow>
    (Error + PropertyMapBuilder) \<times> StringInterner" where
  "run_builder [] b s = (Inr b, s)"
| "run_builder (BInsert key v # ops) b s =
     (case try_insert key v b s of (Inl e, s1) \<Rightarrow> (Inl e, s1) | (Inr b1, s1) \<Rightarrow> run_builder ops b1 s1)"
| "run_builder (BRemove key # ops) b s =
     (case try_remove s key b of Inl e \<Rightarrow> (Inl e, s) | Inr b1 \<Rightarrow> run_builder ops b1 s)"

fun op_ok :: "build_op \<Rightarrow> bool" where
  "op_ok (BInsert key v) = value_ok v"
| "op_ok (BRemove key) = True"

fun op_weight :: "build_op \<Rightarrow> nat" where
  "op_weight (BInsert key v) = 4 + length key + size_or_penalty v"
| "op_weight (BRemove key) = 0"

lemma try_insert_sized:
  assumes "interner_inv s" "max_capacity s < 2 ^ 32" "sized s b" "value_ok v"
    "map_size s (bmap b) + op_weight (BInsert key v) < 2 ^ 64"
    "try_insert key v b s = (Inr b', s')"
  shows "interner_inv s' \<and> max_capacity s' < 2 ^ 32 \<and> sized s' b' \<and>
    map_size s' (bmap b') \<le> map_size s (bmap b) + op_weight (BInsert key v)"
proof -
  obtain i where i: "intern key s = (Inr i, s')"
    using assms(6) by (auto simp: try_insert_def split: prod.splits sum.splits)
  have s': "interner_inv s'" "max_capacity s' < 2 ^ 32" "resolve s' i = Some key"
    using capped.add_inv [OF assms(1,2), of key] capped.add_room [OF assms(1,2), of key]
      capped.add_look [OF assms(1,2) i] i by auto
  have b': "try_insert_by_key s' i v b = Inr b'"
    using try_insert_by_key_interned [OF i s'(3)] assms(6) by simp
  then obtain n where n: "serialized_size v = Inr n"
    by (auto simp: try_insert_by_key_def split: sum.splits)
  have keeps: "\<And>i t. resolve s i = Some t \<Longrightarrow> resolve s' i = Some t"
    using capped.add_keeps [OF assms(1,2)] i by (metis snd_conv)
  have sz: "sized s' b"
    by (rule sized_keeps [OF assms(3) keeps])
  then have "map_size s' (bmap b) = map_size s (bmap b)"
    using assms(3) by (simp add: sized_def)
  then show ?thesis
    using insert_by_key_sized [OF sz s'(3) assms(4) n _ b'] s' assms(5)
    by (simp add: size_or_penalty_Inr [OF n])
qed

lemma run_builder_sized:
  assumes "interner_inv s" "max_capacity s < 2 ^ 32" "sized s b" "list_all op_ok ops"
    "map_size s (bmap b) + sum_list (map op_weight ops) < 2 ^ 64" "run_builder ops b s = (Inr b', s')"
  shows "interner_inv s' \<and> sized s' b'"
  using assms
proof (induction ops b s rule: run_builder.induct)
  case (1 b s)
  then show ?case by simp
next
  case (2 key v ops b s)
  obtain b1 s1 where b1: "try_insert key v b s = (Inr b1, s1)" "run_builder ops b1 s1 = (Inr b', s')"
    using "2.prems"(6) by (auto split: prod.splits sum.splits)
  from try_insert_sized [OF "2.prems"(1-3) _ _ b1(1)] "2.prems"(4,5)
  have s1: "interner_inv s1" "max_capacity s1 < 2 ^ 32" "sized s1 b1"
    "map_size s1 (bmap b1) \<le> map_size s (bmap b) + op_weight (BInsert key v)"
    by auto
  with "2.IH" [OF b1(1) [symmetric] refl] b1(2) "2.prems"(4,5) show ?case
    by auto
next
  case (3 key ops b s)
  obtain b1 where b1: "try_remove s key b = Inr b1" "run_builder ops b1 s = (Inr b', s')"
    using "3.prems"(6) by (auto split: sum.splits)
  have "sized s b1 \<and> map_size s (bmap b1) \<le> map_size s (bmap b)"
    using b1(1) remove_by_key_sized [OF "3.prems"(3)] "3.prems"(3)
    by (auto simp: try_remove_def split: option.splits)
  with "3.IH" [OF b1(1)] "3.prems" b1(2) show ?case
    by auto
qed

lemma serialize_entries_size:
  "serialize_entries s es = Inr bs \<Longrightarrow> list_all (\<lambda>e. value_ok (snd e)) es \<Longrightarrow>
     length bs = sum_list (map (entry_size s) es)"
proof (induction es arbitrary: bs)
  case (Cons e es)
  obtain k v where e: "e = (k, v)"
    by fastforce
  obtain str vb c where c: "resolve s k = Some str" "serialize_recursive 0 v = Inr vb"
    "serialize_entries s es = Inr c" "bs = len_u32 (length str) @ str @ vb @ c"
    using Cons.prems(1) unfolding e serialize_entries_Cons by blast
  have "size_or_penalty v = length vb"
    using size_exact [OF _ c(2)] Cons.prems(2) by (simp add: e size_or_penalty_def serialized_size_def)
  then show ?case
    using Cons.IH [OF c(3)] Cons.prems(2) c(1,4) by (simp add: e entry_size_def key_len_resolve)
qed simp

lemma sum_sort: "sum_list (map f (sort_key g xs)) = sum_list (map f (xs :: 'a list) :: nat list)"
proof -
  have ins: "sum_list (map f (insort_key g y ys)) = f y + sum_list (map f ys)" for y ys
    by (induction ys) auto
  show ?thesis
    by (induction xs) (simp_all add: ins)
qed

text \<open>
  C28: the size a builder maintains incrementally, through insertions, replacements and removals,
  is the number of bytes the finished map serializes to.
\<close>

theorem builder_size_exact:
  assumes "interner_inv s" "max_capacity s < 2 ^ 32" "list_all op_ok ops"
    "4 + sum_list (map op_weight ops) < 2 ^ 64"
    "run_builder ops PropertyMapBuilder_new s = (Inr b, s')"
    "pm_serialize_into s' (build b) = Inr bs"
  shows "pm_serialized_size (build b) = length bs"
proof -
  have "sized s PropertyMapBuilder_new"
    by (simp add: sized_def PropertyMapBuilder_new_def map_size_def)
  then have sz: "sized s' b"
    using run_builder_sized [OF assms(1,2) _ assms(3) _ assms(5)] assms(4)
    by (simp add: PropertyMapBuilder_new_def map_size_def)
  obtain c where c: "serialize_entries s' (sort_key fst (bmap b)) = Inr c"
    "bs = len_u32 (length (bmap b)) @ c"
    using assms(6) unfolding pm_serialize_Inr by (auto simp: build_def)
  have "list_all (\<lambda>e. value_ok (snd e)) (sort_key fst (bmap b))"
    using sz by (fastforce simp: sized_def list_all_iff)
  then have "length c = sum_list (map (entry_size s') (bmap b))"
    using serialize_entries_size [OF c(1)] sum_sort [of "entry_size s'" fst "bmap b"] by simp
  then show ?thesis
    using sz c(2) by (simp add: pm_serialized_size_def build_def sized_def map_size_def)
qed

definition demo_ops :: "build_op list" where
  "demo_ops = [BInsert [97] (IntV 1), BInsert [98] Null, BInsert [97] (String [99]), BRemove [98]]"

theorem builder_size_exact_witness:
  "\<exists>b s' bs. run_builder demo_ops PropertyMapBuilder_new (with_max_capacity 10) = (Inr b, s') \<and>
     pm_serialize_into s' (build b) = Inr bs \<and> pm_serialized_size (build b) = length bs \<and> bs \<noteq> []"
proof -
  let ?r = "run_builder demo_ops PropertyMapBuilder_new (with_max_capacity 10)"
  obtain b s' bs where r: "?r = (Inr b, s')" "pm_serialize_into s' (build b) = Inr bs" "bs \<noteq> []"
    by (simp add: demo_ops_def PropertyMapBuilder_new_def with_max_capacity_def try_insert_def
        try_remove_def try_remove_by_key_def intern_def get_id_def Let_def serialized_size_def
        serialized_size_recursive.simps build_def pm_serialize_into_def resolve_with_def
        value_serialize_into_def serialize_recursive.simps)
  have "list_all op_ok demo_ops" "4 + sum_list (map op_weight demo_ops) < 2 ^ 64"
    by (simp_all add: demo_ops_def size_or_penalty_def serialized_size_def
        serialized_size_recursive.simps)
  moreover have "max_capacity (with_max_capacity 10) < 2 ^ 32"
    by (simp add: with_max_capacity_def)
  ultimately have "pm_serialized_size (build b) = length bs"
    using builder_size_exact [OF interner_inv_empty _ _ _ r(1,2)] by simp
  with r show ?thesis
    by blast
qed

section \<open>Equality\<close>

lemma sem_eq_size:
  "sem_eq a b \<Longrightarrow> serialized_size_recursive depth a = serialized_size_recursive depth b"
proof (induction a arbitrary: b depth)
  case (Array vs)
  then obtain us where us: "b = Array us" "list_all2 sem_eq vs us"
    by (auto simp: sem_eq_inv)
  have "serialized_size_items d vs = serialized_size_items d us" for d
    using us(2) Array.IH
  proof (induction vs us rule: list_all2_induct)
    case (Cons v vs u us)
    then have "serialized_size_recursive d v = serialized_size_recursive d u"
      "serialized_size_items d vs = serialized_size_items d us"
      by auto
    then show ?case by (simp split: sum.split)
  qed simp
  then show ?case
    using us(1) by (simp add: serialized_size_recursive.simps)
next
  case (SparseVector x)
  then show ?case
    by (auto simp: sem_eq_inv serialized_size_recursive.simps sparse_eq_def nnz_def)
qed (auto simp: sem_eq_inv serialized_size_recursive.simps dest: list_all2_lengthD)

lemma eq_pair_sem:
  assumes law: "\<And>x y. same x y \<Longrightarrow> x = y" and ok: "value_ok a" "value_ok b"
    and r: "eq_pair same a b st = (True, st')"
  shows "\<exists>new. st' = new @ st \<and> stack_ok new \<and> (stack_eq new \<longrightarrow> sem_eq a b)"
proof (cases "\<exists>x y. a = Array x \<and> b = Array y")
  case True
  then obtain x y where xy: "a = Array x" "b = Array y"
    by blast
  then show ?thesis
    using r law [of a b] ok stack_eq_zip [of x y] stack_ok_zip [of x y] sem_eq_refl [OF ok(1)]
    by (auto simp: stack_eq_def stack_ok_def split: if_splits)
next
  case False
  then have "sem_eq a b \<and> st' = st"
    using r law [of a b] sem_eq_refl [OF ok(1)] f32_eq_same
    by (cases "(same, a, b, st)" rule: eq_pair.cases)
      (auto simp: f64_same_def f64_eq_def intro: list_all2_mono)
  then show ?thesis
    by (auto simp: stack_ok_def)
qed

lemma eq_loop_sem:
  "(\<And>x y. same x y \<Longrightarrow> x = y) \<Longrightarrow> stack_ok st \<Longrightarrow> eq_loop same st \<Longrightarrow> stack_eq st"
proof (induction same st rule: eq_loop.induct)
  case (1 same)
  then show ?case by (simp add: stack_eq_def)
next
  case (2 same a b st)
  obtain st' where r: "eq_pair same a b st = (True, st')" "eq_loop same st'"
    using "2.prems"(3) by (auto split: prod.splits if_splits)
  from "2.prems"(2) have ok: "value_ok a" "value_ok b" "stack_ok st"
    by (auto simp: stack_ok_def)
  obtain new where new: "st' = new @ st" "stack_ok new" "stack_eq new \<longrightarrow> sem_eq a b"
    using eq_pair_sem [OF "2.prems"(1) ok(1,2) r(1)] by blast
  have "stack_eq st'"
    using "2.IH" [OF r(1) [symmetric]] "2.prems"(1) r(2) ok new by (auto simp: stack_ok_def)
  then show ?case
    using new by (auto simp: stack_eq_def)
qed

lemma value_eq_sem:
  assumes "\<And>x y. same x y \<Longrightarrow> x = y" "value_ok a" "value_ok b" "value_eq same a b"
  shows "sem_eq a b"
  using eq_loop_sem [OF assms(1), of same "[(a, b)]"] assms(2-)
  by (simp add: value_eq_def stack_ok_def stack_eq_def split: prod.splits)

lemma hm_sum_keys:
  "hm_wf m \<Longrightarrow> sum_list (map f m) = (\<Sum>k \<in> fst ` set m. (f (k, the (hm_get m k)) :: nat))"
proof -
  assume wf: "hm_wf m"
  have "map f m = map (\<lambda>k. f (k, the (hm_get m k))) (map fst m)"
    using wf by (auto simp: hm_get_mem intro: arg_cong [of _ _ f] dest: map_of_is_SomeI)
  also have "sum_list \<dots> = (\<Sum>k \<in> set (map fst m). f (k, the (hm_get m k)))"
    using wf by (rule sum_list_distinct_conv_sum_set)
  finally show ?thesis
    by simp
qed

lemma hashmap_eqD:
  "hashmap_eq same m m' \<Longrightarrow> (k, v) \<in> set m \<Longrightarrow> \<exists>v'. hm_get m' k = Some v' \<and> value_eq same v v'"
  by (auto simp: hashmap_eq_def list_all_iff split: option.splits dest!: bspec)

lemma hashmap_eq_keys:
  assumes "hm_wf m" "hm_wf m'" "hashmap_eq same m m'"
  shows "fst ` set m = fst ` set m'"
proof (rule card_subset_eq)
  show "fst ` set m \<subseteq> fst ` set m'"
    using hashmap_eqD [OF assms(3)] by (force dest: map_of_SomeD)
  have "card (fst ` set m) = length m" "card (fst ` set m') = length m'"
    using assms(1,2) distinct_card [of "map fst m"] distinct_card [of "map fst m'"] by simp_all
  then show "card (fst ` set m) = card (fst ` set m')"
    using assms(3) by (simp add: hashmap_eq_def)
qed simp

lemma hashmap_eq_size:
  assumes law: "\<And>x y. same x y \<Longrightarrow> x = y"
    and "hm_wf m" "hm_wf m'" "list_all (\<lambda>e. value_ok (snd e)) m" "list_all (\<lambda>e. value_ok (snd e)) m'"
    "hashmap_eq same m m'"
  shows "map_size s m = map_size s m'"
proof -
  have "entry_size s (k, the (hm_get m k)) = entry_size s (k, the (hm_get m' k))"
    if k: "k \<in> fst ` set m" for k
  proof -
    obtain v where v: "(k, v) \<in> set m"
      using k by auto
    then obtain v' where v': "hm_get m' k = Some v'" "value_eq same v v'"
      using hashmap_eqD [OF assms(6)] by blast
    have "sem_eq v v'"
      using value_eq_sem [OF law _ _ v'(2)] assms(4,5) v map_of_SomeD [OF v'(1)]
      by (fastforce simp: list_all_iff)
    then have "size_or_penalty v = size_or_penalty v'"
      using sem_eq_size [of v v' 0] by (simp add: size_or_penalty_def serialized_size_def)
    then show ?thesis
      using v v' assms(2) by (simp add: entry_size_def map_of_is_SomeI)
  qed
  then show ?thesis
    using hashmap_eq_keys [OF assms(2,3,6)] hm_sum_keys [OF assms(2)] hm_sum_keys [OF assms(3)]
    by (simp add: map_size_def)
qed

text \<open>
  C34: the two shortcuts of map equality never change its answer for maps a builder produced: equal
  entries imply equal cached sizes, so a size mismatch is a real difference.
\<close>

theorem map_equality_shortcut:
  assumes "\<And>x y. same x y \<Longrightarrow> x = y" "sized s (from_map a)" "sized s (from_map b)"
  shows "pm_eq False same a b \<longleftrightarrow> hashmap_eq same (inner a) (inner b)"
proof -
  have wf: "hm_wf (inner a)" "hm_wf (inner b)" "list_all (\<lambda>e. value_ok (snd e)) (inner a)"
    "list_all (\<lambda>e. value_ok (snd e)) (inner b)"
    "cached_size a = map_size s (inner a)" "cached_size b = map_size s (inner b)"
    using assms(2,3) by (fastforce simp: sized_def from_map_def list_all_iff)+
  then show ?thesis
    using hashmap_eq_size [OF _ wf(1-4), of same s] assms(1) by (auto simp: pm_eq_def)
qed

theorem map_equality_shortcut_witness:
  "pm_eq False (\<lambda>_ _. False) \<lparr>inner = [(InternedString 0, IntV 1), (InternedString 1, Null)], cached_size = 24\<rparr>
     \<lparr>inner = [(InternedString 1, Null), (InternedString 0, IntV 1)], cached_size = 24\<rparr>"
proof -
  let ?a = "\<lparr>inner = [(InternedString 0, IntV 1), (InternedString 1, Null)], cached_size = 24\<rparr>"
  let ?b = "\<lparr>inner = [(InternedString 1, Null), (InternedString 0, IntV 1)], cached_size = 24\<rparr>"
  have "resolve demo_saved (InternedString 0) = Some [1]" "resolve demo_saved (InternedString 1) = Some [2]"
    by (simp_all add: demo_saved_def intern_def with_max_capacity_def get_id_def resolve_def Let_def)
  then have "sized demo_saved (from_map ?a)" "sized demo_saved (from_map ?b)"
    by (simp_all add: sized_def from_map_def map_size_def entry_size_def key_len_resolve
        size_or_penalty_def serialized_size_def serialized_size_recursive.simps)
  moreover have "hashmap_eq (\<lambda>_ _. False) (inner ?a) (inner ?b)"
    by (simp add: hashmap_eq_def value_eq_def)
  ultimately show ?thesis
    using map_equality_shortcut [of "\<lambda>_ _. False" demo_saved ?a ?b] by simp
qed

end
