(* ===== verification/Provenance.thy ===== *)
theory Provenance
  imports Values
begin

text \<open>
  Write-time provenance of \<open>src/core/provenance.rs\<close>: the bundle, its builder with the confidence
  check, and the filter a read applies to the bundle of a version. A Rust \<open>f64\<close> is its bit
  pattern; its order is read off sign and magnitude, with NaN comparable to nothing.
\<close>

section \<open>Order on doubles\<close>

definition f64_key :: "f64 \<Rightarrow> int" where
  "f64_key b =
     (if b AND 0x8000000000000000 = 0 then uint (b AND 0x7FFFFFFFFFFFFFFF)
      else - uint (b AND 0x7FFFFFFFFFFFFFFF))"

definition f64_le :: "f64 \<Rightarrow> f64 \<Rightarrow> bool" where
  "f64_le a b \<longleftrightarrow> \<not> f64_is_nan a \<and> \<not> f64_is_nan b \<and> f64_key a \<le> f64_key b"

definition f64_one :: f64 where
  "f64_one = 0x3FF0000000000000"

text \<open>The Rust range test \<open>(0.0..=1.0).contains\<close>.\<close>

definition unit_interval :: "f64 \<Rightarrow> bool" where
  "unit_interval c \<longleftrightarrow> f64_le 0 c \<and> f64_le c f64_one"

section \<open>Bundles\<close>

record Provenance =
  prov_source :: "rstr option"
  confidence :: "f64 option"
  note_text :: "rstr option"
  correlation_id :: "rstr option"
  principal :: "rstr option"

datatype ProvenanceError = InvalidConfidence f64

definition prov_is_empty :: "Provenance \<Rightarrow> bool" where
  "prov_is_empty p \<longleftrightarrow> prov_source p = None \<and> confidence p = None \<and> note_text p = None \<and>
     correlation_id p = None \<and> principal p = None"

text \<open>The builder has the fields of the bundle.\<close>

type_synonym ProvenanceBuilder = Provenance

definition ProvenanceBuilder_default :: ProvenanceBuilder where
  "ProvenanceBuilder_default = \<lparr>prov_source = None, confidence = None, note_text = None,
     correlation_id = None, principal = None\<rparr>"

definition prov_build :: "ProvenanceBuilder \<Rightarrow> ProvenanceError + Provenance" where
  "prov_build b =
     (case confidence b of
        Some c \<Rightarrow> (if \<not> unit_interval c then Inl (InvalidConfidence c) else Inr b)
      | None \<Rightarrow> Inr b)"

definition from_parts ::
  "rstr option \<Rightarrow> f64 option \<Rightarrow> rstr option \<Rightarrow> rstr option \<Rightarrow> rstr option \<Rightarrow> ProvenanceError + Provenance" where
  "from_parts src conf nt corr prin =
     (let b = ProvenanceBuilder_default;
          b = (case src of Some x \<Rightarrow> b\<lparr>prov_source := Some x\<rparr> | None \<Rightarrow> b);
          b = (case conf of Some x \<Rightarrow> b\<lparr>confidence := Some x\<rparr> | None \<Rightarrow> b);
          b = (case nt of Some x \<Rightarrow> b\<lparr>note_text := Some x\<rparr> | None \<Rightarrow> b);
          b = (case corr of Some x \<Rightarrow> b\<lparr>correlation_id := Some x\<rparr> | None \<Rightarrow> b);
          b = (case prin of Some x \<Rightarrow> b\<lparr>principal := Some x\<rparr> | None \<Rightarrow> b)
      in prov_build b)"

definition with_principal :: "rstr \<Rightarrow> Provenance \<Rightarrow> Provenance" where
  "with_principal p b = b\<lparr>principal := Some p\<rparr>"

section \<open>Filters\<close>

datatype ProvenanceFilterError = InvalidMinConfidence f64 | EmptySourceList

record ProvenanceFilter =
  sources :: "rstr list option"
  min_confidence :: "f64 option"
  include_unattributed :: bool

fun merge_sources :: "rstr list \<Rightarrow> rstr list \<Rightarrow> rstr list" where
  "merge_sources merged [] = merged"
| "merge_sources merged (s # rest) =
     merge_sources (if s \<notin> set merged then merged @ [s] else merged) rest"

definition validated ::
  "rstr option \<Rightarrow> rstr list option \<Rightarrow> f64 option \<Rightarrow> bool \<Rightarrow>
    ProvenanceFilterError + ProvenanceFilter option" where
  "validated src srcs min_conf incl =
     (if srcs = Some [] then Inl EmptySourceList
      else case min_conf of
        Some c \<Rightarrow>
          (if f64_is_nan c \<or> \<not> unit_interval c then Inl (InvalidMinConfidence c)
           else let merged = merge_sources [] (case_option [] (\<lambda>s. [s]) src @ case_option [] (\<lambda>l. l) srcs) in
             Inr (Some \<lparr>sources = (if merged = [] then None else Some merged),
               min_confidence = Some c, include_unattributed = incl\<rparr>))
      | None \<Rightarrow>
          (let merged = merge_sources [] (case_option [] (\<lambda>s. [s]) src @ case_option [] (\<lambda>l. l) srcs) in
           if merged = [] then Inr None
           else Inr (Some \<lparr>sources = Some merged, min_confidence = None, include_unattributed = incl\<rparr>)))"

definition is_active :: "ProvenanceFilter \<Rightarrow> bool" where
  "is_active f \<longleftrightarrow> sources f \<noteq> None \<or> min_confidence f \<noteq> None"

definition matches :: "ProvenanceFilter \<Rightarrow> Provenance option \<Rightarrow> bool" where
  "matches f prov =
     (if \<not> is_active f then True
      else case prov of
        None \<Rightarrow> include_unattributed f
      | Some p \<Rightarrow>
          (if (case sources f of
                 None \<Rightarrow> False
               | Some want \<Rightarrow> (case prov_source p of Some s \<Rightarrow> s \<notin> set want | None \<Rightarrow> True)) then False
           else if (case min_confidence f of
                 None \<Rightarrow> False
               | Some m \<Rightarrow> (case confidence p of Some c \<Rightarrow> \<not> f64_le m c | None \<Rightarrow> True)) then False
           else True))"

section \<open>Validation\<close>

lemma merge_sources_set: "set (merge_sources m xs) = set m \<union> set xs"
  by (induction m xs rule: merge_sources.induct) auto

lemma merge_sources_distinct: "distinct m \<Longrightarrow> distinct (merge_sources m xs)"
  by (induction m xs rule: merge_sources.induct) auto

lemma merge_sources_Nil: "merge_sources m xs = [] \<longleftrightarrow> m = [] \<and> xs = []"
  using merge_sources_set [of m xs] by (metis Un_empty set_empty)

text \<open>The sources a caller names, by either parameter.\<close>

definition named_sources :: "rstr option \<Rightarrow> rstr list option \<Rightarrow> rstr set" where
  "named_sources src srcs = set_option src \<union> (case srcs of None \<Rightarrow> {} | Some l \<Rightarrow> set l)"

lemma named_sources_eq:
  "set (merge_sources [] (case_option [] (\<lambda>s. [s]) src @ case_option [] (\<lambda>l. l) srcs)) = named_sources src srcs"
  by (auto simp: merge_sources_set named_sources_def split: option.splits)

lemma unit_interval_not_nan: "unit_interval c \<Longrightarrow> \<not> f64_is_nan c"
  by (simp add: unit_interval_def f64_le_def)

lemma merged_empty:
  "merge_sources [] (case_option [] (\<lambda>s. [s]) src @ case_option [] (\<lambda>l. l) srcs) = [] \<longleftrightarrow>
     named_sources src srcs = {}"
  using named_sources_eq [of src srcs] by (metis set_empty)

lemma filter_with_bundle:
  assumes "validated src srcs min_conf incl = Inr filt" "from_parts ps pc pn pr pp = Inr p"
  shows "(case filt of None \<Rightarrow> True | Some f \<Rightarrow> matches f (Some p)) \<longleftrightarrow>
      (named_sources src srcs = {} \<or> (\<exists>s. ps = Some s \<and> s \<in> named_sources src srcs)) \<and>
      (case min_conf of None \<Rightarrow> True | Some m \<Rightarrow> \<exists>c. pc = Some c \<and> f64_key m \<le> f64_key c)"
proof -
  have p: "prov_source p = ps" "confidence p = pc" "\<And>c. pc = Some c \<Longrightarrow> unit_interval c"
    using assms(2)
    by (auto simp: from_parts_def prov_build_def ProvenanceBuilder_default_def Let_def
        split: option.splits if_splits)
  show ?thesis
    using assms(1) named_sources_eq [of src srcs] p merged_empty [of src srcs] unit_interval_not_nan
    by (cases ps; cases pc)
      (auto simp: validated_def Let_def matches_def is_active_def f64_le_def
        split: option.splits if_splits)
qed

lemma filter_without_bundle:
  assumes "validated src srcs min_conf incl = Inr filt"
  shows "(case filt of None \<Rightarrow> True | Some f \<Rightarrow> matches f None) \<longleftrightarrow>
      incl \<or> named_sources src srcs = {} \<and> min_conf = None"
  using assms merged_empty [of src srcs]
  by (auto simp: validated_def Let_def matches_def is_active_def split: option.splits if_splits)

text \<open>
  A read with a provenance filter keeps a version exactly when the caller's request asks for
  it: every version when nothing was requested, and otherwise the versions whose bundle names one
  of the requested sources and reaches the requested confidence, with versions that carry no bundle
  kept only on request. The bundle's confidence was validated when it was built, so a NaN never
  reaches the comparison.
\<close>

theorem provenance_filter_spec:
  assumes "validated src srcs min_conf incl = Inr filt" "from_parts ps pc pn pr pp = Inr p"
  shows "((case filt of None \<Rightarrow> True | Some f \<Rightarrow> matches f (Some p)) \<longleftrightarrow>
      (named_sources src srcs = {} \<or> (\<exists>s. ps = Some s \<and> s \<in> named_sources src srcs)) \<and>
      (case min_conf of None \<Rightarrow> True | Some m \<Rightarrow> \<exists>c. pc = Some c \<and> f64_key m \<le> f64_key c)) \<and>
    ((case filt of None \<Rightarrow> True | Some f \<Rightarrow> matches f None) \<longleftrightarrow>
      incl \<or> named_sources src srcs = {} \<and> min_conf = None)"
  using filter_with_bundle [OF assms] filter_without_bundle [OF assms(1)] by blast

theorem provenance_filter_spec_witness:
  "\<exists>f p. validated (Some [7]) None (Some f64_one) False = Inr (Some f) \<and>
     from_parts (Some [7]) (Some f64_one) None None None = Inr p \<and> matches f (Some p) \<and> \<not> matches f None"
proof -
  have u: "unit_interval f64_one"
    by (simp add: unit_interval_def f64_le_def f64_one_def f64_is_nan_def f64_key_def)
  let ?f = "\<lparr>sources = Some [[7]], min_confidence = Some f64_one, include_unattributed = False\<rparr>"
  let ?p = "\<lparr>prov_source = Some [7], confidence = Some f64_one, note_text = None,
     correlation_id = None, principal = None\<rparr>"
  have 1: "validated (Some [7]) None (Some f64_one) False = Inr (Some ?f)"
    using u unit_interval_not_nan [OF u] by (simp add: validated_def)
  have 2: "from_parts (Some [7]) (Some f64_one) None None None = Inr ?p"
    using u by (simp add: from_parts_def prov_build_def ProvenanceBuilder_default_def)
  show ?thesis
    using provenance_filter_spec [OF 1 2] 1 2 by (auto simp: named_sources_def)
qed

end
