(* ===== verification/Versions.thy ===== *)
theory Versions
  imports PropMap Temporal Provenance
begin

text \<open>
  Versions and deltas: \<open>src/core/version.rs\<close>. A version of a node or an edge stores either a full
  property map (an anchor) or the difference to its predecessor (a delta).
  The caller supplies which allocations two maps share.
\<close>

section \<open>Approximate float comparison\<close>

text \<open>
  A finite single-precision float as a multiple of \<open>2 ^ -149\<close>, and the rounding of a non-negative
  exact result to 24 significant bits, ties to even. Results beyond the largest finite float round
  to infinity in the code; here they stay large, which the comparison below cannot tell apart.
\<close>

definition f32_units :: "f32 \<Rightarrow> int" where
  "f32_units b =
     (let e = unat (drop_bit 23 b AND 0xFF); m = int (unat (b AND 0x7FFFFF));
          u = (if e = 0 then m else (m + 2 ^ 23) * 2 ^ (e - 1))
      in if bit b 31 then - u else u)"

fun bit_len :: "nat \<Rightarrow> nat" where
  "bit_len n = (if n = 0 then 0 else Suc (bit_len (n div 2)))"

declare bit_len.simps [simp del]

definition f32_round_units :: "nat \<Rightarrow> nat" where
  "f32_round_units x =
     (let e = bit_len x - 24 in
      if e = 0 then x
      else let q = x div 2 ^ e; r = x mod 2 ^ e; half = 2 ^ (e - 1) in
        (if half < r \<or> (r = half \<and> odd q) then q + 1 else q) * 2 ^ e)"

text \<open>\<open>1e-7\<close> as a single-precision float.\<close>

definition VECTOR_EPSILON :: f32 where
  "VECTOR_EPSILON = 0x33D6BF95"

definition floats_approx_equal :: "f32 \<Rightarrow> f32 \<Rightarrow> bool" where
  "floats_approx_equal a b =
     (if f32_is_nan a then f32_is_nan b
      else if f32_is_nan b then False
      else if f32_is_infinite a \<or> f32_is_infinite b then f32_eq a b
      else f32_round_units (nat \<bar>f32_units a - f32_units b\<bar>) \<le> nat (f32_units VECTOR_EPSILON))"

section \<open>Vector deltas\<close>

datatype VectorDelta = Sparse nat "(u32 \<times> f32) list" | Full "f32 list"

fun collect_changes :: "nat \<Rightarrow> f32 list \<Rightarrow> f32 list \<Rightarrow> (u32 \<times> f32) list option" where
  "collect_changes idx (old_val # olds) (new_val # news) =
     (if floats_approx_equal old_val new_val then collect_changes (Suc idx) olds news
      else if idx < 2 ^ 32 then
        map_option ((#) (of_nat idx, new_val)) (collect_changes (Suc idx) olds news)
      else None)"
| "collect_changes idx _ _ = Some []"

definition VectorDelta_from_diff :: "f32 list \<Rightarrow> f32 list \<Rightarrow> VectorDelta option" where
  "VectorDelta_from_diff old new =
     (if length old \<noteq> length new then None
      else if MAX_VECTOR_DIMENSIONS < length old then None
      else case collect_changes 0 old new of
        None \<Rightarrow> None
      | Some changes \<Rightarrow>
          (if changes = [] then None
           else if length changes * 2 < length old then Some (Sparse (length old) changes)
           else Some (Full new)))"

definition set_changes :: "(u32 \<times> f32) list \<Rightarrow> f32 list \<Rightarrow> f32 list" where
  "set_changes changes base =
     fold (\<lambda>(idx, v) r. if unat idx < length r then r[unat idx := v] else r) changes base"

fun VectorDelta_apply :: "VectorDelta \<Rightarrow> f32 list \<Rightarrow> f32 list" where
  "VectorDelta_apply (Sparse dim changes) base =
     (if length base \<noteq> dim then base else set_changes changes base)"
| "VectorDelta_apply (Full v) base = v"

fun VectorDelta_eq :: "VectorDelta \<Rightarrow> VectorDelta \<Rightarrow> bool" where
  "VectorDelta_eq (Sparse d1 c1) (Sparse d2 c2) =
     (if d1 \<noteq> d2 then False
      else if length c1 \<noteq> length c2 then False
      else list_all (\<lambda>((i, x), (j, y)). i = j \<and> floats_approx_equal x y) (zip c1 c2))"
| "VectorDelta_eq (Full v1) (Full v2) =
     (if length v1 \<noteq> length v2 then False
      else list_all (\<lambda>(x, y). floats_approx_equal x y) (zip v1 v2))"
| "VectorDelta_eq _ _ = False"

section \<open>Property deltas\<close>

record PropertyDelta =
  changed :: "(PropertyKey, PropertyValue) hashmap"
  vector_deltas :: "(PropertyKey, VectorDelta) hashmap"
  removed :: "PropertyKey list"

definition PropertyDelta_new :: PropertyDelta where
  "PropertyDelta_new = \<lparr>changed = [], vector_deltas = [], removed = []\<rparr>"

definition delta_is_empty :: "PropertyDelta \<Rightarrow> bool" where
  "delta_is_empty d \<longleftrightarrow> changed d = [] \<and> vector_deltas d = [] \<and> removed d = []"

definition put_changed :: "PropertyKey \<Rightarrow> PropertyValue \<Rightarrow> PropertyDelta \<Rightarrow> PropertyDelta" where
  "put_changed k v d = d\<lparr>changed := hm_insert k v (changed d)\<rparr>"

definition put_vector :: "PropertyKey \<Rightarrow> VectorDelta \<Rightarrow> PropertyDelta \<Rightarrow> PropertyDelta" where
  "put_vector k v d = d\<lparr>vector_deltas := hm_insert k v (vector_deltas d)\<rparr>"

text \<open>One round of the loop over the new properties.\<close>

definition diff_entry ::
  "sharing \<Rightarrow> PropertyMap \<Rightarrow> PropertyKey \<times> PropertyValue \<Rightarrow> PropertyDelta \<Rightarrow> PropertyDelta" where
  "diff_entry same old = (\<lambda>(key, new_value) d.
     case get_by_interned_key old key of
       None \<Rightarrow> put_changed key new_value d
     | Some old_value \<Rightarrow>
         (if semantically_equal same old_value new_value then d
          else case (as_vector old_value, as_vector new_value) of
            (Some old_vec, Some new_vec) \<Rightarrow>
              (case VectorDelta_from_diff old_vec new_vec of
                 Some vd \<Rightarrow> put_vector key vd d
               | None \<Rightarrow> (if length old_vec \<noteq> length new_vec then put_changed key new_value d else d))
          | _ \<Rightarrow> put_changed key new_value d))"

definition PropertyDelta_from_diff ::
  "bool \<Rightarrow> sharing \<Rightarrow> PropertyMap \<Rightarrow> PropertyMap \<Rightarrow> PropertyDelta" where
  "PropertyDelta_from_diff shared same old new =
     (if pm_eq shared same old new then PropertyDelta_new
      else let d = fold (diff_entry same old) (inner new) PropertyDelta_new in
        d\<lparr>removed := filter (\<lambda>k. \<not> contains_interned_key new k) (map fst (inner old))\<rparr>)"

definition apply_vector_delta ::
  "PropertyMap \<Rightarrow> PropertyKey \<times> VectorDelta \<Rightarrow> (PropertyKey, PropertyValue) hashmap \<Rightarrow>
    (PropertyKey, PropertyValue) hashmap" where
  "apply_vector_delta base = (\<lambda>(key, vd) result.
     case vd of
       Full v \<Rightarrow> hm_insert key (Vector v) result
     | Sparse _ _ \<Rightarrow>
         (case Option.bind (get_by_interned_key base key) as_vector of
            None \<Rightarrow> result
          | Some base_vec \<Rightarrow> hm_insert key (Vector (VectorDelta_apply vd base_vec)) result))"

definition PropertyDelta_apply :: "StringInterner \<Rightarrow> PropertyDelta \<Rightarrow> PropertyMap \<Rightarrow> PropertyMap" where
  "PropertyDelta_apply s d base =
     (if delta_is_empty d then base
      else let
        kept = fold (\<lambda>(key, v) result.
            if key \<notin> set (removed d) \<and> hm_get (changed d) key = None then hm_insert key v result
            else result) (inner base) [];
        overwritten = fold (\<lambda>(key, v). hm_insert key v) (changed d) kept;
        result = fold (apply_vector_delta base) (vector_deltas d) overwritten
      in PropertyMap_from_iter s result)"

text \<open>
  Materialization before persistence; False is the error, with the delta as far as it was changed.
\<close>

fun materialize_keys :: "PropertyMap \<Rightarrow> PropertyKey list \<Rightarrow> PropertyDelta \<Rightarrow> bool \<times> PropertyDelta" where
  "materialize_keys base [] d = (True, d)"
| "materialize_keys base (key # keys) d =
     (case hm_get (vector_deltas d) key of
        None \<Rightarrow> materialize_keys base keys d
      | Some vd \<Rightarrow>
          (let d1 = d\<lparr>vector_deltas := hm_remove key (vector_deltas d)\<rparr> in
           case vd of
             Full v \<Rightarrow> materialize_keys base keys (put_changed key (Vector v) d1)
           | Sparse _ _ \<Rightarrow>
               (case get_by_interned_key base key of
                  None \<Rightarrow> (False, d1)
                | Some base_value \<Rightarrow>
                    (case as_vector base_value of
                       None \<Rightarrow> (False, d1)
                     | Some base_vec \<Rightarrow>
                         materialize_keys base keys
                           (put_changed key (Vector (VectorDelta_apply vd base_vec)) d1)))))"

definition materialize_vector_deltas :: "PropertyMap \<Rightarrow> PropertyDelta \<Rightarrow> bool \<times> PropertyDelta" where
  "materialize_vector_deltas base d = materialize_keys base (map fst (vector_deltas d)) d"

section \<open>Versions\<close>

type_synonym TxId = u64

record VersionMetadata =
  created_by_tx :: TxId
  vm_commit_timestamp :: "Timestamp option"

definition VersionMetadata_new :: "TxId \<Rightarrow> Timestamp \<Rightarrow> VersionMetadata" where
  "VersionMetadata_new tx ts = \<lparr>created_by_tx = tx, vm_commit_timestamp = Some ts\<rparr>"

definition uncommitted :: "TxId \<Rightarrow> VersionMetadata" where
  "uncommitted tx = \<lparr>created_by_tx = tx, vm_commit_timestamp = None\<rparr>"

definition default_for_existing :: VersionMetadata where
  "default_for_existing = \<lparr>created_by_tx = 0, vm_commit_timestamp = Some (HybridTimestamp 0 0)\<rparr>"

record AnchorConfig =
  anchor_interval :: u32
  max_delta_chain :: u32

definition AnchorConfig_default :: AnchorConfig where
  "AnchorConfig_default = \<lparr>anchor_interval = 10, max_delta_chain = 20\<rparr>"

datatype VersionData = Anchor PropertyMap "nat option" | Delta PropertyDelta

definition VersionData_anchor :: "PropertyMap \<Rightarrow> VersionData" where
  "VersionData_anchor pm = Anchor pm None"

definition delta_from_diff :: "bool \<Rightarrow> sharing \<Rightarrow> PropertyMap \<Rightarrow> PropertyMap \<Rightarrow> VersionData" where
  "delta_from_diff shared same old new = Delta (PropertyDelta_from_diff shared same old new)"

fun is_anchor :: "VersionData \<Rightarrow> bool" where
  "is_anchor (Anchor _ _) = True"
| "is_anchor (Delta _) = False"

fun is_delta :: "VersionData \<Rightarrow> bool" where
  "is_delta (Anchor _ _) = False"
| "is_delta (Delta _) = True"

fun set_vector_snapshot_id :: "nat \<Rightarrow> VersionData \<Rightarrow> VersionData" where
  "set_vector_snapshot_id i (Anchor pm _) = Anchor pm (Some i)"
| "set_vector_snapshot_id i (Delta d) = Delta d"

fun get_vector_snapshot_id :: "VersionData \<Rightarrow> nat option" where
  "get_vector_snapshot_id (Anchor pm i) = i"
| "get_vector_snapshot_id (Delta d) = None"

text \<open>
  The fields node and edge versions share, which is what the generic code reads and writes through
  the trait \<open>EntityVersion\<close>, and the two version types.
\<close>

record EntityVersion =
  version_id :: VersionId
  temporal :: BiTemporalInterval
  label :: InternedString
  data :: VersionData
  commit_timestamp :: Timestamp
  next_version :: "VersionId option"
  prev_version :: "VersionId option"
  provenance :: "Provenance option"

record NodeVersion = EntityVersion +
  node_id :: NodeId

record EdgeVersion = EntityVersion +
  edge_id :: EdgeId
  source :: NodeId
  target :: NodeId

definition NodeVersion_new_anchor ::
  "VersionId \<Rightarrow> NodeId \<Rightarrow> BiTemporalInterval \<Rightarrow> InternedString \<Rightarrow> PropertyMap \<Rightarrow> NodeVersion" where
  "NodeVersion_new_anchor i n t l props =
     \<lparr>version_id = i, temporal = t, label = l, data = VersionData_anchor props,
      commit_timestamp = tr_start (transaction_time t), next_version = None, prev_version = None,
      provenance = None, node_id = n\<rparr>"

definition NodeVersion_new_delta ::
  "bool \<Rightarrow> sharing \<Rightarrow> VersionId \<Rightarrow> NodeId \<Rightarrow> BiTemporalInterval \<Rightarrow> InternedString \<Rightarrow>
    PropertyMap \<Rightarrow> PropertyMap \<Rightarrow> VersionId \<Rightarrow> NodeVersion" where
  "NodeVersion_new_delta shared same i n t l old_properties new_properties prev =
     \<lparr>version_id = i, temporal = t, label = l,
      data = delta_from_diff shared same old_properties new_properties,
      commit_timestamp = tr_start (transaction_time t), next_version = None,
      prev_version = Some prev, provenance = None, node_id = n\<rparr>"

definition EdgeVersion_new_anchor ::
  "VersionId \<Rightarrow> EdgeId \<Rightarrow> BiTemporalInterval \<Rightarrow> InternedString \<Rightarrow> NodeId \<Rightarrow> NodeId \<Rightarrow> PropertyMap \<Rightarrow>
    EdgeVersion" where
  "EdgeVersion_new_anchor i e t l s g props =
     \<lparr>version_id = i, temporal = t, label = l, data = VersionData_anchor props,
      commit_timestamp = tr_start (transaction_time t), next_version = None, prev_version = None,
      provenance = None, edge_id = e, source = s, target = g\<rparr>"

definition EdgeVersion_new_delta ::
  "bool \<Rightarrow> sharing \<Rightarrow> VersionId \<Rightarrow> EdgeId \<Rightarrow> BiTemporalInterval \<Rightarrow> InternedString \<Rightarrow> NodeId \<Rightarrow>
    NodeId \<Rightarrow> PropertyMap \<Rightarrow> PropertyMap \<Rightarrow> VersionId \<Rightarrow> EdgeVersion" where
  "EdgeVersion_new_delta shared same i e t l s g old_properties new_properties prev =
     \<lparr>version_id = i, temporal = t, label = l,
      data = delta_from_diff shared same old_properties new_properties,
      commit_timestamp = tr_start (transaction_time t), next_version = None,
      prev_version = Some prev, provenance = None, edge_id = e, source = s, target = g\<rparr>"

definition with_provenance ::
  "Provenance option \<Rightarrow> 'a EntityVersion_scheme \<Rightarrow> 'a EntityVersion_scheme" where
  "with_provenance p v = v\<lparr>provenance := p\<rparr>"

definition version_is_anchor :: "'a EntityVersion_scheme \<Rightarrow> bool" where
  "version_is_anchor v = is_anchor (data v)"

section \<open>Deltas reconstruct the new properties\<close>

subsection \<open>Vectors\<close>

lemma floats_approx_refl [simp]: "floats_approx_equal a a"
  by (simp add: floats_approx_equal_def f32_eq_def f32_round_units_def bit_len.simps)

lemma set_changes_length [simp]: "length (set_changes cs base) = length base"
  by (induction cs arbitrary: base) (auto simp: set_changes_def)

lemma set_changes_Cons:
  "set_changes ((i, v) # cs) base =
     set_changes cs (if unat i < length base then base[unat i := v] else base)"
  by (simp add: set_changes_def)

text \<open>Applying the collected changes to the old vector gives the new one up to the tolerance.\<close>

lemma collect_changes_apply:
  "collect_changes (length pre) old new = Some cs \<Longrightarrow> length old = length new \<Longrightarrow>
     \<exists>r. set_changes cs (pre @ old) = pre @ r \<and> list_all2 floats_approx_equal r new"
proof (induction old new arbitrary: pre cs rule: list_induct2')
  case (4 o' olds n news)
  show ?case
  proof (cases "floats_approx_equal o' n")
    case True
    then have "collect_changes (length (pre @ [o'])) olds news = Some cs"
      using 4 by simp
    from "4.IH" [OF this] "4.prems" obtain r where
      "set_changes cs ((pre @ [o']) @ olds) = (pre @ [o']) @ r" "list_all2 floats_approx_equal r news"
      by auto
    with True show ?thesis
      by (intro exI [of _ "o' # r"]) simp
  next
    case False
    then obtain ds where ds: "collect_changes (length (pre @ [n])) olds news = Some ds"
      "cs = (of_nat (length pre), n) # ds" "length pre < 2 ^ 32"
      using 4 by (auto split: if_splits)
    from "4.IH" [OF ds(1)] "4.prems" obtain r where
      "set_changes ds ((pre @ [n]) @ olds) = (pre @ [n]) @ r" "list_all2 floats_approx_equal r news"
      by auto
    with ds show ?thesis
      by (intro exI [of _ "n # r"]) (simp add: set_changes_Cons unat_of_nat_u32)
  qed
qed (auto simp: set_changes_def)

lemma list_all2_approx_refl: "list_all2 floats_approx_equal v v"
  by (rule list_all2_refl_ih) simp

lemma vector_delta_apply:
  assumes "VectorDelta_from_diff old new = Some vd"
  shows "list_all2 floats_approx_equal (VectorDelta_apply vd old) new"
proof -
  obtain cs where cs: "collect_changes 0 old new = Some cs" "length old = length new"
    "vd = Sparse (length old) cs \<or> vd = Full new"
    using assms by (auto simp: VectorDelta_from_diff_def split: if_splits option.splits)
  obtain r where "set_changes cs old = r" "list_all2 floats_approx_equal r new"
    using collect_changes_apply [of "[]" old new cs] cs by auto
  with cs show ?thesis
    by (auto simp: list_all2_approx_refl)
qed

lemma collect_changes_none:
  "length old = length new \<Longrightarrow> collect_changes idx old new = Some [] \<Longrightarrow>
     list_all2 floats_approx_equal old new"
  by (induction old new arbitrary: idx rule: list_induct2) (auto split: if_splits)

lemma collect_changes_total:
  "idx + length old \<le> 2 ^ 32 \<Longrightarrow> collect_changes idx old new \<noteq> None"
  by (induction idx old new rule: collect_changes.induct) auto

lemma vector_delta_none:
  assumes "VectorDelta_from_diff old new = None" "length old = length new"
    "length old \<le> MAX_VECTOR_DIMENSIONS"
  shows "list_all2 floats_approx_equal old new"
proof -
  have "collect_changes 0 old new \<noteq> None"
    using assms(3) by (intro collect_changes_total) (simp add: MAX_VECTOR_DIMENSIONS_def)
  then have "collect_changes 0 old new = Some []"
    using assms by (auto simp: VectorDelta_from_diff_def split: if_splits)
  then show ?thesis
    by (rule collect_changes_none [OF assms(2)])
qed

subsection \<open>Property maps\<close>

text \<open>What one key contributes to the two maps of a delta.\<close>

definition diff_changed :: "sharing \<Rightarrow> PropertyValue option \<Rightarrow> PropertyValue \<Rightarrow> PropertyValue option" where
  "diff_changed same old new_value =
     (case old of
        None \<Rightarrow> Some new_value
      | Some old_value \<Rightarrow>
          (if semantically_equal same old_value new_value then None
           else case (as_vector old_value, as_vector new_value) of
             (Some old_vec, Some new_vec) \<Rightarrow>
               (if length old_vec \<noteq> length new_vec then Some new_value else None)
           | _ \<Rightarrow> Some new_value))"

definition diff_vector :: "sharing \<Rightarrow> PropertyValue option \<Rightarrow> PropertyValue \<Rightarrow> VectorDelta option" where
  "diff_vector same old new_value =
     (case old of
        None \<Rightarrow> None
      | Some old_value \<Rightarrow>
          (if semantically_equal same old_value new_value then None
           else case (as_vector old_value, as_vector new_value) of
             (Some old_vec, Some new_vec) \<Rightarrow> VectorDelta_from_diff old_vec new_vec
           | _ \<Rightarrow> None))"

definition or_else :: "'a option \<Rightarrow> 'a option \<Rightarrow> 'a option" where
  "or_else a b = (case a of None \<Rightarrow> b | Some x \<Rightarrow> Some x)"

lemma or_else_simps [simp]: "or_else None b = b" "or_else (Some x) b = Some x" "or_else a None = a"
  by (simp_all add: or_else_def split: option.split)

lemma vector_diff_len: "VectorDelta_from_diff a b = Some vd \<Longrightarrow> length a = length b"
  by (simp add: VectorDelta_from_diff_def split: if_splits)

lemma diff_entry_changed:
  "hm_get (changed (diff_entry same old (k, v) d)) k' =
     (if k' = k then or_else (diff_changed same (hm_get (inner old) k) v) (hm_get (changed d) k)
      else hm_get (changed d) k')"
  by (auto simp: diff_entry_def diff_changed_def get_by_interned_key_def put_changed_def put_vector_def
      dest: vector_diff_len split: option.splits)

lemma diff_entry_vector:
  "hm_get (vector_deltas (diff_entry same old (k, v) d)) k' =
     (if k' = k then or_else (diff_vector same (hm_get (inner old) k) v) (hm_get (vector_deltas d) k)
      else hm_get (vector_deltas d) k')"
  by (auto simp: diff_entry_def diff_vector_def get_by_interned_key_def put_changed_def put_vector_def
      split: option.splits)

lemma diff_entry_wf:
  "hm_wf (changed d) \<Longrightarrow> hm_wf (vector_deltas d) \<Longrightarrow>
     hm_wf (changed (diff_entry same old e d)) \<and> hm_wf (vector_deltas (diff_entry same old e d))"
  by (auto simp: diff_entry_def put_changed_def put_vector_def split: option.splits prod.splits)

lemma diff_fold_wf:
  "hm_wf (changed d) \<Longrightarrow> hm_wf (vector_deltas d) \<Longrightarrow>
     hm_wf (changed (fold (diff_entry same old) es d)) \<and>
     hm_wf (vector_deltas (fold (diff_entry same old) es d))"
  by (induction es arbitrary: d) (auto simp: diff_entry_wf)

text \<open>The delta of two maps that do not compare equal.\<close>

lemma from_diff_lookup:
  assumes "hm_wf (inner new)" "\<not> pm_eq shared same old new"
  defines "d \<equiv> PropertyDelta_from_diff shared same old new"
  shows "hm_get (changed d) k =
      Option.bind (hm_get (inner new) k) (diff_changed same (hm_get (inner old) k))"
    "hm_get (vector_deltas d) k =
      Option.bind (hm_get (inner new) k) (diff_vector same (hm_get (inner old) k))"
    "k \<in> set (removed d) \<longleftrightarrow> hm_get (inner old) k \<noteq> None \<and> hm_get (inner new) k = None"
    "hm_wf (changed d)" "hm_wf (vector_deltas d)"
proof -
  have d: "d = (fold (diff_entry same old) (inner new) PropertyDelta_new)
      \<lparr>removed := filter (\<lambda>k. \<not> contains_interned_key new k) (map fst (inner old))\<rparr>"
    using assms(2) by (simp add: d_def PropertyDelta_from_diff_def Let_def)
  show "hm_get (changed d) k = Option.bind (hm_get (inner new) k) (diff_changed same (hm_get (inner old) k))"
    using fold_keyed [where get = "\<lambda>d. hm_get (changed d)" and r = PropertyDelta_new and k = k, OF diff_entry_changed [of same old] assms(1)]
    by (auto simp: d PropertyDelta_new_def split: option.splits)
  show "hm_get (vector_deltas d) k = Option.bind (hm_get (inner new) k) (diff_vector same (hm_get (inner old) k))"
    using fold_keyed [where get = "\<lambda>d. hm_get (vector_deltas d)" and r = PropertyDelta_new and k = k, OF diff_entry_vector [of same old] assms(1)]
    by (auto simp: d PropertyDelta_new_def split: option.splits)
  show "k \<in> set (removed d) \<longleftrightarrow> hm_get (inner old) k \<noteq> None \<and> hm_get (inner new) k = None"
    using map_of_eq_None_iff [of "inner old" k] by (auto simp: d contains_interned_key_def)
  show "hm_wf (changed d)" "hm_wf (vector_deltas d)"
    using diff_fold_wf [of PropertyDelta_new] by (simp_all add: d PropertyDelta_new_def)
qed

lemma from_iter_inner: "inner (from_iter_loop s es m n) = fold (\<lambda>(k, v). hm_insert k v) es m"
  by (induction s es m n rule: from_iter_loop.induct) (simp_all add: Let_def)

lemma insert_all_lookup:
  "hm_wf es \<Longrightarrow> hm_get (fold (\<lambda>(k, v). hm_insert k v) es m) k = or_else (hm_get es k) (hm_get m k)"
  using fold_keyed [where get = hm_get and f = "\<lambda>(k, v). hm_insert k v" and g = "\<lambda>k v _. Some v"]
  by (simp add: or_else_def)

lemma fold_wf: "(\<And>e r. hm_wf r \<Longrightarrow> hm_wf (f e r)) \<Longrightarrow> hm_wf r \<Longrightarrow> hm_wf (fold f es r)"
  by (induction es arbitrary: r) auto

definition vector_result :: "PropertyValue option \<Rightarrow> VectorDelta \<Rightarrow> PropertyValue option" where
  "vector_result base vd =
     (case vd of
        Full v \<Rightarrow> Some (Vector v)
      | Sparse _ _ \<Rightarrow> map_option (\<lambda>b. Vector (VectorDelta_apply vd b)) (Option.bind base as_vector))"

lemma apply_vector_lookup:
  "hm_get (apply_vector_delta base (k, vd) r) k' =
     (if k' = k then or_else (vector_result (hm_get (inner base) k) vd) (hm_get r k) else hm_get r k')"
  by (auto simp: apply_vector_delta_def vector_result_def get_by_interned_key_def
      split: VectorDelta.split option.split)

text \<open>What a lookup finds after a delta is applied.\<close>

lemma apply_lookup:
  assumes "hm_wf (inner base)" "hm_wf (changed d)" "hm_wf (vector_deltas d)"
  shows "hm_get (inner (PropertyDelta_apply s d base)) k =
    or_else (Option.bind (hm_get (vector_deltas d) k) (vector_result (hm_get (inner base) k)))
      (or_else (hm_get (changed d) k)
        (if k \<in> set (removed d) then None else hm_get (inner base) k))"
proof (cases "delta_is_empty d")
  case True
  then show ?thesis
    by (simp add: PropertyDelta_apply_def delta_is_empty_def)
next
  case False
  let ?keep = "\<lambda>(key, v) r. if key \<notin> set (removed d) \<and> hm_get (changed d) key = None
    then hm_insert key v r else r"
  let ?kept = "fold ?keep (inner base) []"
  let ?over = "fold (\<lambda>(key, v). hm_insert key v) (changed d) ?kept"
  let ?res = "fold (apply_vector_delta base) (vector_deltas d) ?over"
  have kept: "hm_get ?kept k = (if k \<in> set (removed d) \<or> hm_get (changed d) k \<noteq> None then None
      else hm_get (inner base) k)"
    using fold_keyed [where get = hm_get and f = ?keep and r = "[]" and
        g = "\<lambda>k v c. if k \<notin> set (removed d) \<and> hm_get (changed d) k = None then Some v else c",
        OF _ assms(1), of k]
    by (auto split: option.splits)
  have res: "hm_get ?res k = or_else (Option.bind (hm_get (vector_deltas d) k)
      (vector_result (hm_get (inner base) k))) (hm_get ?over k)"
    using fold_keyed [where get = hm_get and r = ?over and k = k, OF apply_vector_lookup [of base] assms(3)]
    by (simp split: option.split)
  have "hm_wf ?kept"
    by (rule fold_wf) auto
  then have "hm_wf ?over"
    by (intro fold_wf [of "\<lambda>(key, v). hm_insert key v"]) auto
  then have "hm_wf ?res"
    by (intro fold_wf)
      (auto simp: apply_vector_delta_def split: prod.split VectorDelta.split option.split)
  then show ?thesis
    using False kept res insert_all_lookup [OF assms(2), of ?kept k] insert_all_lookup [of ?res "[]" k]
    by (cases "hm_get (changed d) k")
      (simp_all add: PropertyDelta_apply_def Let_def PropertyMap_from_iter_def from_iter_inner)
qed

text \<open>How close a reconstructed value is to the stored one: the same up to the
  semantics of equality, or a vector that differs by less than the drift
  tolerance in each element.\<close>

definition value_close :: "PropertyValue \<Rightarrow> PropertyValue \<Rightarrow> bool" where
  "value_close a b \<longleftrightarrow> sem_eq a b \<or>
     (case (a, b) of (Vector x, Vector y) \<Rightarrow> list_all2 floats_approx_equal x y | _ \<Rightarrow> False)"

text \<open>The property maps a delta is computed over: distinct keys, values the constructors build,
  vectors within the dimension limit.\<close>

definition stored_value_ok :: "PropertyValue \<Rightarrow> bool" where
  "stored_value_ok v \<longleftrightarrow> value_ok v \<and>
     (case v of Vector x \<Rightarrow> length x \<le> MAX_VECTOR_DIMENSIONS | _ \<Rightarrow> True)"

definition properties_ok :: "PropertyMap \<Rightarrow> bool" where
  "properties_ok m \<longleftrightarrow> hm_wf (inner m) \<and> list_all (\<lambda>(k, v). stored_value_ok v) (inner m)"

lemma properties_ok_get:
  "properties_ok m \<Longrightarrow> hm_get (inner m) k = Some v \<Longrightarrow> value_ok v \<and> stored_value_ok v"
  by (auto simp: properties_ok_def list_all_iff stored_value_ok_def dest!: map_of_SomeD)

lemma value_close_sem: "sem_eq a b \<Longrightarrow> value_close a b"
  by (simp add: value_close_def)

lemma as_vector_Some: "as_vector v = Some x \<longleftrightarrow> v = Vector x"
  by (cases v) auto

lemma diff_one_key:
  assumes law: "\<And>x y. same x y \<Longrightarrow> x = y" and ok: "stored_value_ok old" "stored_value_ok new"
  shows "rel_option value_close
    (or_else (Option.bind (diff_vector same (Some old) new) (vector_result (Some old)))
      (or_else (diff_changed same (Some old) new) (Some old))) (Some new)"
proof -
  have okv: "value_ok old" "value_ok new"
    using ok by (simp_all add: stored_value_ok_def)
  have sem: "semantically_equal same old new \<longleftrightarrow> sem_eq old new"
    using semantically_equal_correct [OF law okv] by blast
  have new: "value_close new new"
    by (simp add: sem_eq_refl okv value_close_sem)
  consider (sem) "sem_eq old new" | (vec) x y where "\<not> sem_eq old new" "old = Vector x" "new = Vector y"
    | (other) "\<not> sem_eq old new" "as_vector old = None \<or> as_vector new = None"
    by (cases "as_vector old"; cases "as_vector new") (auto simp: as_vector_Some)
  then show ?thesis
  proof cases
    case vec
    then have different: "\<not> semantically_equal same (Vector x) (Vector y)"
      using sem by blast
    show ?thesis
    proof (cases "VectorDelta_from_diff x y")
      case None
      then show ?thesis
        using vec new vector_delta_none [of x y] ok(1)
        by (cases "length x = length y")
          (auto simp: diff_vector_def diff_changed_def different value_close_def stored_value_ok_def)
    next
      case (Some vd)
      then show ?thesis
        using vec vector_delta_apply [OF Some]
        by (cases vd) (auto simp: diff_vector_def different value_close_def vector_result_def)
    qed
  qed (auto simp: diff_vector_def diff_changed_def sem new value_close_sem split: option.splits)
qed

lemma hashmap_eq_close:
  assumes law: "\<And>x y. same x y \<Longrightarrow> x = y" and ok: "properties_ok old" "properties_ok new"
    and "hashmap_eq same (inner old) (inner new)"
  shows "rel_option value_close (hm_get (inner old) k) (hm_get (inner new) k)"
proof (cases "hm_get (inner old) k")
  case None
  then have "hm_get (inner new) k = None"
    using hashmap_eq_keys [OF _ _ assms(4)] ok by (simp add: properties_ok_def map_of_eq_None_iff)
  with None show ?thesis
    by simp
next
  case (Some v)
  then obtain v' where v': "hm_get (inner new) k = Some v'" "value_eq same v v'"
    using hashmap_eqD [OF assms(4) map_of_SomeD] by blast
  have "sem_eq v v'"
    using value_eq_sem [OF law _ _ v'(2)] properties_ok_get [OF ok(1) Some]
      properties_ok_get [OF ok(2) v'(1)] by blast
  then show ?thesis
    by (simp add: Some v' value_close_sem)
qed

lemma delta_apply_close:
  assumes law: "\<And>x y. same x y \<Longrightarrow> x = y" "shared \<Longrightarrow> old = new"
    and ok: "properties_ok old" "properties_ok new"
  shows "rel_option value_close
    (hm_get (inner (PropertyDelta_apply s (PropertyDelta_from_diff shared same old new) old)) k)
    (hm_get (inner new) k)"
proof (cases "pm_eq shared same old new")
  case True
  then have "rel_option value_close (hm_get (inner old) k) (hm_get (inner new) k)"
  proof (cases shared)
    case True
    then show ?thesis
      using law(2) properties_ok_get [OF ok(2), of k]
      by (cases "hm_get (inner new) k") (simp_all add: value_close_sem sem_eq_refl)
  next
    case False
    then have "hashmap_eq same (inner old) (inner new)"
      using True by (simp add: pm_eq_def split: if_splits)
    then show ?thesis
      by (intro hashmap_eq_close [OF _ ok] law(1))
  qed
  then show ?thesis
    using True by (simp add: PropertyDelta_from_diff_def PropertyDelta_apply_def delta_is_empty_def
        PropertyDelta_new_def)
next
  case False
  have wf: "hm_wf (inner old)" "hm_wf (inner new)"
    using ok by (simp_all add: properties_ok_def)
  note d = from_diff_lookup [OF wf(2) False]
  note lookup = apply_lookup [OF wf(1) d(4,5), of s k, unfolded d(1-3)]
  show ?thesis
  proof (cases "hm_get (inner new) k")
    case None
    then show ?thesis
      using lookup by (cases "hm_get (inner old) k") simp_all
  next
    case (Some v)
    then show ?thesis
      using lookup properties_ok_get [OF ok(2) Some] properties_ok_get [OF ok(1), of k]
        diff_one_key [OF law(1), of same _ v]
      by (cases "hm_get (inner old) k")
        (simp_all add: diff_vector_def diff_changed_def value_close_sem sem_eq_refl)
  qed
qed

text \<open>
  C10: storing the delta between two property maps and applying it to the old map gives back the
  new one: the same keys, each with a value equal to the new one, or a vector within the drift
  tolerance of it in every element. It holds whichever allocations the two maps share.
\<close>

theorem delta_reconstructs:
  assumes "\<And>x y. same x y \<Longrightarrow> x = y" "shared \<Longrightarrow> old = new" "properties_ok old" "properties_ok new"
  shows "rel_option value_close
    (get_by_interned_key (PropertyDelta_apply s (PropertyDelta_from_diff shared same old new) old) k)
    (get_by_interned_key new k)"
  unfolding get_by_interned_key_def using assms by (rule delta_apply_close)

definition demo_old :: PropertyMap where
  "demo_old = \<lparr>inner = [(InternedString 0, Vector [0, 0, 0]), (InternedString 1, IntV 5),
     (InternedString 2, Null)], cached_size = 0\<rparr>"

definition demo_new :: PropertyMap where
  "demo_new = \<lparr>inner = [(InternedString 3, Bool True), (InternedString 0, Vector [0, 0x3F800000, 0]),
     (InternedString 1, IntV 5)], cached_size = 1\<rparr>"

lemma demo_ok: "properties_ok demo_old" "properties_ok demo_new"
  by (simp_all add: properties_ok_def demo_old_def demo_new_def stored_value_ok_def
      MAX_VECTOR_DIMENSIONS_def)

theorem delta_reconstructs_witness:
  "rel_option value_close
     (get_by_interned_key (PropertyDelta_apply (with_max_capacity 4)
        (PropertyDelta_from_diff False (\<lambda>_ _. False) demo_old demo_new) demo_old) (InternedString 0))
     (Some (Vector [0, 0x3F800000, 0]))"
  using delta_reconstructs [of "\<lambda>_ _. False" False demo_old demo_new "with_max_capacity 4"
      "InternedString 0"] demo_ok
  by (simp add: get_by_interned_key_def demo_new_def)

section \<open>Materialization\<close>

definition applied :: "PropertyMap \<Rightarrow> PropertyDelta \<Rightarrow> PropertyKey \<Rightarrow> PropertyValue option" where
  "applied base d k =
    or_else (Option.bind (hm_get (vector_deltas d) k) (vector_result (hm_get (inner base) k)))
      (or_else (hm_get (changed d) k)
        (if k \<in> set (removed d) then None else hm_get (inner base) k))"

definition sparse_bases :: "PropertyMap \<Rightarrow> PropertyDelta \<Rightarrow> bool" where
  "sparse_bases base d \<longleftrightarrow> (\<forall>k vd. hm_get (vector_deltas d) k = Some vd \<longrightarrow>
     vector_result (hm_get (inner base) k) vd \<noteq> None)"

text \<open>One round of the loop, for a key whose delta has a base vector.\<close>

lemma materialize_key:
  assumes "sparse_bases base d" "hm_get (vector_deltas d) key = Some vd"
  obtains v where "vector_result (hm_get (inner base) key) vd = Some v"
    "materialize_keys base (key # keys) d = materialize_keys base keys
       (put_changed key v (d\<lparr>vector_deltas := hm_remove key (vector_deltas d)\<rparr>))"
proof -
  have "vector_result (hm_get (inner base) key) vd \<noteq> None"
    using assms by (auto simp: sparse_bases_def)
  then obtain v where v: "vector_result (hm_get (inner base) key) vd = Some v"
    by blast
  with assms(2) have "materialize_keys base (key # keys) d = materialize_keys base keys
       (put_changed key v (d\<lparr>vector_deltas := hm_remove key (vector_deltas d)\<rparr>))"
    by (cases vd; cases "hm_get (inner base) key")
      (auto simp: Let_def get_by_interned_key_def vector_result_def)
  with v show thesis
    by (rule that)
qed

lemma materialize_keys_correct:
  assumes "sparse_bases base d" "hm_wf (changed d)" "hm_wf (vector_deltas d)"
  shows "\<exists>d'. materialize_keys base keys d = (True, d') \<and> applied base d' = applied base d \<and>
    hm_wf (changed d') \<and> hm_wf (vector_deltas d') \<and>
    (\<forall>k. hm_get (vector_deltas d') k = (if k \<in> set keys then None else hm_get (vector_deltas d) k))"
  using assms
proof (induction keys arbitrary: d)
  case (Cons key keys)
  show ?case
  proof (cases "hm_get (vector_deltas d) key")
    case None
    then show ?thesis
      using Cons.IH [OF Cons.prems] by auto
  next
    case (Some vd)
    then obtain v where v: "vector_result (hm_get (inner base) key) vd = Some v"
      "materialize_keys base (key # keys) d = materialize_keys base keys
         (put_changed key v (d\<lparr>vector_deltas := hm_remove key (vector_deltas d)\<rparr>))"
      using materialize_key [OF Cons.prems(1) Some] by blast
    let ?d = "put_changed key v (d\<lparr>vector_deltas := hm_remove key (vector_deltas d)\<rparr>)"
    have "applied base ?d = applied base d" "sparse_bases base ?d"
      using v(1) Some Cons.prems(1) by (auto simp: applied_def put_changed_def sparse_bases_def fun_eq_iff)
    moreover have "hm_wf (changed ?d)" "hm_wf (vector_deltas ?d)"
      using Cons.prems by (simp_all add: put_changed_def)
    ultimately obtain d' where d': "materialize_keys base keys ?d = (True, d')"
      "applied base d' = applied base d" "hm_wf (changed d')" "hm_wf (vector_deltas d')"
      "\<forall>k. hm_get (vector_deltas d') k = (if k \<in> set keys then None else hm_get (vector_deltas ?d) k)"
      using Cons.IH [of ?d] by auto
    then show ?thesis
      unfolding v(2) by (intro exI [of _ d']) (auto simp: put_changed_def)
  qed
qed auto

lemma from_diff_bases:
  assumes "hm_wf (inner new)" "\<not> pm_eq shared same old new"
  shows "sparse_bases old (PropertyDelta_from_diff shared same old new)"
  unfolding sparse_bases_def
proof (intro allI impI)
  fix k vd
  assume "hm_get (vector_deltas (PropertyDelta_from_diff shared same old new)) k = Some vd"
  then obtain v where "diff_vector same (hm_get (inner old) k) v = Some vd"
    using from_diff_lookup(2) [OF assms, of k] by (auto split: Option.bind_splits)
  then show "vector_result (hm_get (inner old) k) vd \<noteq> None"
    by (auto simp: diff_vector_def vector_result_def split: option.splits if_splits VectorDelta.split)
qed

text \<open>
  C30: before a delta is written to disk its vector deltas are replaced by full values. For the
  delta of two property maps this never fails, leaves no vector delta behind, and the delta still
  produces the same properties from the old map.
\<close>

theorem materialize_preserves_apply:
  assumes "hm_wf (inner old)" "hm_wf (inner new)"
  shows "\<exists>d. materialize_vector_deltas old (PropertyDelta_from_diff shared same old new) = (True, d) \<and>
    vector_deltas d = [] \<and>
    (\<forall>k. get_by_interned_key (PropertyDelta_apply s d old) k =
      get_by_interned_key (PropertyDelta_apply s (PropertyDelta_from_diff shared same old new) old) k)"
proof (cases "pm_eq shared same old new")
  case True
  then show ?thesis
    by (auto simp: PropertyDelta_from_diff_def materialize_vector_deltas_def PropertyDelta_new_def)
next
  case False
  let ?d = "PropertyDelta_from_diff shared same old new"
  have wf: "hm_wf (changed ?d)" "hm_wf (vector_deltas ?d)"
    using from_diff_lookup(4,5) [OF assms(2) False] by blast+
  obtain d where d: "materialize_vector_deltas old ?d = (True, d)" "applied old d = applied old ?d"
    "hm_wf (changed d)" "hm_wf (vector_deltas d)"
    "\<forall>k. hm_get (vector_deltas d) k = (if k \<in> fst ` set (vector_deltas ?d) then None
       else hm_get (vector_deltas ?d) k)"
    using materialize_keys_correct [OF from_diff_bases [OF assms(2) False] wf,
        of "map fst (vector_deltas ?d)"]
    by (auto simp: materialize_vector_deltas_def)
  have "hm_get (vector_deltas d) k = None" for k
    using d(5) map_of_eq_None_iff [of "vector_deltas ?d" k] by auto
  then have "vector_deltas d = []"
    by (metis map_of_eq_None_iff list.set_intros(1) image_eqI neq_Nil_conv)
  moreover have "get_by_interned_key (PropertyDelta_apply s d old) k =
      get_by_interned_key (PropertyDelta_apply s ?d old) k" for k
    using apply_lookup [OF assms(1) d(3,4), of s k] apply_lookup [OF assms(1) wf, of s k]
      fun_cong [OF d(2), of k]
    by (simp add: get_by_interned_key_def applied_def)
  ultimately show ?thesis
    using d(1) by blast
qed

theorem materialize_preserves_apply_witness:
  "\<exists>d. materialize_vector_deltas demo_old (PropertyDelta_from_diff False (\<lambda>_ _. False) demo_old demo_new) =
     (True, d) \<and> vector_deltas d = []"
  using materialize_preserves_apply [of demo_old demo_new False "\<lambda>_ _. False" "with_max_capacity 4"] demo_ok
  by (auto simp: properties_ok_def)

lemma approx_demo:
  "floats_approx_equal 0 0x33C00000" "floats_approx_equal 0x33C00000 0x34400000"
  "\<not> floats_approx_equal 0 0x34400000"
  by (simp_all add: floats_approx_equal_def f32_units_def f32_is_nan_def f32_is_infinite_def
      f32_round_units_def VECTOR_EPSILON_def bit_len.simps Let_def)

lemma small_step_no_delta:
  assumes "floats_approx_equal x y"
  shows "PropertyDelta_from_diff False (\<lambda>_ _. False) \<lparr>inner = [(k, Vector [x])], cached_size = n\<rparr>
    \<lparr>inner = [(k, Vector [y])], cached_size = n\<rparr> = PropertyDelta_new"
  using assms by (simp add: PropertyDelta_from_diff_def PropertyDelta_new_def diff_entry_def
      get_by_interned_key_def VectorDelta_from_diff_def contains_interned_key_def Let_def)

text \<open>
  C35: the drift tolerance is per step, not per chain. Three successive vectors, each within the
  tolerance of its predecessor, produce two empty deltas, and the value read back for the third is
  the first, outside the tolerance of what was written.
\<close>

theorem drift_accumulates:
  "\<exists>a b c. PropertyDelta_from_diff False (\<lambda>_ _. False) a b = PropertyDelta_new \<and>
     PropertyDelta_from_diff False (\<lambda>_ _. False) b c = PropertyDelta_new \<and>
     PropertyDelta_apply s (PropertyDelta_from_diff False (\<lambda>_ _. False) b c)
       (PropertyDelta_apply s (PropertyDelta_from_diff False (\<lambda>_ _. False) a b) a) = a \<and>
     \<not> rel_option value_close (get_by_interned_key a (InternedString 0)) (get_by_interned_key c (InternedString 0))"
proof -
  let ?m = "\<lambda>x. \<lparr>inner = [(InternedString 0, Vector [x])], cached_size = 16\<rparr>"
  have "PropertyDelta_apply s PropertyDelta_new (?m 0) = ?m 0"
    by (simp add: PropertyDelta_apply_def delta_is_empty_def PropertyDelta_new_def)
  then show ?thesis
    using approx_demo
    by (intro exI [of _ "?m 0"] exI [of _ "?m 0x33C00000"] exI [of _ "?m 0x34400000"])
      (simp add: value_close_def get_by_interned_key_def small_step_no_delta f32_same_def f32_eq_def
        f32_is_nan_def f32_is_zero_def)
qed

end
