(* ===== verification/Historical.thy ===== *)
theory Historical
  imports Versions Errors
begin

text \<open>
  Historical storage: \<open>src/storage/historical/mod.rs\<close> and \<open>slices.rs\<close>. The code keeps the same maps
  and the same operations once for nodes and once for edges. Here one store of versions carries the
  maps of one kind, the operations are written once over the fields of the trait \<open>EntityVersion\<close>,
  and an \<open>entity_kind\<close> supplies what differs: the owner of a version and its constructors. The
  storage is hot-only, without a cold tier, and without the optional temporal and adjacency
  indexes. The property caches are third-party caches that may drop an entry at any time; \<open>evict\<close>
  models a drop. Pre-anchor hooks are callbacks of the embedder; their outcome is an argument.
\<close>

section \<open>State\<close>

record RetentionPolicy =
  max_versions_per_entity :: nat
  max_age_ms :: i64

definition MAX_RECONSTRUCTION_DEPTH :: nat where
  "MAX_RECONSTRUCTION_DEPTH = 1000"

record storage_limits =
  config :: AnchorConfig
  retention_policy :: RetentionPolicy
  max_reconstruction_depth :: nat

record ('i, 'a) version_store =
  versions :: "(VersionId, 'a EntityVersion_scheme) hashmap"
  version_heads :: "('i, VersionId) hashmap"
  version_counts :: "('i, nat) hashmap"
  open_slices :: "('i, VersionId list) hashmap"
  structural_counts :: "('i, nat) hashmap"
  versions_since_anchor :: "('i, nat) hashmap"
  anchor_count :: nat
  delta_count :: nat
  property_cache :: "(VersionId, PropertyMap) hashmap"
  anchor_cache :: "(VersionId, PropertyMap) hashmap"

definition empty_store :: "('i, 'a) version_store" where
  "empty_store = \<lparr>versions = [], version_heads = [], version_counts = [], open_slices = [],
     structural_counts = [], versions_since_anchor = [], anchor_count = 0, delta_count = 0,
     property_cache = [], anchor_cache = []\<rparr>"

text \<open>What the embedder and the allocator decide: the string pool, which allocations two values or
  two maps share, and the snapshot id the pre-anchor hooks return for the version being stored, if
  the snapshot policy of the entity lets them run.\<close>

record environment =
  interner :: StringInterner
  same_value :: sharing
  same_map :: "PropertyMap \<Rightarrow> PropertyMap \<Rightarrow> bool"
  anchor_hooks :: "VersionId \<Rightarrow> PropertyMap \<Rightarrow> nat option"

record ('i, 'a) entity_kind =
  entity_of :: "'a EntityVersion_scheme \<Rightarrow> 'i"
  new_anchor :: "VersionId \<Rightarrow> 'i \<Rightarrow> BiTemporalInterval \<Rightarrow> InternedString \<Rightarrow> PropertyMap \<Rightarrow>
    'a EntityVersion_scheme"
  new_delta :: "bool \<Rightarrow> sharing \<Rightarrow> VersionId \<Rightarrow> 'i \<Rightarrow> BiTemporalInterval \<Rightarrow> InternedString \<Rightarrow>
    PropertyMap \<Rightarrow> PropertyMap \<Rightarrow> VersionId \<Rightarrow> 'a EntityVersion_scheme"
  not_found :: "'i \<Rightarrow> StorageError"

definition node_kind :: "(NodeId, unit NodeVersion_ext) entity_kind" where
  "node_kind = \<lparr>entity_of = node_id, new_anchor = NodeVersion_new_anchor,
     new_delta = NodeVersion_new_delta, not_found = NodeNotFound\<rparr>"

definition edge_kind :: "NodeId \<Rightarrow> NodeId \<Rightarrow> (EdgeId, unit EdgeVersion_ext) entity_kind" where
  "edge_kind src tgt = \<lparr>entity_of = edge_id,
     new_anchor = (\<lambda>i e t l. EdgeVersion_new_anchor i e t l src tgt),
     new_delta = (\<lambda>sh sa i e t l. EdgeVersion_new_delta sh sa i e t l src tgt),
     not_found = EdgeNotFound\<rparr>"

text \<open>A result together with the storage the call leaves behind, also on an error.\<close>

type_synonym ('i, 'a, 'r) outcome = "(Error + 'r) \<times> ('i, 'a) version_store"

section \<open>Reconstruction\<close>

text \<open>The walk from a version back to its anchor; the first argument is the remaining depth.\<close>

primrec collect_chain ::
  "nat \<Rightarrow> ('i, 'a) version_store \<Rightarrow> VersionId \<Rightarrow> 'a EntityVersion_scheme list \<Rightarrow>
    Error + 'a EntityVersion_scheme list" where
  "collect_chain 0 s cur acc = Inl (TemporalErr (MaxDepthExceeded MAX_RECONSTRUCTION_DEPTH))"
| "collect_chain (Suc n) s cur acc =
     (case hm_get (versions s) cur of
        None \<Rightarrow> Inl (if acc = [] then StorageErr (StorageVersionNotFound cur) else TemporalErr MissingAnchor)
      | Some v \<Rightarrow>
          (if version_is_anchor v then Inr (acc @ [v])
           else case prev_version v of
             None \<Rightarrow> Inl (TemporalErr CorruptedVersionChain)
           | Some p \<Rightarrow> collect_chain n s p (acc @ [v])))"

fun apply_deltas :: "StringInterner \<Rightarrow> 'a EntityVersion_scheme list \<Rightarrow> PropertyMap \<Rightarrow> Error + PropertyMap" where
  "apply_deltas si [] props = Inr props"
| "apply_deltas si (v # vs) props =
     (case data v of
        Delta d \<Rightarrow> apply_deltas si vs (PropertyDelta_apply si d props)
      | Anchor _ _ \<Rightarrow> Inl (TemporalErr CorruptedVersionChain))"

definition reconstruct_iterative ::
  "storage_limits \<Rightarrow> environment \<Rightarrow> ('i, 'a) version_store \<Rightarrow> VersionId \<Rightarrow> Error + PropertyMap" where
  "reconstruct_iterative L E s vid =
     (case collect_chain (max_reconstruction_depth L) s vid [] of
        Inl e \<Rightarrow> Inl e
      | Inr chain \<Rightarrow>
          (case rev chain of
             [] \<Rightarrow> Inl (TemporalErr CorruptedVersionChain)
           | base # deltas \<Rightarrow>
               (case data base of
                  Anchor props _ \<Rightarrow> apply_deltas (interner E) deltas props
                | Delta _ \<Rightarrow> Inl (TemporalErr CorruptedVersionChain))))"

definition cache_properties :: "VersionId \<Rightarrow> PropertyMap \<Rightarrow> ('i, 'a) version_store \<Rightarrow> ('i, 'a) version_store" where
  "cache_properties vid p s = s\<lparr>property_cache := hm_insert vid p (property_cache s)\<rparr>"

definition cache_anchor :: "VersionId \<Rightarrow> PropertyMap \<Rightarrow> ('i, 'a) version_store \<Rightarrow> ('i, 'a) version_store" where
  "cache_anchor vid p s = s\<lparr>anchor_cache := hm_insert vid p (anchor_cache s)\<rparr>"

definition reconstruct ::
  "storage_limits \<Rightarrow> environment \<Rightarrow> VersionId \<Rightarrow> ('i, 'a) version_store \<Rightarrow> ('i, 'a, PropertyMap) outcome" where
  "reconstruct L E vid s =
     (case hm_get (property_cache s) vid of
        Some p \<Rightarrow> (Inr p, s)
      | None \<Rightarrow>
          (case hm_get (anchor_cache s) vid of
             Some p \<Rightarrow> (Inr p, cache_properties vid p s)
           | None \<Rightarrow>
               (case reconstruct_iterative L E s vid of
                  Inl e \<Rightarrow> (Inl e, s)
                | Inr p \<Rightarrow> (Inr p, cache_properties vid p s))))"

text \<open>The caches drop an entry.\<close>

definition evict :: "VersionId \<Rightarrow> ('i, 'a) version_store \<Rightarrow> ('i, 'a) version_store" where
  "evict vid s = s\<lparr>property_cache := hm_remove vid (property_cache s)\<rparr>"

definition evict_anchor :: "VersionId \<Rightarrow> ('i, 'a) version_store \<Rightarrow> ('i, 'a) version_store" where
  "evict_anchor vid s = s\<lparr>anchor_cache := hm_remove vid (anchor_cache s)\<rparr>"

section \<open>Slices\<close>

definition is_open_slice :: "BiTemporalInterval \<Rightarrow> bool" where
  "is_open_slice t \<longleftrightarrow> is_currently_recorded t \<and> tr_start (valid_time t) < tr_end (valid_time t)"

definition count_of :: "('i, nat) hashmap \<Rightarrow> 'i \<Rightarrow> nat" where
  "count_of m i = (case hm_get m i of None \<Rightarrow> 0 | Some n \<Rightarrow> n)"

definition logical_version_count :: "('i, 'a) version_store \<Rightarrow> 'i \<Rightarrow> nat" where
  "logical_version_count s i = count_of (version_counts s) i - count_of (structural_counts s) i"

definition slices_of :: "('i, 'a) version_store \<Rightarrow> 'i \<Rightarrow> VersionId list" where
  "slices_of s i = (case hm_get (open_slices s) i of None \<Rightarrow> [] | Some ids \<Rightarrow> ids)"

definition track_slice_if_open :: "'i \<Rightarrow> VersionId \<Rightarrow> ('i, 'a) version_store \<Rightarrow> ('i, 'a) version_store" where
  "track_slice_if_open i vid s =
     (case hm_get (versions s) vid of
        None \<Rightarrow> s
      | Some v \<Rightarrow>
          (if is_open_slice (temporal v) then
             (let ids = slices_of s i in
              s\<lparr>open_slices := hm_insert i (if vid \<in> set ids then ids else ids @ [vid]) (open_slices s)\<rparr>)
           else s))"

definition untrack_slice :: "'i \<Rightarrow> VersionId \<Rightarrow> ('i, 'a) version_store \<Rightarrow> ('i, 'a) version_store" where
  "untrack_slice i vid s =
     (case hm_get (open_slices s) i of
        None \<Rightarrow> s
      | Some ids \<Rightarrow>
          (let rest = filter (\<lambda>v. v \<noteq> vid) ids in
           s\<lparr>open_slices :=
               (if rest = [] then hm_remove i (open_slices s) else hm_insert i rest (open_slices s))\<rparr>))"

section \<open>Appending a version\<close>

text \<open>Closing the superseded head: the forward link is written before the interval is closed.\<close>

definition close_previous_version_intervals ::
  "VersionId \<Rightarrow> BiTemporalInterval \<Rightarrow> 'a EntityVersion_scheme \<Rightarrow>
    Error option \<times> 'a EntityVersion_scheme" where
  "close_previous_version_intervals new_id new_temporal prev =
     (let prev1 = prev\<lparr>next_version := Some new_id\<rparr>; t = temporal prev1 in
      if is_currently_recorded t \<and>
         tr_start (transaction_time t) < tr_start (transaction_time new_temporal)
      then case close_transaction_time t (tr_start (transaction_time new_temporal)) of
             Inl e \<Rightarrow> (Some (TemporalErr e), prev1)
           | Inr t' \<Rightarrow> (None, prev1\<lparr>temporal := t'\<rparr>)
      else (None, prev1\<lparr>temporal := t\<rparr>))"

definition put_version ::
  "VersionId \<Rightarrow> 'a EntityVersion_scheme \<Rightarrow> ('i, 'a) version_store \<Rightarrow> ('i, 'a) version_store" where
  "put_version vid v s = s\<lparr>versions := hm_insert vid v (versions s)\<rparr>"

definition link_previous ::
  "VersionId option \<Rightarrow> VersionId \<Rightarrow> BiTemporalInterval \<Rightarrow> ('i, 'a) version_store \<Rightarrow> ('i, 'a, unit) outcome" where
  "link_previous prev vid t s =
     (case prev of
        None \<Rightarrow> (Inr (), s)
      | Some prev_id \<Rightarrow>
          (case hm_get (versions s) prev_id of
             None \<Rightarrow> (Inr (), s)
           | Some p \<Rightarrow>
               (case close_previous_version_intervals vid t p of
                  (Some e, p') \<Rightarrow> (Inl e, put_version prev_id p' s)
                | (None, p') \<Rightarrow> (Inr (), put_version prev_id p' s))))"

definition bump :: "'i \<Rightarrow> ('i, nat) hashmap \<Rightarrow> ('i, nat) hashmap" where
  "bump i m = hm_insert i (count_of m i + 1) m"

text \<open>From the finished version record on: hooks, link to the old head, slice index, maps, caches.\<close>

definition store_version ::
  "environment \<Rightarrow> 'i \<Rightarrow> VersionId \<Rightarrow> BiTemporalInterval \<Rightarrow> PropertyMap \<Rightarrow> Provenance option \<Rightarrow>
    VersionId option \<Rightarrow> 'a EntityVersion_scheme \<Rightarrow> ('i, 'a) version_store \<Rightarrow> ('i, 'a, unit) outcome" where
  "store_version E i vid t props prov prev v0 s =
     (let v1 = with_provenance prov v0;
          v = (if version_is_anchor v1 then
                 (case anchor_hooks E vid props of
                    None \<Rightarrow> v1
                  | Some sid \<Rightarrow> v1\<lparr>data := set_vector_snapshot_id sid (data v1)\<rparr>)
               else v1)
      in case link_previous prev vid t s of
           (Inl e, s1) \<Rightarrow> (Inl e, s1)
         | (Inr _, s1) \<Rightarrow>
             (let s2 = (case prev of None \<Rightarrow> s1 | Some p \<Rightarrow> track_slice_if_open i p s1);
                  s3 = put_version vid v s2;
                  s4 = s3\<lparr>version_heads := hm_insert i vid (version_heads s3),
                     version_counts := bump i (version_counts s3),
                     structural_counts :=
                       (if is_structural vid then bump i (structural_counts s3) else structural_counts s3),
                     anchor_count := (if version_is_anchor v then anchor_count s3 + 1 else anchor_count s3),
                     delta_count := (if version_is_anchor v then delta_count s3 else delta_count s3 + 1)\<rparr>;
                  s5 = cache_properties vid props s4
              in (Inr (), if version_is_anchor v then cache_anchor vid props s5 else s5)))"

definition set_since_anchor :: "'i \<Rightarrow> nat \<Rightarrow> ('i, 'a) version_store \<Rightarrow> ('i, 'a) version_store" where
  "set_since_anchor i n s = s\<lparr>versions_since_anchor := hm_insert i n (versions_since_anchor s)\<rparr>"

definition add_version_with_interval ::
  "storage_limits \<Rightarrow> environment \<Rightarrow> ('i, 'a) entity_kind \<Rightarrow> 'i \<Rightarrow> VersionId \<Rightarrow> BiTemporalInterval \<Rightarrow>
    InternedString \<Rightarrow> PropertyMap \<Rightarrow> Provenance option \<Rightarrow> ('i, 'a) version_store \<Rightarrow> ('i, 'a, unit) outcome" where
  "add_version_with_interval L E K i vid t l props prov s =
     (let version_count = logical_version_count s i;
          limit = max_versions_per_entity (retention_policy L) in
      if \<not> is_structural vid \<and> limit \<le> version_count
      then (Inl (StorageErr (CapacityExceeded ''versions'' version_count limit)), s)
      else case hm_get (version_heads s) i of
        None \<Rightarrow>
          store_version E i vid t props prov None (new_anchor K vid i t l props) (set_since_anchor i 0 s)
      | Some prev_id \<Rightarrow>
          (if hm_get (versions s) prev_id = None
           then (Inl (StorageErr (StorageVersionNotFound prev_id)), s)
           else let n = count_of (versions_since_anchor s) i + 1 in
             if unat (anchor_interval (config L)) \<le> n
             then store_version E i vid t props prov (Some prev_id)
                    ((new_anchor K vid i t l props)\<lparr>prev_version := Some prev_id\<rparr>) (set_since_anchor i 0 s)
             else case reconstruct L E prev_id s of
               (Inl e, s1) \<Rightarrow> (Inl e, s1)
             | (Inr old, s1) \<Rightarrow>
                 store_version E i vid t props prov (Some prev_id)
                   (new_delta K (same_map E old props) (same_value E) vid i t l old props prev_id)
                   (set_since_anchor i n s1)))"

text \<open>None is the panic of the interval constructor on an out-of-range start.\<close>

definition add_version ::
  "storage_limits \<Rightarrow> environment \<Rightarrow> ('i, 'a) entity_kind \<Rightarrow> 'i \<Rightarrow> VersionId \<Rightarrow> Timestamp \<Rightarrow> Timestamp \<Rightarrow>
    InternedString \<Rightarrow> PropertyMap \<Rightarrow> bool \<Rightarrow> Provenance option \<Rightarrow> ('i, 'a) version_store \<Rightarrow>
    ('i, 'a, unit) outcome option" where
  "add_version L E K i vid valid_from tx_time l props is_tombstone prov s =
     (case bt_with_valid_time valid_from tx_time of
        None \<Rightarrow> None
      | Some t \<Rightarrow>
          (if is_tombstone then
             (case close_valid_time t valid_from of
                Inl e \<Rightarrow> Some (Inl (TemporalErr e), s)
              | Inr t' \<Rightarrow> Some (add_version_with_interval L E K i vid t' l props prov s))
           else Some (add_version_with_interval L E K i vid t l props prov s)))"

definition add_retracted_version ::
  "storage_limits \<Rightarrow> environment \<Rightarrow> ('i, 'a) entity_kind \<Rightarrow> 'i \<Rightarrow> VersionId \<Rightarrow> Timestamp \<Rightarrow> Timestamp \<Rightarrow>
    Timestamp \<Rightarrow> InternedString \<Rightarrow> PropertyMap \<Rightarrow> Provenance option \<Rightarrow> ('i, 'a) version_store \<Rightarrow>
    ('i, 'a, unit) outcome option" where
  "add_retracted_version L E K i vid valid_from valid_to tx_time l props prov s =
     (case bt_with_valid_time valid_from tx_time of
        None \<Rightarrow> None
      | Some t \<Rightarrow>
          (case close_valid_time t valid_to of
             Inl e \<Rightarrow> Some (Inl (TemporalErr e), s)
           | Inr t' \<Rightarrow> Some (add_version_with_interval L E K i vid t' l props prov s)))"

section \<open>Closing versions\<close>

definition close_version_transaction_time ::
  "('i, 'a) entity_kind \<Rightarrow> VersionId \<Rightarrow> Timestamp \<Rightarrow> ('i, 'a) version_store \<Rightarrow> ('i, 'a, unit) outcome" where
  "close_version_transaction_time K vid e s =
     (case hm_get (versions s) vid of
        None \<Rightarrow> (Inl (StorageErr (StorageVersionNotFound vid)), s)
      | Some v \<Rightarrow>
          (case close_transaction_time (temporal v) e of
             Inl err \<Rightarrow> (Inl (TemporalErr err), s)
           | Inr t \<Rightarrow> (Inr (), untrack_slice (entity_of K v) vid (put_version vid (v\<lparr>temporal := t\<rparr>) s))))"

text \<open>The loop over the versions to withdraw; versions that are already closed are skipped.\<close>

fun close_recorded ::
  "('i, 'a) entity_kind \<Rightarrow> VersionId list \<Rightarrow> Timestamp \<Rightarrow> ('i, 'a) version_store \<Rightarrow> ('i, 'a, unit) outcome" where
  "close_recorded K [] e s = (Inr (), s)"
| "close_recorded K (vid # vids) e s =
     (case hm_get (versions s) vid of
        None \<Rightarrow> close_recorded K vids e s
      | Some v \<Rightarrow>
          (if is_currently_recorded (temporal v) then
             (case close_version_transaction_time K vid e s of
                (Inl err, s1) \<Rightarrow> (Inl err, s1)
              | (Inr _, s1) \<Rightarrow> close_recorded K vids e s1)
           else close_recorded K vids e s))"

definition head_list :: "('i, 'a) version_store \<Rightarrow> 'i \<Rightarrow> VersionId list" where
  "head_list s i = (case hm_get (version_heads s) i of None \<Rightarrow> [] | Some h \<Rightarrow> [h])"

definition close_all_slices ::
  "('i, 'a) entity_kind \<Rightarrow> 'i \<Rightarrow> Timestamp \<Rightarrow> ('i, 'a) version_store \<Rightarrow> ('i, 'a, unit) outcome" where
  "close_all_slices K i commit s = close_recorded K (slices_of s i @ head_list s i) commit s"

section \<open>Planning and applying an update\<close>

record UpdatePlan =
  predecessor :: "VersionId option"
  carry_from :: "Timestamp option"
  new_valid_to :: "Timestamp option"
  reassert :: "VersionId option"

type_synonym slice = "VersionId \<times> BiTemporalInterval"

text \<open>The scan over the slices: the one that contains the time, and the earliest start after it.\<close>

fun scan_slices :: "slice list \<Rightarrow> Timestamp \<Rightarrow> Timestamp option \<Rightarrow> slice option \<times> Timestamp option" where
  "scan_slices [] valid_from next_start = (None, next_start)"
| "scan_slices ((vid, t) # rest) valid_from next_start =
     (if \<not> is_open_slice t then scan_slices rest valid_from next_start
      else if contains (valid_time t) valid_from then (Some (vid, t), next_start)
      else scan_slices rest valid_from
        (if valid_from < tr_start (valid_time t)
         then Some (case next_start of None \<Rightarrow> tr_start (valid_time t) | Some n \<Rightarrow> min n (tr_start (valid_time t)))
         else next_start))"

definition plan_update :: "slice option \<Rightarrow> slice list \<Rightarrow> Timestamp \<Rightarrow> UpdatePlan" where
  "plan_update head other_slices valid_from =
     (let head_slice = (case head of None \<Rightarrow> None | Some h \<Rightarrow> if is_open_slice (snd h) then Some h else None);
          fast = (case head_slice of
                    None \<Rightarrow> None
                  | Some h \<Rightarrow> if contains (valid_time (snd h)) valid_from then Some h else None);
          (pred, next_start) =
            (case fast of
               Some h \<Rightarrow> (Some h, None)
             | None \<Rightarrow> scan_slices (case_option [] (\<lambda>h. [h]) head_slice @ other_slices) valid_from None);
          valid_to = (case pred of
              None \<Rightarrow> next_start
            | Some (_, t) \<Rightarrow> if \<not> tr_is_current (valid_time t) then Some (tr_end (valid_time t)) else None)
      in \<lparr>predecessor = map_option fst pred,
          carry_from = (case pred of
              None \<Rightarrow> None
            | Some (_, t) \<Rightarrow>
                if tr_start (valid_time t) < valid_from then Some (tr_start (valid_time t)) else None),
          new_valid_to = valid_to,
          reassert = (case (valid_to, head_slice) of
              (Some _, Some (head_id, head_t)) \<Rightarrow>
                if tr_is_current (valid_time head_t) \<and> map_option fst pred \<noteq> Some head_id
                then Some head_id else None
            | _ \<Rightarrow> None)\<rparr>)"

definition slice_at :: "('i, 'a) version_store \<Rightarrow> VersionId \<Rightarrow> slice option" where
  "slice_at s vid = map_option (\<lambda>v. (vid, temporal v)) (hm_get (versions s) vid)"

definition plan_entity_update :: "('i, 'a) version_store \<Rightarrow> 'i \<Rightarrow> Timestamp \<Rightarrow> UpdatePlan" where
  "plan_entity_update s i valid_from =
     plan_update (Option.bind (hm_get (version_heads s) i) (slice_at s))
       (List.map_filter (slice_at s) (slices_of s i)) valid_from"

record AppliedUpdate =
  appended :: "slice list"
  reasserted :: "(VersionId \<times> InternedString \<times> PropertyMap) option"

text \<open>What a structural version repeats: its id, the start of its slice, label, properties and
  provenance.\<close>

type_synonym payload = "VersionId \<times> Timestamp \<times> InternedString \<times> PropertyMap \<times> Provenance option"

definition gather_payload ::
  "storage_limits \<Rightarrow> environment \<Rightarrow> VersionId \<Rightarrow> (Timestamp option) \<Rightarrow> VersionId option \<Rightarrow>
    ('i, 'a) version_store \<Rightarrow> ('i, 'a, payload) outcome" where
  "gather_payload L E vid from supplied s =
     (case hm_get (versions s) vid of
        None \<Rightarrow> (Inl (StorageErr (StorageVersionNotFound vid)), s)
      | Some v \<Rightarrow>
          (case reconstruct L E vid s of
             (Inl e, s1) \<Rightarrow> (Inl e, s1)
           | (Inr props, s1) \<Rightarrow>
               (case supplied of
                  None \<Rightarrow> (Inl (StorageErr InconsistentState), s1)
                | Some new_id \<Rightarrow>
                    (Inr (new_id, case_option (tr_start (valid_time (temporal v))) (\<lambda>f. f) from,
                      label v, props, provenance v), s1))))"

definition gather_carry ::
  "storage_limits \<Rightarrow> environment \<Rightarrow> UpdatePlan \<Rightarrow> VersionId option \<Rightarrow> ('i, 'a) version_store \<Rightarrow>
    ('i, 'a, payload option) outcome" where
  "gather_carry L E plan carry_id s =
     (case (predecessor plan, carry_from plan) of
        (Some pred, Some from) \<Rightarrow>
          (case gather_payload L E pred (Some from) carry_id s of
             (Inl e, s1) \<Rightarrow> (Inl e, s1)
           | (Inr p, s1) \<Rightarrow> (Inr (Some p), s1))
      | _ \<Rightarrow> (Inr None, s))"

definition gather_reassert ::
  "storage_limits \<Rightarrow> environment \<Rightarrow> UpdatePlan \<Rightarrow> VersionId option \<Rightarrow> ('i, 'a) version_store \<Rightarrow>
    ('i, 'a, payload option) outcome" where
  "gather_reassert L E plan reassert_id s =
     (case reassert plan of
        None \<Rightarrow> (Inr None, s)
      | Some head \<Rightarrow>
          (case gather_payload L E head None reassert_id s of
             (Inl e, s1) \<Rightarrow> (Inl e, s1)
           | (Inr p, s1) \<Rightarrow> (Inr (Some p), s1)))"

text \<open>Appending the carry-forward, the new version and the re-assertion. None is a panic.\<close>

definition append_carry ::
  "storage_limits \<Rightarrow> environment \<Rightarrow> ('i, 'a) entity_kind \<Rightarrow> 'i \<Rightarrow> Timestamp \<Rightarrow> Timestamp \<Rightarrow> payload option \<Rightarrow>
    ('i, 'a) version_store \<Rightarrow> ('i, 'a, slice list) outcome option" where
  "append_carry L E K i valid_from commit carry s =
     (case carry of
        None \<Rightarrow> Some (Inr [], s)
      | Some (vid, from, l, props, prov) \<Rightarrow>
          (case bt_with_valid_time from commit of
             None \<Rightarrow> None
           | Some t0 \<Rightarrow>
               (case close_valid_time t0 valid_from of
                  Inl e \<Rightarrow> Some (Inl (TemporalErr e), s)
                | Inr t \<Rightarrow>
                    (case add_version_with_interval L E K i vid t l props prov s of
                       (Inl e, s1) \<Rightarrow> Some (Inl e, s1)
                     | (Inr _, s1) \<Rightarrow> Some (Inr [(vid, t)], s1)))))"

definition append_new ::
  "storage_limits \<Rightarrow> environment \<Rightarrow> ('i, 'a) entity_kind \<Rightarrow> 'i \<Rightarrow> Timestamp \<Rightarrow> Timestamp option \<Rightarrow>
    Timestamp \<Rightarrow> VersionId \<Rightarrow> InternedString \<Rightarrow> PropertyMap \<Rightarrow> Provenance option \<Rightarrow>
    ('i, 'a) version_store \<Rightarrow> ('i, 'a, slice list) outcome option" where
  "append_new L E K i valid_from valid_to commit vid l props prov s =
     (case bt_with_valid_time valid_from commit of
        None \<Rightarrow> None
      | Some t0 \<Rightarrow>
          (case (case valid_to of None \<Rightarrow> Inr t0 | Some e \<Rightarrow> close_valid_time t0 e) of
             Inl e \<Rightarrow> Some (Inl (TemporalErr e), s)
           | Inr t \<Rightarrow>
               (case add_version_with_interval L E K i vid t l props prov s of
                  (Inl e, s1) \<Rightarrow> Some (Inl e, s1)
                | (Inr _, s1) \<Rightarrow> Some (Inr [(vid, t)], s1))))"

definition append_reassert ::
  "storage_limits \<Rightarrow> environment \<Rightarrow> ('i, 'a) entity_kind \<Rightarrow> 'i \<Rightarrow> Timestamp \<Rightarrow> payload option \<Rightarrow>
    ('i, 'a) version_store \<Rightarrow> ('i, 'a, slice list) outcome option" where
  "append_reassert L E K i commit again s =
     (case again of
        None \<Rightarrow> Some (Inr [], s)
      | Some (vid, from, l, props, prov) \<Rightarrow> append_new L E K i from None commit vid l props prov s)"

definition apply_update ::
  "storage_limits \<Rightarrow> environment \<Rightarrow> ('i, 'a) entity_kind \<Rightarrow> 'i \<Rightarrow> UpdatePlan \<Rightarrow> Timestamp \<Rightarrow> Timestamp \<Rightarrow>
    VersionId \<Rightarrow> InternedString \<Rightarrow> PropertyMap \<Rightarrow> Provenance option \<Rightarrow> VersionId option \<Rightarrow>
    VersionId option \<Rightarrow> ('i, 'a) version_store \<Rightarrow> ('i, 'a, AppliedUpdate) outcome option" where
  "apply_update L E K i plan valid_from commit vid l props prov carry_id reassert_id s =
     (let n = logical_version_count s i; limit = max_versions_per_entity (retention_policy L) in
      if limit < usize_saturating_add n 1
      then Some (Inl (StorageErr (CapacityExceeded ''versions'' n limit)), s)
      else case gather_carry L E plan carry_id s of
        (Inl e, s1) \<Rightarrow> Some (Inl e, s1)
      | (Inr carry, s1) \<Rightarrow>
          (case gather_reassert L E plan reassert_id s1 of
             (Inl e, s2) \<Rightarrow> Some (Inl e, s2)
           | (Inr again, s2) \<Rightarrow>
               (let to_close = case_option [] (\<lambda>v. [v]) (predecessor plan) @
                      case_option [] (\<lambda>v. [v]) (reassert plan) @
                      (if predecessor plan = None \<and> reassert plan = None then head_list s2 i else []) in
                case close_recorded K to_close commit s2 of
                  (Inl e, s3) \<Rightarrow> Some (Inl e, s3)
                | (Inr _, s3) \<Rightarrow>
                    (case append_carry L E K i valid_from commit carry s3 of
                       None \<Rightarrow> None
                     | Some (Inl e, s4) \<Rightarrow> Some (Inl e, s4)
                     | Some (Inr ap1, s4) \<Rightarrow>
                         (case append_new L E K i valid_from (new_valid_to plan) commit vid l props prov s4 of
                            None \<Rightarrow> None
                          | Some (Inl e, s5) \<Rightarrow> Some (Inl e, s5)
                          | Some (Inr ap2, s5) \<Rightarrow>
                              (case append_reassert L E K i commit again s5 of
                                 None \<Rightarrow> None
                               | Some (Inl e, s6) \<Rightarrow> Some (Inl e, s6)
                               | Some (Inr ap3, s6) \<Rightarrow>
                                   Some (Inr \<lparr>appended = ap1 @ ap2 @ ap3,
                                     reasserted = map_option (\<lambda>(j, _, hl, hp, _). (j, hl, hp)) again\<rparr>, s6)))))))"

section \<open>Reading\<close>

text \<open>The chain walk of a point-in-time read; the first argument is the number of moves left.\<close>

primrec find_loop ::
  "nat \<Rightarrow> ('i, 'a) version_store \<Rightarrow> VersionId \<Rightarrow> Timestamp \<Rightarrow> Timestamp \<Rightarrow> VersionId option" where
  "find_loop 0 s cur v x =
     (case hm_get (versions s) cur of
        None \<Rightarrow> None
      | Some ver \<Rightarrow> if is_visible_at (temporal ver) v x then Some cur else None)"
| "find_loop (Suc n) s cur v x =
     (case hm_get (versions s) cur of
        None \<Rightarrow> None
      | Some ver \<Rightarrow>
          (if is_visible_at (temporal ver) v x then Some cur
           else case prev_version ver of None \<Rightarrow> None | Some p \<Rightarrow> find_loop n s p v x))"

definition find_version_at_time ::
  "('i, 'a) version_store \<Rightarrow> 'i \<Rightarrow> Timestamp \<Rightarrow> Timestamp \<Rightarrow> VersionId option" where
  "find_version_at_time s i v x =
     (case hm_get (version_heads s) i of
        None \<Rightarrow> None
      | Some h \<Rightarrow> find_loop (length (versions s) + 1) s h v x)"

definition get_at_time ::
  "storage_limits \<Rightarrow> environment \<Rightarrow> ('i, 'a) entity_kind \<Rightarrow> 'i \<Rightarrow> Timestamp \<Rightarrow> Timestamp \<Rightarrow>
    ('i, 'a) version_store \<Rightarrow> ('i, 'a, 'a EntityVersion_scheme \<times> PropertyMap) outcome" where
  "get_at_time L E K i v x s =
     (case find_version_at_time s i v x of
        None \<Rightarrow> (Inl (StorageErr (not_found K i)), s)
      | Some vid \<Rightarrow>
          (case hm_get (versions s) vid of
             None \<Rightarrow> (Inl (StorageErr (StorageVersionNotFound vid)), s)
           | Some ver \<Rightarrow>
               (case reconstruct L E vid s of
                  (Inl e, s1) \<Rightarrow> (Inl e, s1)
                | (Inr p, s1) \<Rightarrow> (Inr (ver, p), s1))))"

text \<open>The history walk has no guard, so it returns only on a chain that ends.\<close>

partial_function (option) chain_ids ::
  "('i, 'a) version_store \<Rightarrow> VersionId \<Rightarrow> VersionId list option" where
  "chain_ids s vid =
     (case Option.bind (hm_get (versions s) vid) prev_version of
        None \<Rightarrow> Some [vid]
      | Some p \<Rightarrow> Option.bind (chain_ids s p) (\<lambda>ids. Some (vid # ids)))"

definition history_ids :: "('i, 'a) entity_kind \<Rightarrow> 'i \<Rightarrow> ('i, 'a) version_store \<Rightarrow> (Error + VersionId list) option" where
  "history_ids K i s =
     (case hm_get (version_heads s) i of
        None \<Rightarrow> Some (Inl (StorageErr (not_found K i)))
      | Some h \<Rightarrow> map_option (\<lambda>ids. Inr (filter (\<lambda>v. \<not> is_structural v) (rev ids))) (chain_ids s h))"

text \<open>What a history lists of a version. The code renders the interned label as a string.\<close>

record VersionInfo =
  vi_number :: u64
  vi_version_id :: VersionId
  vi_temporal :: BiTemporalInterval
  vi_properties :: PropertyMap
  vi_label :: InternedString
  vi_provenance :: "Provenance option"

fun version_infos ::
  "storage_limits \<Rightarrow> environment \<Rightarrow> nat \<Rightarrow> VersionId list \<Rightarrow> ('i, 'a) version_store \<Rightarrow>
    ('i, 'a, VersionInfo list) outcome" where
  "version_infos L E n [] s = (Inr [], s)"
| "version_infos L E n (vid # vids) s =
     (case hm_get (versions s) vid of
        None \<Rightarrow> version_infos L E (n + 1) vids s
      | Some v \<Rightarrow>
          (case reconstruct L E vid s of
             (Inl e, s1) \<Rightarrow> (Inl e, s1)
           | (Inr props, s1) \<Rightarrow>
               (case version_infos L E (n + 1) vids s1 of
                  (Inl e, s2) \<Rightarrow> (Inl e, s2)
                | (Inr infos, s2) \<Rightarrow>
                    (Inr (\<lparr>vi_number = word_of_nat (n + 1), vi_version_id = vid, vi_temporal = temporal v,
                       vi_properties = props, vi_label = label v, vi_provenance = provenance v\<rparr> # infos), s2))))"

text \<open>None is a walk that does not end.\<close>

definition get_history ::
  "storage_limits \<Rightarrow> environment \<Rightarrow> ('i, 'a) entity_kind \<Rightarrow> 'i \<Rightarrow> ('i, 'a) version_store \<Rightarrow>
    ('i, 'a, VersionInfo list) outcome option" where
  "get_history L E K i s =
     (case history_ids K i s of
        None \<Rightarrow> None
      | Some (Inl e) \<Rightarrow> Some (Inl e, s)
      | Some (Inr ids) \<Rightarrow> Some (version_infos L E 0 ids s))"

definition get_valid_time_slices ::
  "storage_limits \<Rightarrow> environment \<Rightarrow> 'i \<Rightarrow> ('i, 'a) version_store \<Rightarrow> ('i, 'a, VersionInfo list) outcome" where
  "get_valid_time_slices L E i s =
     (let slices = filter (\<lambda>(_, t). is_open_slice t) (List.map_filter (slice_at s) (slices_of s i @ head_list s i));
          sorted_slices = sort_key (\<lambda>(_, t). tr_start (valid_time t)) slices
      in version_infos L E 0 (map fst sorted_slices) s)"

section \<open>Withdrawing an entity\<close>

text \<open>
  The historical part of a delete and of a retraction: \<open>apply_node_delete\<close> and \<open>apply_node_retract\<close>
  of \<open>src/api/transaction/write/apply.rs\<close> and their edge counterparts.
\<close>

definition create_temporal_interval ::
  "Timestamp \<Rightarrow> Timestamp \<Rightarrow> bool \<Rightarrow> (TemporalError + BiTemporalInterval) option" where
  "create_temporal_interval valid_from tx_time is_tombstone =
     (case bt_with_valid_time valid_from tx_time of
        None \<Rightarrow> None
      | Some t \<Rightarrow> Some (if is_tombstone then close_valid_time t valid_from else Inr t))"

definition apply_delete ::
  "storage_limits \<Rightarrow> environment \<Rightarrow> ('i, 'a) entity_kind \<Rightarrow> 'i \<Rightarrow> Timestamp \<Rightarrow> Timestamp \<Rightarrow> VersionId \<Rightarrow>
    InternedString \<Rightarrow> PropertyMap \<Rightarrow> Provenance option \<Rightarrow> ('i, 'a) version_store \<Rightarrow> ('i, 'a, unit) outcome option" where
  "apply_delete L E K i valid_from commit tombstone_id l props prov s =
     (case close_all_slices K i commit s of
        (Inl e, s1) \<Rightarrow> Some (Inl e, s1)
      | (Inr _, s1) \<Rightarrow>
          (case create_temporal_interval valid_from commit True of
             None \<Rightarrow> None
           | Some (Inl e) \<Rightarrow> Some (Inl (TemporalErr e), s1)
           | Some (Inr _) \<Rightarrow> add_version L E K i tombstone_id valid_from commit l props True prov s1))"

definition apply_retract ::
  "storage_limits \<Rightarrow> environment \<Rightarrow> ('i, 'a) entity_kind \<Rightarrow> 'i \<Rightarrow> Timestamp \<Rightarrow> Timestamp \<Rightarrow> VersionId \<Rightarrow>
    InternedString \<Rightarrow> PropertyMap \<Rightarrow> Provenance option \<Rightarrow> ('i, 'a) version_store \<Rightarrow> ('i, 'a, unit) outcome option" where
  "apply_retract L E K i valid_to commit retraction_id l props prov s =
     (let head = hm_get (version_heads s) i;
          valid_from = (case Option.bind head (hm_get (versions s)) of
              None \<Rightarrow> commit
            | Some v \<Rightarrow> tr_start (valid_time (temporal v)))
      in case (case head of None \<Rightarrow> (Inr (), s) | Some h \<Rightarrow> close_version_transaction_time K h commit s) of
           (Inl e, s1) \<Rightarrow> Some (Inl e, s1)
         | (Inr _, s1) \<Rightarrow> add_retracted_version L E K i retraction_id valid_from valid_to commit l props prov s1)"

end
