(* ===== verification/HistoryReads.thy ===== *)
theory HistoryReads
  imports Historical
begin

text \<open>
  What a read returns, and that it does not change when versions are appended, closed, linked or
  cached: the properties of a version depend only on the payloads along its chain.
\<close>

abbreviation read :: "storage_limits \<Rightarrow> environment \<Rightarrow> ('i, 'a) version_store \<Rightarrow> VersionId \<Rightarrow> Error + PropertyMap" where
  "read L E s vid \<equiv> fst (reconstruct L E vid s)"

abbreviation version_at :: "('i, 'a) version_store \<Rightarrow> VersionId \<Rightarrow> 'a EntityVersion_scheme option" where
  "version_at s vid \<equiv> hm_get (versions s) vid"

text \<open>Every back link of a stored version leads to a stored version.\<close>

definition prev_closed :: "('i, 'a) version_store \<Rightarrow> bool" where
  "prev_closed s \<longleftrightarrow> (\<forall>u ver p. version_at s u = Some ver \<longrightarrow> prev_version ver = Some p \<longrightarrow> version_at s p \<noteq> None)"

text \<open>The payloads of the stored versions are kept.\<close>

definition keeps_payload :: "('i, 'a) version_store \<Rightarrow> ('i, 'a) version_store \<Rightarrow> bool" where
  "keeps_payload s s' \<longleftrightarrow> (\<forall>u ver. version_at s u = Some ver \<longrightarrow>
     (\<exists>ver'. version_at s' u = Some ver' \<and> data ver' = data ver \<and> prev_version ver' = prev_version ver))"

lemma keeps_payloadD:
  "keeps_payload s s' \<Longrightarrow> version_at s u = Some ver \<Longrightarrow>
     \<exists>ver'. version_at s' u = Some ver' \<and> data ver' = data ver \<and> prev_version ver' = prev_version ver"
  by (auto simp: keeps_payload_def)

lemma keeps_payload_refl [simp]: "keeps_payload s s"
  by (simp add: keeps_payload_def)

lemma keeps_payload_trans: "keeps_payload a b \<Longrightarrow> keeps_payload b c \<Longrightarrow> keeps_payload a c"
  unfolding keeps_payload_def by metis

lemma keeps_payload_versions: "versions s' = versions s \<Longrightarrow> keeps_payload s s'"
  by (simp add: keeps_payload_def)

lemma collect_chain_keeps:
  assumes "keeps_payload s s'" "prev_closed s"
  shows "version_at s cur \<noteq> None \<Longrightarrow> map data acc' = map data acc \<Longrightarrow>
    (case collect_chain n s cur acc of
       Inl e \<Rightarrow> collect_chain n s' cur acc' = Inl e
     | Inr vs \<Rightarrow> \<exists>vs'. collect_chain n s' cur acc' = Inr vs' \<and> map data vs' = map data vs)"
proof (induction n arbitrary: cur acc acc')
  case (Suc n)
  then obtain ver ver' where v: "version_at s cur = Some ver" "version_at s' cur = Some ver'"
    "data ver' = data ver" "prev_version ver' = prev_version ver"
    using keeps_payloadD [OF assms(1)] by blast
  show ?case
  proof (cases "version_is_anchor ver \<or> prev_version ver = None")
    case True
    then show ?thesis
      using v Suc.prems(2) by (auto simp: version_is_anchor_def)
  next
    case False
    then obtain p where p: "prev_version ver = Some p" "\<not> version_is_anchor ver"
      by blast
    then have "version_at s p \<noteq> None"
      using assms(2) v(1) by (auto simp: prev_closed_def)
    then show ?thesis
      using Suc.IH [of p "acc' @ [ver']" "acc @ [ver]"] Suc.prems(2) v p
      by (simp add: version_is_anchor_def split: sum.splits)
  qed
qed simp

lemma apply_deltas_data: "map data vs' = map data vs \<Longrightarrow> apply_deltas si vs' p = apply_deltas si vs p"
proof (induction vs arbitrary: vs' p)
  case (Cons v vs)
  then show ?case
    by (cases vs') (auto split: VersionData.split)
qed simp

lemma iterative_keeps:
  assumes "keeps_payload s s'" "prev_closed s" "version_at s vid \<noteq> None"
  shows "reconstruct_iterative L E s' vid = reconstruct_iterative L E s vid"
proof (cases "collect_chain (max_reconstruction_depth L) s vid []")
  case (Inl e)
  then show ?thesis
    using collect_chain_keeps [OF assms, of "[]" "[]" "max_reconstruction_depth L"]
    by (simp add: reconstruct_iterative_def)
next
  case (Inr vs)
  then obtain vs' where vs': "collect_chain (max_reconstruction_depth L) s' vid [] = Inr vs'"
    "map data vs' = map data vs"
    using collect_chain_keeps [OF assms, of "[]" "[]" "max_reconstruction_depth L"] by auto
  have rev: "map data (rev vs') = map data (rev vs)"
    using vs'(2) by (simp add: rev_map [symmetric])
  show ?thesis
  proof (cases "rev vs")
    case Nil
    then show ?thesis
      using rev Inr vs' by (simp add: reconstruct_iterative_def)
  next
    case (Cons b ds)
    then obtain b' ds' where "rev vs' = b' # ds'" "data b' = data b" "map data ds' = map data ds"
      using rev by (cases "rev vs'") auto
    then show ?thesis
      using Inr vs'(1) Cons apply_deltas_data [of ds' ds "interner E"]
      by (simp add: reconstruct_iterative_def split: VersionData.split)
  qed
qed

lemma read_def':
  "read L E s vid = (case hm_get (property_cache s) vid of
     Some p \<Rightarrow> Inr p
   | None \<Rightarrow> (case hm_get (anchor_cache s) vid of Some p \<Rightarrow> Inr p | None \<Rightarrow> reconstruct_iterative L E s vid))"
  by (simp add: reconstruct_def split: option.split sum.split)

text \<open>A step that keeps payloads and changes no cache entry of a stored version changes no read.\<close>

lemma read_keeps:
  assumes "keeps_payload s s'" "prev_closed s" "version_at s vid \<noteq> None"
    "hm_get (property_cache s') vid = hm_get (property_cache s) vid"
    "hm_get (anchor_cache s') vid = hm_get (anchor_cache s) vid"
  shows "read L E s' vid = read L E s vid"
  using assms iterative_keeps [OF assms(1-3)] by (simp add: read_def' split: option.split)

lemma reconstruct_versions [simp]:
  "versions (snd (reconstruct L E vid s)) = versions s"
  "version_heads (snd (reconstruct L E vid s)) = version_heads s"
  "open_slices (snd (reconstruct L E vid s)) = open_slices s"
  "version_counts (snd (reconstruct L E vid s)) = version_counts s"
  "structural_counts (snd (reconstruct L E vid s)) = structural_counts s"
  "versions_since_anchor (snd (reconstruct L E vid s)) = versions_since_anchor s"
  by (simp_all add: reconstruct_def cache_properties_def split: option.split sum.split)

text \<open>Reading fills the cache with the value read, so it changes no later read.\<close>

lemma iterative_versions: "versions s' = versions s \<Longrightarrow> reconstruct_iterative L E s' vid = reconstruct_iterative L E s vid"
proof -
  assume eq: "versions s' = versions s"
  have "collect_chain n s' cur acc = collect_chain n s cur acc" for n cur acc
    by (induction n arbitrary: cur acc) (simp_all add: eq split: option.split)
  then show ?thesis
    by (simp add: reconstruct_iterative_def)
qed

lemma iterative_cache [simp]:
  "reconstruct_iterative L E (cache_properties u p s) vid = reconstruct_iterative L E s vid"
  by (rule iterative_versions) (simp add: cache_properties_def)

lemma read_cache: "read L E (cache_properties u p s) vid = (if vid = u then Inr p else read L E s vid)"
  by (simp add: read_def' split: option.split) (simp add: cache_properties_def split: option.split)

lemma reconstruct_cases:
  "snd (reconstruct L E u s) = s \<or>
     (\<exists>p. read L E s u = Inr p \<and> snd (reconstruct L E u s) = cache_properties u p s)"
  by (simp add: reconstruct_def split: option.split sum.split)

lemma read_after_read: "read L E (snd (reconstruct L E u s)) vid = read L E s vid"
  using reconstruct_cases [of L E u s] by (auto simp: read_cache)

end
