(* ===== verification/HistoryStore.thy ===== *)
theory HistoryStore
  imports HistoryReads
begin

text \<open>
  The effect of the operations of the version store, for any kind of entity whose constructors set
  the fields they are given. The two kinds of the code are instances.
\<close>

section \<open>Kinds\<close>

locale versioned =
  fixes K :: "('i, 'a) entity_kind"
  assumes owner_update [simp]:
      "entity_of K (v\<lparr>next_version := n\<rparr>) = entity_of K v"
      "entity_of K (v\<lparr>temporal := t\<rparr>) = entity_of K v"
      "entity_of K (v\<lparr>prev_version := p\<rparr>) = entity_of K v"
      "entity_of K (v\<lparr>provenance := q\<rparr>) = entity_of K v"
      "entity_of K (v\<lparr>data := d\<rparr>) = entity_of K v"
    and anchor_fields [simp]:
      "entity_of K (new_anchor K vid i t l props) = i"
      "temporal (new_anchor K vid i t l props) = t"
      "label (new_anchor K vid i t l props) = l"
      "data (new_anchor K vid i t l props) = Anchor props None"
      "prev_version (new_anchor K vid i t l props) = None"
    and delta_fields [simp]:
      "entity_of K (new_delta K sh sa vid i t l old props pv) = i"
      "temporal (new_delta K sh sa vid i t l old props pv) = t"
      "label (new_delta K sh sa vid i t l old props pv) = l"
      "data (new_delta K sh sa vid i t l old props pv) = delta_from_diff sh sa old props"
      "prev_version (new_delta K sh sa vid i t l old props pv) = Some pv"

interpretation node_versions: versioned node_kind
  by unfold_locales (simp_all add: node_kind_def NodeVersion_new_anchor_def NodeVersion_new_delta_def
      VersionData_anchor_def)

interpretation edge_versions: versioned "edge_kind src tgt"
  by unfold_locales (simp_all add: edge_kind_def EdgeVersion_new_anchor_def EdgeVersion_new_delta_def
      VersionData_anchor_def)

section \<open>Appending\<close>

text \<open>The head is left as it is, forward link apart, when its transaction time is already closed or
  starts with the new version's.\<close>

definition head_settled :: "'a EntityVersion_scheme \<Rightarrow> BiTemporalInterval \<Rightarrow> bool" where
  "head_settled hv t \<longleftrightarrow> \<not> (is_currently_recorded (temporal hv) \<and>
     tr_start (transaction_time (temporal hv)) < tr_start (transaction_time t))"

definition track_in :: "('i, 'a) version_store \<Rightarrow> 'i \<Rightarrow> VersionId \<Rightarrow> VersionId list" where
  "track_in s i h =
     (case version_at s h of
        None \<Rightarrow> slices_of s i
      | Some hv \<Rightarrow>
          (if is_open_slice (temporal hv) \<and> h \<notin> set (slices_of s i) then slices_of s i @ [h] else slices_of s i))"

definition appended_to ::
  "storage_limits \<Rightarrow> environment \<Rightarrow> ('i, 'a) entity_kind \<Rightarrow> 'i \<Rightarrow> VersionId \<Rightarrow> VersionId \<Rightarrow>
    BiTemporalInterval \<Rightarrow> InternedString \<Rightarrow> PropertyMap \<Rightarrow> Provenance option \<Rightarrow>
    ('i, 'a) version_store \<Rightarrow> ('i, 'a) version_store \<Rightarrow> bool" where
  "appended_to L E K i h vid t l props prov s s' \<longleftrightarrow>
     (\<exists>hv nv. version_at s h = Some hv \<and>
        versions s' = hm_insert vid nv (hm_insert h (hv\<lparr>next_version := Some vid\<rparr>) (versions s)) \<and>
        temporal nv = t \<and> label nv = l \<and> provenance nv = prov \<and> prev_version nv = Some h \<and>
        entity_of K nv = i) \<and>
     version_heads s' = hm_insert i vid (version_heads s) \<and>
     slices_of s' i = track_in s i h \<and> (\<forall>j. j \<noteq> i \<longrightarrow> slices_of s' j = slices_of s j) \<and>
     logical_version_count s' i \<le> logical_version_count s i + (if is_structural vid then 0 else 1) \<and>
     read L E s' vid = Inr props \<and>
     (\<forall>u. version_at s u \<noteq> None \<longrightarrow> read L E s' u = read L E s u)"

lemma link_previous_settled:
  assumes "version_at s h = Some hv" "head_settled hv t"
  shows "link_previous (Some h) vid t s = (Inr (), put_version h (hv\<lparr>next_version := Some vid\<rparr>) s)"
  using assms by (auto simp: link_previous_def close_previous_version_intervals_def head_settled_def Let_def)

lemma track_slices:
  "slices_of (track_slice_if_open i h s) j = (if j = i then track_in s i h else slices_of s j)"
  by (auto simp: track_slice_if_open_def track_in_def slices_of_def Let_def split: option.split)

lemma track_fields [simp]:
  "versions (track_slice_if_open i h s) = versions s"
  "version_heads (track_slice_if_open i h s) = version_heads s"
  "version_counts (track_slice_if_open i h s) = version_counts s"
  "structural_counts (track_slice_if_open i h s) = structural_counts s"
  "property_cache (track_slice_if_open i h s) = property_cache s"
  "anchor_cache (track_slice_if_open i h s) = anchor_cache s"
  by (simp_all add: track_slice_if_open_def Let_def split: option.split)

lemma count_bump: "count_of (bump i m) j = (if j = i then count_of m i + 1 else count_of m j)"
  by (simp add: bump_def count_of_def)

lemma slices_of_cong: "open_slices s' = open_slices s \<Longrightarrow> slices_of s' i = slices_of s i"
  by (simp add: slices_of_def)

lemma slices_of_put [simp]: "slices_of (put_version h v s) i = slices_of s i"
  by (simp add: slices_of_def put_version_def)

lemma logical_put:
  "logical_version_count (put_version h v s) i = logical_version_count s i"
  "logical_version_count (untrack_slice j u s) i = logical_version_count s i"
  by (simp_all add: logical_version_count_def put_version_def untrack_slice_def Let_def split: option.split)

lemma versions_put [simp]:
  "versions (put_version h v s) = hm_insert h v (versions s)"
  "version_heads (put_version h v s) = version_heads s"
  by (simp_all add: put_version_def)

context versioned
begin

lemma store_version_appends:
  assumes h: "version_at s h = Some hv" "head_settled hv t" and fresh: "version_at s vid = None"
    and v0: "temporal v0 = t" "label v0 = l" "prev_version v0 = Some h" "entity_of K v0 = i"
    and closed: "prev_closed s"
  obtains s' where "store_version E i vid t props prov (Some h) v0 s = (Inr (), s')"
    "appended_to L E K i h vid t l props prov s s'"
proof -
  let ?v1 = "with_provenance prov v0"
  define v where "v = (if version_is_anchor ?v1 then
      (case anchor_hooks E vid props of None \<Rightarrow> ?v1 | Some sid \<Rightarrow> ?v1\<lparr>data := set_vector_snapshot_id sid (data ?v1)\<rparr>)
      else ?v1)"
  have v: "temporal v = t" "label v = l" "prev_version v = Some h" "entity_of K v = i" "provenance v = prov"
    using v0 by (auto simp: v_def with_provenance_def split: option.split)
  define s1 where "s1 = track_slice_if_open i h (put_version h (hv\<lparr>next_version := Some vid\<rparr>) s)"
  define s4 where "s4 = (put_version vid v s1)\<lparr>version_heads := hm_insert i vid (version_heads s1),
      version_counts := bump i (version_counts s1),
      structural_counts := (if is_structural vid then bump i (structural_counts s1) else structural_counts s1),
      anchor_count := (if version_is_anchor v then anchor_count s1 + 1 else anchor_count s1),
      delta_count := (if version_is_anchor v then delta_count s1 else delta_count s1 + 1)\<rparr>"
  define s' where "s' = (if version_is_anchor v then cache_anchor vid props (cache_properties vid props s4)
      else cache_properties vid props s4)"
  have run: "store_version E i vid t props prov (Some h) v0 s = (Inr (), s')"
    by (simp add: store_version_def Let_def link_previous_settled [OF h] s'_def s4_def s1_def v_def [symmetric]
        put_version_def)
  have versions: "versions s' = hm_insert vid v (hm_insert h (hv\<lparr>next_version := Some vid\<rparr>) (versions s))"
    by (simp add: s'_def s4_def s1_def cache_anchor_def cache_properties_def put_version_def)
  have "keeps_payload s s'"
    using h fresh by (auto simp: keeps_payload_def versions)
  then have reads: "read L E s' u = read L E s u" if "version_at s u \<noteq> None" for u
    using that fresh
    by (intro read_keeps closed)
      (auto simp: s'_def s4_def s1_def cache_anchor_def cache_properties_def put_version_def)
  have "read L E s' vid = Inr props"
    by (simp add: read_def' s'_def cache_anchor_def cache_properties_def)
  moreover have "slices_of s' j = slices_of s1 j" for j
    by (rule slices_of_cong) (simp add: s'_def s4_def cache_anchor_def cache_properties_def put_version_def)
  moreover have "slices_of s1 j = (if j = i then track_in s i h else slices_of s j)" for j
    using h by (simp add: s1_def track_slices track_in_def)
  moreover have "version_heads s' = hm_insert i vid (version_heads s)"
    by (simp add: s'_def s4_def s1_def cache_anchor_def cache_properties_def put_version_def)
  moreover have "logical_version_count s' i \<le> logical_version_count s i + (if is_structural vid then 0 else 1)"
    by (simp add: logical_version_count_def s'_def s4_def s1_def cache_anchor_def cache_properties_def
        put_version_def count_bump) arith
  ultimately have "appended_to L E K i h vid t l props prov s s'"
    using h versions v reads unfolding appended_to_def by auto
  with run show thesis
    by (rule that)
qed

lemma appended_to_cong:
  assumes "versions a = versions b" "version_heads a = version_heads b" "\<And>j. slices_of a j = slices_of b j"
    "logical_version_count a i = logical_version_count b i" "\<And>u. read L E a u = read L E b u"
  shows "appended_to L E K i h vid t l props prov a s' \<longleftrightarrow> appended_to L E K i h vid t l props prov b s'"
proof -
  have "track_in a i h = track_in b i h"
    by (simp add: track_in_def assms split: option.split)
  then show ?thesis
    by (simp add: appended_to_def assms)
qed

lemma since_anchor_appended:
  "appended_to L E K i h vid t l props prov (set_since_anchor i n s) s' \<longleftrightarrow>
     appended_to L E K i h vid t l props prov s s'"
proof (rule appended_to_cong)
  show "read L E (set_since_anchor i n s) u = read L E s u" for u
    using iterative_versions [of "set_since_anchor i n s" s L E u]
    by (simp add: read_def' set_since_anchor_def split: option.split)
qed (simp_all add: set_since_anchor_def slices_of_def logical_version_count_def)

lemma read_appended:
  "appended_to L E K i h vid t l props prov (snd (reconstruct L E u s)) s' \<longleftrightarrow>
     appended_to L E K i h vid t l props prov s s'"
  by (rule appended_to_cong) (simp_all add: slices_of_def logical_version_count_def read_after_read)

text \<open>Appending to an entity whose head is settled succeeds and has exactly this effect.\<close>

lemma add_appends:
  assumes head: "hm_get (version_heads s) i = Some h" "version_at s h = Some hv" "head_settled hv t"
    and readable: "read L E s h = Inr old" and fresh: "version_at s vid = None" and closed: "prev_closed s"
    and capacity: "is_structural vid \<or> logical_version_count s i < max_versions_per_entity (retention_policy L)"
  obtains s' where "add_version_with_interval L E K i vid t l props prov s = (Inr (), s')"
    "appended_to L E K i h vid t l props prov s s'"
proof (cases "unat (anchor_interval (config L)) \<le> count_of (versions_since_anchor s) i + 1")
  case True
  let ?s = "set_since_anchor i 0 s"
  obtain s' where s': "store_version E i vid t props prov (Some h)
      ((new_anchor K vid i t l props)\<lparr>prev_version := Some h\<rparr>) ?s = (Inr (), s')"
    "appended_to L E K i h vid t l props prov ?s s'"
    using store_version_appends [of ?s h hv t vid "(new_anchor K vid i t l props)\<lparr>prev_version := Some h\<rparr>" l i E props prov L] head fresh closed
    by (auto simp: set_since_anchor_def prev_closed_def)
  have "add_version_with_interval L E K i vid t l props prov s = (Inr (), s')"
    using True head capacity s'(1) by (auto simp: add_version_with_interval_def Let_def)
  then show thesis
    using that s'(2) since_anchor_appended by blast
next
  case False
  let ?n = "count_of (versions_since_anchor s) i + 1"
  obtain s1 where s1: "reconstruct L E h s = (Inr old, s1)"
    using readable by (cases "reconstruct L E h s") auto
  then have snd: "s1 = snd (reconstruct L E h s)"
    by simp
  let ?s = "set_since_anchor i ?n s1"
  let ?v = "new_delta K (same_map E old props) (same_value E) vid i t l old props h"
  obtain s' where s': "store_version E i vid t props prov (Some h) ?v ?s = (Inr (), s')"
    "appended_to L E K i h vid t l props prov ?s s'"
    using store_version_appends [of ?s h hv t vid ?v l i E props prov L] head fresh closed
    by (auto simp: set_since_anchor_def prev_closed_def snd)
  have "add_version_with_interval L E K i vid t l props prov s = (Inr (), s')"
    using False head capacity s'(1) s1 by (auto simp: add_version_with_interval_def Let_def)
  moreover have "appended_to L E K i h vid t l props prov s s'"
    using s'(2) by (simp add: since_anchor_appended snd read_appended)
  ultimately show thesis
    by (rule that)
qed

end

section \<open>Withdrawing\<close>

definition end_tx :: "Timestamp \<Rightarrow> 'a EntityVersion_scheme \<Rightarrow> 'a EntityVersion_scheme" where
  "end_tx e v = v\<lparr>temporal := \<lparr>valid_time = valid_time (temporal v),
     transaction_time = \<lparr>tr_start = tr_start (transaction_time (temporal v)), tr_end = e\<rparr>\<rparr>\<rparr>"

definition withdrawn ::
  "storage_limits \<Rightarrow> environment \<Rightarrow> ('i, 'a) entity_kind \<Rightarrow> VersionId set \<Rightarrow> Timestamp \<Rightarrow>
    ('i, 'a) version_store \<Rightarrow> ('i, 'a) version_store \<Rightarrow> bool" where
  "withdrawn L E K vids e s s' \<longleftrightarrow>
     (\<forall>u. version_at s' u = (if u \<in> vids then map_option (end_tx e) (version_at s u) else version_at s u)) \<and>
     (hm_wf (versions s) \<longrightarrow> hm_wf (versions s')) \<and>
     version_heads s' = version_heads s \<and>
     (\<forall>i. set (slices_of s' i) =
        set (slices_of s i) - {u \<in> vids. \<exists>v. version_at s u = Some v \<and> entity_of K v = i}) \<and>
     (\<forall>i. distinct (slices_of s i) \<longrightarrow> distinct (slices_of s' i)) \<and>
     (\<forall>i. logical_version_count s' i = logical_version_count s i) \<and>
     (\<forall>u. version_at s u \<noteq> None \<longrightarrow> read L E s' u = read L E s u)"

definition recorded_in :: "('i, 'a) version_store \<Rightarrow> VersionId list \<Rightarrow> VersionId set" where
  "recorded_in s vids = {u \<in> set vids. \<exists>v. version_at s u = Some v \<and> is_currently_recorded (temporal v)}"

lemma untrack_fields [simp]:
  "versions (untrack_slice i vid s) = versions s"
  "version_heads (untrack_slice i vid s) = version_heads s"
  "version_counts (untrack_slice i vid s) = version_counts s"
  "structural_counts (untrack_slice i vid s) = structural_counts s"
  "property_cache (untrack_slice i vid s) = property_cache s"
  "anchor_cache (untrack_slice i vid s) = anchor_cache s"
  by (simp_all add: untrack_slice_def Let_def split: option.split)

lemma untrack_slices:
  "slices_of (untrack_slice i vid s) j = (if j = i then filter (\<lambda>v. v \<noteq> vid) (slices_of s i) else slices_of s j)"
  by (auto simp: untrack_slice_def slices_of_def Let_def split: option.split)

lemma end_tx_fields [simp]:
  "data (end_tx e v) = data v" "prev_version (end_tx e v) = prev_version v" "label (end_tx e v) = label v"
  "valid_time (temporal (end_tx e v)) = valid_time (temporal v)"
  "tr_start (transaction_time (temporal (end_tx e v))) = tr_start (transaction_time (temporal v))"
  "tr_end (transaction_time (temporal (end_tx e v))) = e"
  "provenance (end_tx e v) = provenance v"
  by (simp_all add: end_tx_def)

lemma close_transaction_time_ok:
  assumes "tr_start (transaction_time t) \<le> e" "\<not> exceeds_max e"
  shows "close_transaction_time t e =
    Inr \<lparr>valid_time = valid_time t, transaction_time = \<lparr>tr_start = tr_start (transaction_time t), tr_end = e\<rparr>\<rparr>"
  using assms by (simp add: close_transaction_time_def close_at_def)

context versioned
begin

lemma end_tx_owner [simp]: "entity_of K (end_tx e v) = entity_of K v"
  by (simp add: end_tx_def)

lemma close_version_withdraws:
  assumes v: "version_at s vid = Some v" and e: "tr_start (transaction_time (temporal v)) \<le> e" "\<not> exceeds_max e"
    and closed: "prev_closed s"
  obtains s' where "close_version_transaction_time K vid e s = (Inr (), s')" "withdrawn L E K {vid} e s s'"
proof -
  let ?s' = "untrack_slice (entity_of K v) vid (put_version vid (end_tx e v) s)"
  have "close_version_transaction_time K vid e s = (Inr (), ?s')"
    using v close_transaction_time_ok [OF e] by (simp add: close_version_transaction_time_def end_tx_def)
  moreover have "keeps_payload s ?s'"
    using v by (auto simp: keeps_payload_def)
  then have "read L E ?s' u = read L E s u" if "version_at s u \<noteq> None" for u
    using that by (intro read_keeps closed) (auto simp: put_version_def)
  then have "withdrawn L E K {vid} e s ?s'"
    using v by (auto simp: withdrawn_def untrack_slices logical_put split: if_splits)
  ultimately show thesis
    by (rule that)
qed

lemma withdrawn_trans:
  assumes "withdrawn L E K A e s s1" "withdrawn L E K B e s1 s2" "A \<inter> B = {}"
  shows "withdrawn L E K (A \<union> B) e s s2"
proof -
  have owner: "(\<exists>v. version_at s1 u = Some v \<and> entity_of K v = i) \<longleftrightarrow>
      (\<exists>v. version_at s u = Some v \<and> entity_of K v = i)" for u i
    using assms(1) by (auto simp: withdrawn_def)
  have "version_at s1 u \<noteq> None" if "version_at s u \<noteq> None" for u
    using assms(1) that by (auto simp: withdrawn_def)
  then show ?thesis
    using assms owner unfolding withdrawn_def by auto
qed

lemma withdrawn_prev_closed: "withdrawn L E K A e s s' \<Longrightarrow> prev_closed s \<Longrightarrow> prev_closed s'"
  unfolding withdrawn_def prev_closed_def by (auto split: if_splits)

lemma end_tx_not_recorded: "e \<noteq> TIMESTAMP_MAX \<Longrightarrow> \<not> is_currently_recorded (temporal (end_tx e v))"
  by (simp add: is_currently_recorded_def tr_is_current_def)

text \<open>Withdrawing a list closes the versions of it that are still recorded, repetitions or not.\<close>

lemma close_recorded_withdraws:
  assumes "\<And>u v. u \<in> set vids \<Longrightarrow> version_at s u = Some v \<Longrightarrow> tr_start (transaction_time (temporal v)) \<le> e"
    and "\<not> exceeds_max e" "e \<noteq> TIMESTAMP_MAX" "prev_closed s"
  shows "\<exists>s'. close_recorded K vids e s = (Inr (), s') \<and> withdrawn L E K (recorded_in s vids) e s s'"
  using assms
proof (induction vids arbitrary: s)
  case Nil
  then show ?case
    by (simp add: withdrawn_def recorded_in_def)
next
  case (Cons vid vids)
  show ?case
  proof (cases "\<exists>v. version_at s vid = Some v \<and> is_currently_recorded (temporal v)")
    case True
    then obtain v where v: "version_at s vid = Some v" "is_currently_recorded (temporal v)"
      by blast
    have start: "tr_start (transaction_time (temporal v)) \<le> e"
      using Cons.prems(1) [of vid v] v(1) by simp
    obtain s1 where s1: "close_version_transaction_time K vid e s = (Inr (), s1)" "withdrawn L E K {vid} e s s1"
      using close_version_withdraws [OF v(1) start Cons.prems(2,4)] by blast
    have at: "version_at s1 u = (if u = vid then Some (end_tx e v) else version_at s u)" for u
      using s1(2) v(1) by (simp add: withdrawn_def)
    have "tr_start (transaction_time (temporal w)) \<le> e" if "u \<in> set vids" "version_at s1 u = Some w" for u w
      using that at [of u] start Cons.prems(1) [of u] by (auto split: if_splits)
    then obtain s2 where s2: "close_recorded K vids e s1 = (Inr (), s2)" "withdrawn L E K (recorded_in s1 vids) e s1 s2"
      using Cons.IH [of s1] Cons.prems(2,3) withdrawn_prev_closed [OF s1(2) Cons.prems(4)] by blast
    have "recorded_in s1 vids = recorded_in s vids - {vid}"
      using at end_tx_not_recorded [OF Cons.prems(3), of v] by (auto simp: recorded_in_def split: if_splits)
    moreover have "recorded_in s (vid # vids) = {vid} \<union> (recorded_in s vids - {vid})"
      using v by (auto simp: recorded_in_def)
    ultimately have "withdrawn L E K (recorded_in s (vid # vids)) e s s2"
      using withdrawn_trans [OF s1(2) s2(2)] by simp
    then show ?thesis
      using v s1(1) s2(1) by simp
  next
    case False
    then have "close_recorded K (vid # vids) e s = close_recorded K vids e s" "recorded_in s (vid # vids) = recorded_in s vids"
      by (auto simp: recorded_in_def split: option.split)
    moreover have "\<exists>s'. close_recorded K vids e s = (Inr (), s') \<and> withdrawn L E K (recorded_in s vids) e s s'"
      using Cons.prems(1) by (intro Cons.IH [OF _ Cons.prems(2-4)]) (meson list.set_intros(2))
    ultimately show ?thesis
      by metis
  qed
qed

end

end
