(* ===== verification/HistoryView.thy ===== *)
theory HistoryView
  imports HistoryStore
begin

text \<open>
  The history of one entity as a list of entries, newest first: the abstract state the store
  implements. An entry has the id of a version, its bi-temporal rectangle, its label and its
  properties. Appending a version conses an entry; withdrawing versions closes the transaction time
  of their entries; a point-in-time read finds the first entry whose rectangle contains the point.
\<close>

section \<open>Entries\<close>

type_synonym entry = "VersionId \<times> BiTemporalInterval \<times> InternedString \<times> PropertyMap"

abbreviation entry_id :: "entry \<Rightarrow> VersionId" where
  "entry_id \<equiv> fst"

abbreviation entry_time :: "entry \<Rightarrow> BiTemporalInterval" where
  "entry_time e \<equiv> fst (snd e)"

abbreviation entry_content :: "entry \<Rightarrow> InternedString \<times> PropertyMap" where
  "entry_content e \<equiv> snd (snd e)"

definition close_entry :: "VersionId set \<Rightarrow> Timestamp \<Rightarrow> entry \<Rightarrow> entry" where
  "close_entry A c e =
     (if entry_id e \<in> A then
        (entry_id e, \<lparr>valid_time = valid_time (entry_time e),
           transaction_time = \<lparr>tr_start = tr_start (transaction_time (entry_time e)), tr_end = c\<rparr>\<rparr>,
         entry_content e)
      else e)"

definition lookup :: "entry list \<Rightarrow> Timestamp \<Rightarrow> Timestamp \<Rightarrow> entry option" where
  "lookup es v x = List.find (\<lambda>e. is_visible_at (entry_time e) v x) es"

definition belief :: "entry list \<Rightarrow> Timestamp \<Rightarrow> Timestamp \<Rightarrow> (InternedString \<times> PropertyMap) option" where
  "belief es v x = map_option entry_content (lookup es v x)"

lemma close_entry_id [simp]: "entry_id (close_entry A c e) = entry_id e"
  by (simp add: close_entry_def)

lemma close_entry_content [simp]: "entry_content (close_entry A c e) = entry_content e"
  by (simp add: close_entry_def)

section \<open>The store implements the list\<close>

definition owned :: "('i, 'a) entity_kind \<Rightarrow> ('i, 'a) version_store \<Rightarrow> 'i \<Rightarrow> VersionId set" where
  "owned K s i = {u. \<exists>v. version_at s u = Some v \<and> entity_of K v = i}"

fun linked :: "('i, 'a) version_store \<Rightarrow> VersionId list \<Rightarrow> bool" where
  "linked s [] \<longleftrightarrow> False"
| "linked s [u] \<longleftrightarrow> (\<exists>v. version_at s u = Some v \<and> prev_version v = None)"
| "linked s (u # w # us) \<longleftrightarrow> (\<exists>v. version_at s u = Some v \<and> prev_version v = Some w) \<and> linked s (w # us)"

definition shows_entry :: "storage_limits \<Rightarrow> environment \<Rightarrow> ('i, 'a) version_store \<Rightarrow> entry \<Rightarrow> bool" where
  "shows_entry L E s e \<longleftrightarrow>
     (\<exists>v. version_at s (entry_id e) = Some v \<and> temporal v = entry_time e \<and> label v = fst (entry_content e)) \<and>
     read L E s (entry_id e) = Inr (snd (entry_content e))"

definition open_ids :: "entry list \<Rightarrow> VersionId set" where
  "open_ids es = entry_id ` {e \<in> set es. is_open_slice (entry_time e)}"

definition represents ::
  "storage_limits \<Rightarrow> environment \<Rightarrow> ('i, 'a) entity_kind \<Rightarrow> ('i, 'a) version_store \<Rightarrow> 'i \<Rightarrow> entry list \<Rightarrow> bool" where
  "represents L E K s i es \<longleftrightarrow>
     es \<noteq> [] \<and> hm_get (version_heads s) i = Some (entry_id (hd es)) \<and>
     linked s (map entry_id es) \<and> distinct (map entry_id es) \<and> set (map entry_id es) = owned K s i \<and>
     (\<forall>e \<in> set es. shows_entry L E s e) \<and> set (slices_of s i) = open_ids (tl es) \<and> distinct (slices_of s i)"

lemma open_ids_simps [simp]:
  "open_ids [] = {}"
  "open_ids (e # es) = (if is_open_slice (entry_time e) then insert (entry_id e) (open_ids es) else open_ids es)"
  by (auto simp: open_ids_def)

lemma set_track_in:
  "version_at s h = Some hv \<Longrightarrow>
     set (track_in s i h) = (if is_open_slice (temporal hv) then insert h (set (slices_of s i)) else set (slices_of s i))"
  by (auto simp: track_in_def)

lemma representsD:
  assumes "represents L E K s i es"
  shows "es \<noteq> []" "hm_get (version_heads s) i = Some (entry_id (hd es))" "linked s (map entry_id es)"
    "distinct (map entry_id es)" "entry_id ` set es = owned K s i" "set (slices_of s i) = open_ids (tl es)"
    "\<And>e. e \<in> set es \<Longrightarrow> shows_entry L E s e" "distinct (slices_of s i)"
  using assms by (auto simp: represents_def)

lemma linked_cong:
  assumes "\<And>u v. u \<in> set us \<Longrightarrow> version_at s u = Some v \<Longrightarrow>
    \<exists>v'. version_at s' u = Some v' \<and> prev_version v' = prev_version v"
  shows "linked s us \<Longrightarrow> linked s' us"
  using assms
proof (induction us rule: linked.induct [of _ s])
  case (2 s u)
  then show ?case by fastforce
next
  case (3 s u w us)
  then have "linked s' (w # us)"
    by simp
  then show ?case
    using "3.prems" by fastforce
qed simp

lemma linked_stored: "linked s us \<Longrightarrow> u \<in> set us \<Longrightarrow> version_at s u \<noteq> None"
  by (induction s us rule: linked.induct) auto

text \<open>The chain walk is a search through the entries; the move limit is never reached.\<close>

lemma find_loop_chain:
  assumes "linked s (map entry_id es)" "length es \<le> Suc n"
    "\<And>e. e \<in> set es \<Longrightarrow> \<exists>v. version_at s (entry_id e) = Some v \<and> temporal v = entry_time e"
  shows "find_loop n s (entry_id (hd es)) v x = map_option entry_id (lookup es v x)"
  using assms
proof (induction es arbitrary: n)
  case (Cons e es)
  obtain ver where ver: "version_at s (entry_id e) = Some ver" "temporal ver = entry_time e"
    using Cons.prems(3) [of e] by auto
  show ?case
  proof (cases es)
    case Nil
    then show ?thesis
      using Cons.prems(1) ver by (cases n) (auto simp: lookup_def)
  next
    case (Cons e2 es2)
    then obtain m where m: "n = Suc m"
      using Cons.prems(2) by (cases n) auto
    have "linked s (map entry_id es)" "prev_version ver = Some (entry_id (hd es))"
      using Cons.prems(1) Cons ver by auto
    then show ?thesis
      using Cons.IH [of m] Cons.prems(2,3) ver m by (simp add: lookup_def)
  qed
qed simp

lemma chain_length:
  assumes "hm_wf (versions s)" "distinct us" "\<And>u. u \<in> set us \<Longrightarrow> version_at s u \<noteq> None"
  shows "length us \<le> length (versions s)"
proof -
  have "set us \<subseteq> set (map fst (versions s))"
    using assms(3) by (auto simp: map_of_eq_None_iff)
  then have "card (set us) \<le> card (set (map fst (versions s)))"
    by (intro card_mono) auto
  then show ?thesis
    using assms(1,2) by (simp only: distinct_card length_map)
qed

lemma find_version_lookup:
  assumes "represents L E K s i es" "hm_wf (versions s)"
  shows "find_version_at_time s i v x = map_option entry_id (lookup es v x)"
proof -
  note r = representsD [OF assms(1)]
  have "length (map entry_id es) \<le> length (versions s)"
    using chain_length [OF assms(2) r(4)] r(3) linked_stored by blast
  then show ?thesis
    using r(2,7) find_loop_chain [OF r(3), of "length (versions s) + 1" v x]
    unfolding find_version_at_time_def shows_entry_def by (simp only: length_map option.case) fastforce
qed

text \<open>What a client of a point-in-time read sees.\<close>

definition content_at_time ::
  "storage_limits \<Rightarrow> environment \<Rightarrow> ('i, 'a) entity_kind \<Rightarrow> 'i \<Rightarrow> Timestamp \<Rightarrow> Timestamp \<Rightarrow>
    ('i, 'a) version_store \<Rightarrow> (InternedString \<times> PropertyMap) option" where
  "content_at_time L E K i v x s =
     (case fst (get_at_time L E K i v x s) of Inl _ \<Rightarrow> None | Inr (ver, p) \<Rightarrow> Some (label ver, p))"

lemma content_belief:
  assumes "represents L E K s i es" "hm_wf (versions s)"
  shows "content_at_time L E K i v x s = belief es v x"
proof (cases "lookup es v x")
  case None
  then show ?thesis
    using find_version_lookup [OF assms] by (simp add: content_at_time_def get_at_time_def belief_def)
next
  case (Some e)
  then have "e \<in> set es"
    by (auto simp: lookup_def find_Some_iff)
  then have "shows_entry L E s e"
    by (rule representsD(7) [OF assms(1)])
  then obtain ver where ver: "version_at s (entry_id e) = Some ver" "label ver = fst (entry_content e)"
    "reconstruct L E (entry_id e) s = (Inr (snd (entry_content e)), snd (reconstruct L E (entry_id e) s))"
    by (metis prod.collapse shows_entry_def)
  have "fst (get_at_time L E K i v x s) = Inr (ver, snd (entry_content e))"
    using find_version_lookup [OF assms, of v x] Some ver(1)
    by (subst get_at_time_def) (simp, subst ver(3), simp)
  then show ?thesis
    using ver(2) Some by (simp add: content_at_time_def belief_def)
qed

section \<open>Operations on the list\<close>

lemma represents_cong:
  assumes "represents L E K s i es" "version_heads s' = version_heads s" "versions s' = versions s"
    "slices_of s' i = slices_of s i"
    "\<And>u. version_at s u \<noteq> None \<Longrightarrow> read L E s' u = read L E s u"
  shows "represents L E K s' i es"
proof -
  note r = representsD [OF assms(1)]
  have "linked s' (map entry_id es)"
    by (rule linked_cong [OF _ r(3)]) (simp add: assms(3))
  moreover have "shows_entry L E s' e" if "e \<in> set es" for e
    using r(7) [OF that] assms(3,5) by (auto simp: shows_entry_def)
  moreover have "owned K s' i = owned K s i"
    by (simp add: owned_def assms(3))
  ultimately show ?thesis
    using r assms(2,4) by (auto simp: represents_def)
qed

lemma represents_read: "represents L E K s i es \<Longrightarrow> represents L E K (snd (reconstruct L E u s)) i es"
  by (rule represents_cong) (simp_all add: slices_of_def read_after_read)

context versioned
begin

lemma withdrawn_version:
  assumes "withdrawn L E K A c s s'" "version_at s u = Some v"
  shows "version_at s' u = Some (if u \<in> A then end_tx c v else v)"
  using assms by (simp add: withdrawn_def)

lemma withdrawn_owned: "withdrawn L E K A c s s' \<Longrightarrow> owned K s' i = owned K s i"
  by (auto simp: withdrawn_def owned_def split: if_splits)

lemma represents_withdrawn:
  assumes "represents L E K s i es" "withdrawn L E K A c s s'" "A \<subseteq> owned K s i" "c \<noteq> TIMESTAMP_MAX"
  shows "represents L E K s' i (map (close_entry A c) es)"
proof -
  note r = representsD [OF assms(1)]
  note w = withdrawn_version [OF assms(2)]
  have "linked s' (map entry_id es)"
    using r(3) by (rule linked_cong [rotated]) (auto dest!: w)
  moreover have "shows_entry L E s' (close_entry A c e)" if "e \<in> set es" for e
    using r(7) [OF that] w [of "entry_id e"] assms(2)
    by (auto simp: shows_entry_def withdrawn_def close_entry_def end_tx_def)
  moreover have "open_ids (map (close_entry A c) (tl es)) = open_ids (tl es) - A"
    using assms(4)
    by (force simp: open_ids_def close_entry_def is_open_slice_def is_currently_recorded_def tr_is_current_def)
  moreover have "distinct (slices_of s' i)"
    using assms(2) r(8) by (simp add: withdrawn_def)
  moreover have "set (slices_of s' i) = set (slices_of s i) - A"
  proof -
    have "{u \<in> A. \<exists>v. version_at s u = Some v \<and> entity_of K v = i} = A"
      using assms(3) by (auto simp: owned_def)
    then show ?thesis
      using assms(2) by (simp add: withdrawn_def)
  qed
  moreover have "hm_get (version_heads s') i = Some (entry_id (hd es))"
    using assms(2) r(2) by (simp add: withdrawn_def)
  ultimately show ?thesis
    using r withdrawn_owned [OF assms(2), of i] unfolding represents_def
    by (simp add: comp_def hd_map map_tl [symmetric])
qed

lemma appended_version:
  assumes "appended_to L E K i h vid t l props prov s s'" "version_at s vid = None" "version_at s u = Some v"
  shows "\<exists>v'. version_at s' u = Some v' \<and> temporal v' = temporal v \<and> label v' = label v \<and>
    prev_version v' = prev_version v \<and> entity_of K v' = entity_of K v \<and> provenance v' = provenance v"
  using assms by (auto simp: appended_to_def)

lemma appended_owned:
  assumes "appended_to L E K i h vid t l props prov s s'" "version_at s vid = None"
  shows "owned K s' j = (if j = i then insert vid (owned K s i) else owned K s j)"
proof -
  obtain hv nv where "version_at s h = Some hv" "entity_of K nv = i"
    "versions s' = hm_insert vid nv (hm_insert h (hv\<lparr>next_version := Some vid\<rparr>) (versions s))"
    using assms(1) by (auto simp: appended_to_def)
  then show ?thesis
    using assms(2) by (auto simp: owned_def)
qed

lemma represents_appended:
  assumes "represents L E K s i es" "appended_to L E K i (entry_id (hd es)) vid t l props prov s s'"
    "version_at s vid = None"
  shows "represents L E K s' i ((vid, t, l, props) # es)"
proof -
  note r = representsD [OF assms(1)]
  note a = appended_version [OF assms(2,3)]
  obtain e es' where es: "es = e # es'"
    using r(1) by (cases es) auto
  have "linked s' (map entry_id es)"
    using r(3) by (rule linked_cong [rotated]) (auto dest!: a)
  moreover have "\<exists>nv. version_at s' vid = Some nv \<and> temporal nv = t \<and> label nv = l \<and>
      prev_version nv = Some (entry_id e)"
    using assms(2) es by (auto simp: appended_to_def)
  ultimately have "linked s' (vid # map entry_id es)" "shows_entry L E s' (vid, t, l, props)"
    using assms(2) by (auto simp: es shows_entry_def appended_to_def)
  moreover have "shows_entry L E s' e'" if "e' \<in> set es" for e'
    using r(7) [OF that] assms(2) a [of "entry_id e'"] by (fastforce simp: shows_entry_def appended_to_def)
  moreover have "set (slices_of s' i) = open_ids es \<and> distinct (slices_of s' i)"
  proof -
    obtain hv where "version_at s (entry_id e) = Some hv" "temporal hv = entry_time e"
      using r(7) [of e] by (auto simp: shows_entry_def es)
    moreover have "slices_of s' i = track_in s i (entry_id e)"
      using assms(2) by (simp add: appended_to_def es)
    ultimately show ?thesis
      using r(6,8) by (auto simp: track_in_def es split: option.split)
  qed
  moreover have "vid \<notin> owned K s i"
    using assms(3) by (simp add: owned_def)
  ultimately show ?thesis
    using r(4,5) assms(2) appended_owned [OF assms(2,3), of i] unfolding represents_def
    by (auto simp: appended_to_def)
qed

end

end
