(* ===== verification/HistoryBelief.thy ===== *)
theory HistoryBelief
  imports HistoryView
begin

text \<open>
  Supersession on entry lists: the invariant of a live history and what an update changes. The
  rectangles of the entries are disjoint, so at every point of the bi-temporal plane at most one
  entry is visible, and the still-recorded entries cover valid time from some start on, without gaps.
\<close>

section \<open>Well-formed histories\<close>

definition disjoint_entries :: "entry list \<Rightarrow> bool" where
  "disjoint_entries es \<longleftrightarrow> (\<forall>e \<in> set es. \<forall>e' \<in> set es. entry_id e \<noteq> entry_id e' \<longrightarrow>
     (\<forall>v x. \<not> (is_visible_at (entry_time e) v x \<and> is_visible_at (entry_time e') v x)))"

text \<open>Everything was recorded by \<open>now\<close>, and what is closed was closed by \<open>now\<close>.\<close>

definition recorded_by :: "Timestamp \<Rightarrow> entry list \<Rightarrow> bool" where
  "recorded_by now es \<longleftrightarrow> (\<forall>e \<in> set es.
     tr_start (transaction_time (entry_time e)) \<le> now \<and>
     (is_currently_recorded (entry_time e) \<or> tr_end (transaction_time (entry_time e)) \<le> now) \<and>
     valid_timestamp (tr_start (valid_time (entry_time e))) \<and> valid_timestamp (tr_end (valid_time (entry_time e))))"

text \<open>Newest first.\<close>

definition chronological :: "entry list \<Rightarrow> bool" where
  "chronological es \<longleftrightarrow> sorted_wrt (\<lambda>e e'. tr_start (transaction_time (entry_time e')) \<le> tr_start (transaction_time (entry_time e))) es"

definition open_headed :: "entry list \<Rightarrow> bool" where
  "open_headed es \<longleftrightarrow> es \<noteq> [] \<and> is_open_slice (entry_time (hd es)) \<and> tr_is_current (valid_time (entry_time (hd es)))"

definition covers_from :: "Timestamp \<Rightarrow> entry list \<Rightarrow> bool" where
  "covers_from b es \<longleftrightarrow> (\<forall>v. b \<le> v \<longrightarrow> v < TIMESTAMP_MAX \<longrightarrow>
     (\<exists>e \<in> set es. is_open_slice (entry_time e) \<and> contains (valid_time (entry_time e)) v)) \<and>
     (\<forall>e \<in> set es. is_open_slice (entry_time e) \<longrightarrow> b \<le> tr_start (valid_time (entry_time e)))"

definition live_history :: "Timestamp \<Rightarrow> Timestamp \<Rightarrow> entry list \<Rightarrow> bool" where
  "live_history b now es \<longleftrightarrow> distinct (map entry_id es) \<and> disjoint_entries es \<and> recorded_by now es \<and>
     chronological es \<and> open_headed es \<and> covers_from b es"

lemma disjointD:
  "disjoint_entries es \<Longrightarrow> e \<in> set es \<Longrightarrow> e' \<in> set es \<Longrightarrow> is_visible_at (entry_time e) v x \<Longrightarrow>
     is_visible_at (entry_time e') v x \<Longrightarrow> entry_id e = entry_id e'"
  by (auto simp: disjoint_entries_def)

lemma lookup_None: "lookup es v x = None \<longleftrightarrow> (\<forall>e \<in> set es. \<not> is_visible_at (entry_time e) v x)"
  unfolding lookup_def find_None_iff by blast

lemma lookup_unique:
  assumes "distinct (map entry_id es)" "disjoint_entries es" "e \<in> set es" "is_visible_at (entry_time e) v x"
  shows "lookup es v x = Some e"
proof -
  obtain e' where e': "lookup es v x = Some e'"
    using assms(3,4) lookup_None [of es v x] by blast
  then have "e' \<in> set es" "is_visible_at (entry_time e') v x"
    by (auto simp: lookup_def find_Some_iff)
  then have "entry_id e' = entry_id e"
    using disjointD [OF assms(2)] assms(3,4) by blast
  then show ?thesis
    using e' \<open>e' \<in> set es\<close> assms(1,3) by (simp add: distinct_map inj_on_def)
qed

lemma belief_visible:
  "distinct (map entry_id es) \<Longrightarrow> disjoint_entries es \<Longrightarrow> e \<in> set es \<Longrightarrow>
     is_visible_at (entry_time e) v x \<Longrightarrow> belief es v x = Some (entry_content e)"
  by (simp add: belief_def lookup_unique)

lemma belief_none: "(\<And>e. e \<in> set es \<Longrightarrow> \<not> is_visible_at (entry_time e) v x) \<Longrightarrow> belief es v x = None"
  using lookup_None [of es v x] unfolding belief_def by simp

text \<open>From the last commit on, exactly the open slices are visible.\<close>

lemma visible_after:
  assumes "recorded_by now es" "e \<in> set es" "now < x" "x < TIMESTAMP_MAX"
  shows "is_visible_at (entry_time e) v x \<longleftrightarrow>
    is_currently_recorded (entry_time e) \<and> contains (valid_time (entry_time e)) v"
  using assms by (force simp: recorded_by_def is_visible_at_def is_currently_recorded_def
      tr_is_current_def contains_def)

lemma open_slice_iff:
  "is_open_slice t \<longleftrightarrow> is_currently_recorded t \<and> (\<exists>v. contains (valid_time t) v)"
  by (auto simp: is_open_slice_def contains_def)

lemma slices_disjoint:
  assumes "disjoint_entries es" "recorded_by now es" "now < c" "c < TIMESTAMP_MAX"
    "e \<in> set es" "e' \<in> set es" "is_currently_recorded (entry_time e)" "is_currently_recorded (entry_time e')"
    "contains (valid_time (entry_time e)) v" "contains (valid_time (entry_time e')) v"
  shows "entry_id e = entry_id e'"
  using disjointD [OF assms(1,5,6), of v c] visible_after [OF assms(2)] assms(3-) by blast

section \<open>Withdrawing entries\<close>

lemma visible_close:
  assumes "entry_id e \<in> A \<longrightarrow> is_currently_recorded (entry_time e)" "c \<le> TIMESTAMP_MAX"
  shows "is_visible_at (entry_time (close_entry A c e)) v x \<longleftrightarrow>
    is_visible_at (entry_time e) v x \<and> (entry_id e \<in> A \<longrightarrow> x < c)"
  using assms by (auto simp: close_entry_def is_visible_at_def contains_def is_currently_recorded_def tr_is_current_def)

lemma belief_close_same:
  assumes "\<And>e. e \<in> set es \<Longrightarrow> is_visible_at (entry_time (close_entry A c e)) v x = is_visible_at (entry_time e) v x"
  shows "belief (map (close_entry A c) es) v x = belief es v x"
  using assms
proof (induction es)
  case (Cons e es)
  then show ?case
    by (auto simp: belief_def lookup_def)
qed (simp add: belief_def lookup_def)

lemma belief_close_before:
  assumes "\<And>e. e \<in> set es \<Longrightarrow> entry_id e \<in> A \<Longrightarrow> is_currently_recorded (entry_time e)"
    "c \<le> TIMESTAMP_MAX" "x < c"
  shows "belief (map (close_entry A c) es) v x = belief es v x"
  using visible_close [of _ A c v x] assms by (intro belief_close_same) auto

lemma belief_cons: "\<not> is_visible_at (entry_time e) v x \<Longrightarrow> belief (e # es) v x = belief es v x"
  by (simp add: belief_def lookup_def)

text \<open>The rectangle of a version recorded at \<open>c\<close>.\<close>

definition rect :: "Timestamp \<Rightarrow> Timestamp \<Rightarrow> Timestamp \<Rightarrow> BiTemporalInterval" where
  "rect a b c = \<lparr>valid_time = \<lparr>tr_start = a, tr_end = b\<rparr>, transaction_time = \<lparr>tr_start = c, tr_end = TIMESTAMP_MAX\<rparr>\<rparr>"

lemma visible_rect: "is_visible_at (rect a b c) v x \<longleftrightarrow> a \<le> v \<and> v < b \<and> c \<le> x \<and> x < TIMESTAMP_MAX"
  by (auto simp: rect_def is_visible_at_def contains_def)

lemma rect_fields [simp]:
  "valid_time (rect a b c) = \<lparr>tr_start = a, tr_end = b\<rparr>"
  "transaction_time (rect a b c) = \<lparr>tr_start = c, tr_end = TIMESTAMP_MAX\<rparr>"
  "is_currently_recorded (rect a b c)"
  by (simp_all add: rect_def is_currently_recorded_def tr_is_current_def)

lemma rect_inject [simp]: "rect a b c = rect a' b' c' \<longleftrightarrow> a = a' \<and> b = b' \<and> c = c'"
  by (auto simp: rect_def)

section \<open>Replacing slices\<close>

text \<open>
  The common shape of every write: some recorded entries are withdrawn at the commit and new
  rectangles starting at the commit are put in front. It is enough that the new rectangles are
  disjoint in valid time from each other and from the recorded entries that stay.
\<close>

definition fits :: "entry list \<Rightarrow> VersionId set \<Rightarrow> Timestamp \<Rightarrow> entry list \<Rightarrow> bool" where
  "fits es A c ns \<longleftrightarrow>
     (\<forall>n \<in> set ns. \<exists>a b. entry_time n = rect a b c \<and> valid_timestamp a \<and> valid_timestamp b) \<and>
     (\<forall>n \<in> set ns. \<forall>n' \<in> set ns. entry_id n \<noteq> entry_id n' \<longrightarrow>
        (\<forall>v. \<not> (contains (valid_time (entry_time n)) v \<and> contains (valid_time (entry_time n')) v))) \<and>
     (\<forall>n \<in> set ns. \<forall>e \<in> set es. entry_id e \<notin> A \<longrightarrow> is_currently_recorded (entry_time e) \<longrightarrow>
        (\<forall>v. \<not> (contains (valid_time (entry_time n)) v \<and> contains (valid_time (entry_time e)) v)))"

lemma fits_rect:
  "fits es A c ns \<Longrightarrow> n \<in> set ns \<Longrightarrow> \<exists>a b. entry_time n = rect a b c \<and> valid_timestamp a \<and> valid_timestamp b"
  unfolding fits_def by blast

lemma replace_disjoint:
  assumes "disjoint_entries es" "recorded_by now es" "now < c" "c < TIMESTAMP_MAX" "fits es A c ns"
    and recorded: "\<And>e. e \<in> set es \<Longrightarrow> entry_id e \<in> A \<Longrightarrow> is_currently_recorded (entry_time e)"
  shows "disjoint_entries (ns @ map (close_entry A c) es)"
proof -
  have old: "\<not> (is_visible_at (entry_time n) v x \<and> is_visible_at (entry_time (close_entry A c e)) v x)"
    if n: "n \<in> set ns" and e: "e \<in> set es" for n e v x
  proof
    assume vis: "is_visible_at (entry_time n) v x \<and> is_visible_at (entry_time (close_entry A c e)) v x"
    obtain a b where "entry_time n = rect a b c"
      using fits_rect [OF assms(5) n] by blast
    with vis have x: "c \<le> x" "x < TIMESTAMP_MAX" "contains (valid_time (entry_time n)) v"
      by (auto simp: visible_rect contains_def)
    have "is_visible_at (entry_time e) v x" "entry_id e \<notin> A"
      using vis visible_close [of e A c v x] recorded [OF e] assms(4) x(1) by auto
    then have "is_currently_recorded (entry_time e)" "contains (valid_time (entry_time e)) v"
      using visible_after [OF assms(2) e, of x v] assms(3) x by auto
    then show False
      using assms(5) n e x(3) \<open>entry_id e \<notin> A\<close> unfolding fits_def by blast
  qed
  have new: "\<not> (is_visible_at (entry_time n) v x \<and> is_visible_at (entry_time n') v x)"
    if "n \<in> set ns" "n' \<in> set ns" "entry_id n \<noteq> entry_id n'" for n n' v x
    using assms(5) that unfolding fits_def is_visible_at_def by blast
  have kept: "\<not> (is_visible_at (entry_time (close_entry A c e)) v x \<and> is_visible_at (entry_time (close_entry A c e')) v x)"
    if "e \<in> set es" "e' \<in> set es" "entry_id e \<noteq> entry_id e'" for e e' v x
    using disjointD [OF assms(1) that(1,2), of v x] visible_close [of e A c v x] visible_close [of e' A c v x]
      recorded that assms(4) by auto
  have mem: "f \<in> set ns \<or> (\<exists>e \<in> set es. f = close_entry A c e)" if "f \<in> set (ns @ map (close_entry A c) es)" for f
    using that by auto
  show ?thesis
    unfolding disjoint_entries_def
  proof (intro ballI impI allI)
    fix f g v x
    assume f: "f \<in> set (ns @ map (close_entry A c) es)" and g: "g \<in> set (ns @ map (close_entry A c) es)"
      and ne: "entry_id f \<noteq> entry_id g"
    show "\<not> (is_visible_at (entry_time f) v x \<and> is_visible_at (entry_time g) v x)"
      using mem [OF f] mem [OF g] ne old new kept close_entry_id by metis
  qed
qed

text \<open>
  A replacement whose new entries are copies of withdrawn ones, one new entry apart, changes the
  belief exactly on the rectangle of that entry.
\<close>

lemma replace_belief:
  assumes base: "distinct (map entry_id es)" "disjoint_entries es" "recorded_by now es" "now < c" "c < TIMESTAMP_MAX"
    and fit: "fits es A c ns"
    and recorded: "\<And>e. e \<in> set es \<Longrightarrow> entry_id e \<in> A \<Longrightarrow> is_currently_recorded (entry_time e)"
    and ids: "distinct (map entry_id (ns @ es))"
    and new: "n0 \<in> set ns" "entry_time n0 = rect vf vt c"
    and copies: "\<And>n. n \<in> set ns \<Longrightarrow> n \<noteq> n0 \<Longrightarrow> \<exists>e \<in> set es. entry_id e \<in> A \<and> entry_content e = entry_content n \<and>
      (\<forall>v. contains (valid_time (entry_time n)) v \<longrightarrow> contains (valid_time (entry_time e)) v)"
    and covered: "\<And>e v. e \<in> set es \<Longrightarrow> entry_id e \<in> A \<Longrightarrow> contains (valid_time (entry_time e)) v \<Longrightarrow>
      \<not> (vf \<le> v \<and> v < vt) \<Longrightarrow> \<exists>n \<in> set ns. entry_content n = entry_content e \<and> contains (valid_time (entry_time n)) v"
    and x: "x < TIMESTAMP_MAX"
  shows "belief (ns @ map (close_entry A c) es) v x =
    (if c \<le> x \<and> vf \<le> v \<and> v < vt then Some (entry_content n0) else belief es v x)"
proof (cases "c \<le> x")
  case False
  have "\<not> is_visible_at (entry_time n) v x" if n: "n \<in> set ns" for n
  proof -
    obtain a b where "entry_time n = rect a b c"
      using fits_rect [OF fit n] by blast
    then show ?thesis
      using False by (simp add: visible_rect)
  qed
  then have "belief (ns @ map (close_entry A c) es) v x = belief (map (close_entry A c) es) v x"
    by (induction ns) (simp_all add: belief_cons)
  then show ?thesis
    using False belief_close_before [of es A c x v] recorded base(5) by simp
next
  case True
  let ?es = "ns @ map (close_entry A c) es"
  have dist: "distinct (map entry_id ?es)"
    using ids by (simp add: comp_def)
  have disj: "disjoint_entries ?es"
    by (rule replace_disjoint [OF base(2-5) fit recorded])
  have shown: "belief ?es v x = Some (entry_content n)" if n: "n \<in> set ns" and v: "contains (valid_time (entry_time n)) v" for n
  proof (rule belief_visible [OF dist disj])
    obtain a b where "entry_time n = rect a b c"
      using fits_rect [OF fit n] by blast
    then show "is_visible_at (entry_time n) v x"
      using v True x by (simp add: visible_rect contains_def)
  qed (simp add: n)
  have seen: "is_visible_at (entry_time e) v x \<longleftrightarrow> is_currently_recorded (entry_time e) \<and> contains (valid_time (entry_time e)) v"
    if "e \<in> set es" for e
    using visible_after [OF base(3) that, of x v] True base(4) x by auto
  show ?thesis
  proof (cases "vf \<le> v \<and> v < vt")
    case inside: True
    then show ?thesis
      using shown [OF new(1)] True by (simp add: new(2) contains_def)
  next
    case outside: False
    show ?thesis
    proof (cases "\<exists>e \<in> set es. is_visible_at (entry_time e) v x")
      case True
      then obtain e where e: "e \<in> set es" "is_visible_at (entry_time e) v x"
        by blast
      have "belief ?es v x = Some (entry_content e)"
      proof (cases "entry_id e \<in> A")
        case True
        then show ?thesis
          using covered [OF e(1) True, of v] seen [OF e(1)] e(2) outside shown by metis
      next
        case False
        then have "is_visible_at (entry_time (close_entry A c e)) v x"
          using visible_close [of e A c v x] base(5) e(2) by simp
        then show ?thesis
          using belief_visible [OF dist disj, of "close_entry A c e" v x] e(1) by simp
      qed
      then show ?thesis
        using outside belief_visible [OF base(1,2) e] by auto
    next
      case False
      have "\<not> is_visible_at (entry_time n) v x" if n: "n \<in> set ns" for n
      proof (cases "n = n0")
        case False
        then show ?thesis
          using copies [OF n] recorded seen \<open>\<not> (\<exists>e \<in> set es. is_visible_at (entry_time e) v x)\<close>
          unfolding is_visible_at_def by blast
      qed (use outside new(2) in \<open>auto simp: visible_rect\<close>)
      moreover have "\<not> is_visible_at (entry_time (close_entry A c e)) v x" if "e \<in> set es" for e
        using visible_close [of e A c v x] recorded [OF that] base(5) False that by auto
      ultimately have "belief ?es v x = None"
        by (intro belief_none) auto
      then show ?thesis
        using outside False belief_none [of es v x] by auto
    qed
  qed
qed

end
