(* ===== verification/HistoryUpdate.thy ===== *)
theory HistoryUpdate
  imports HistoryBelief
begin

text \<open>
  The plan of an update on a live history, and the entries it puts in front: the carry-forward of
  the uncovered prefix, the new version, and the re-asserted head after a backfill.
\<close>

section \<open>The plan\<close>

lemma scan_found:
  "scan_slices ss vf acc = (Some (u, t), ns) \<Longrightarrow>
     (u, t) \<in> set ss \<and> is_open_slice t \<and> contains (valid_time t) vf"
  by (induction ss vf acc rule: scan_slices.induct) (auto split: if_splits)

lemma scan_absent:
  "scan_slices ss vf acc = (None, ns) \<Longrightarrow> (u, t) \<in> set ss \<Longrightarrow> is_open_slice t \<Longrightarrow>
     \<not> contains (valid_time t) vf"
  by (induction ss vf acc rule: scan_slices.induct) (auto split: if_splits)

lemma scan_next_le:
  "scan_slices ss vf acc = (None, ns) \<Longrightarrow>
     (\<forall>a. acc = Some a \<longrightarrow> (\<exists>n. ns = Some n \<and> n \<le> a)) \<and>
     (\<forall>u t. (u, t) \<in> set ss \<longrightarrow> is_open_slice t \<longrightarrow> vf < tr_start (valid_time t) \<longrightarrow>
       (\<exists>n. ns = Some n \<and> n \<le> tr_start (valid_time t)))"
proof (induction ss vf acc rule: scan_slices.induct)
  case (2 vid t rest vf acc)
  show ?case
  proof (cases "is_open_slice t \<and> vf < tr_start (valid_time t)")
    case True
    let ?acc = "Some (case acc of None \<Rightarrow> tr_start (valid_time t) | Some n \<Rightarrow> min n (tr_start (valid_time t)))"
    have "\<not> contains (valid_time t) vf"
      using True by (auto simp: contains_def)
    then have "scan_slices rest vf ?acc = (None, ns)"
      using "2.prems" True by simp
    then obtain n where "ns = Some n" "n \<le> the ?acc" "\<forall>u t. (u, t) \<in> set rest \<longrightarrow> is_open_slice t \<longrightarrow>
        vf < tr_start (valid_time t) \<longrightarrow> n \<le> tr_start (valid_time t)"
      using "2.IH"(2) True \<open>\<not> contains (valid_time t) vf\<close> by auto
    then show ?thesis
      by (auto split: option.splits)
  next
    case False
    then have "scan_slices rest vf acc = (None, ns)"
      using "2.prems" by (auto split: if_splits)
    then show ?thesis
      using "2.IH" False "2.prems" by (auto split: if_splits)
  qed
qed auto

lemma scan_next_start:
  "scan_slices ss vf acc = (None, Some n) \<Longrightarrow>
     acc = Some n \<or> (\<exists>u t. (u, t) \<in> set ss \<and> is_open_slice t \<and> vf < n \<and> tr_start (valid_time t) = n)"
proof (induction ss vf acc rule: scan_slices.induct)
  case (2 vid t rest vf acc)
  then show ?case
    by (fastforce split: if_splits option.splits simp: min_def)
qed auto

text \<open>The two shapes of a plan on a live history.\<close>

definition splits_slice :: "entry list \<Rightarrow> Timestamp \<Rightarrow> entry \<Rightarrow> UpdatePlan \<Rightarrow> bool" where
  "splits_slice es vf e plan \<longleftrightarrow>
     e \<in> set es \<and> is_open_slice (entry_time e) \<and> contains (valid_time (entry_time e)) vf \<and>
     plan = \<lparr>predecessor = Some (entry_id e),
       carry_from = (if tr_start (valid_time (entry_time e)) < vf then Some (tr_start (valid_time (entry_time e))) else None),
       new_valid_to = (if e = hd es then None else Some (tr_end (valid_time (entry_time e)))),
       reassert = (if e = hd es then None else Some (entry_id (hd es)))\<rparr> \<and>
     (e \<noteq> hd es \<longrightarrow> tr_end (valid_time (entry_time e)) \<le> tr_start (valid_time (entry_time (hd es))))"

definition fills_gap :: "entry list \<Rightarrow> Timestamp \<Rightarrow> Timestamp \<Rightarrow> UpdatePlan \<Rightarrow> bool" where
  "fills_gap es vf n plan \<longleftrightarrow>
     vf < n \<and> n \<le> tr_start (valid_time (entry_time (hd es))) \<and>
     (\<exists>e \<in> set es. is_open_slice (entry_time e) \<and> tr_start (valid_time (entry_time e)) = n) \<and>
     (\<forall>e \<in> set es. is_open_slice (entry_time e) \<longrightarrow> \<not> contains (valid_time (entry_time e)) vf) \<and>
     (\<forall>e \<in> set es. is_open_slice (entry_time e) \<longrightarrow> vf < tr_start (valid_time (entry_time e)) \<longrightarrow>
        n \<le> tr_start (valid_time (entry_time e))) \<and>
     plan = \<lparr>predecessor = None, carry_from = None, new_valid_to = Some n, reassert = Some (entry_id (hd es))\<rparr>"

text \<open>A slice other than the open-ended head ends before the head starts.\<close>

lemma before_head:
  assumes "live_history b now es" "now < c" "c < TIMESTAMP_MAX" "e \<in> set es" "is_open_slice (entry_time e)" "e \<noteq> hd es"
  shows "tr_end (valid_time (entry_time e)) \<le> tr_start (valid_time (entry_time (hd es)))"
proof (rule ccontr)
  let ?h = "hd es" and ?vt = "\<lambda>e. valid_time (entry_time e)"
  assume less: "\<not> tr_end (?vt e) \<le> tr_start (?vt ?h)"
  have h: "?h \<in> set es" "is_currently_recorded (entry_time ?h)" "tr_start (?vt ?h) < TIMESTAMP_MAX"
    "tr_end (?vt ?h) = TIMESTAMP_MAX"
    using assms(1) by (auto simp: live_history_def open_headed_def is_open_slice_def tr_is_current_def)
  have e: "is_currently_recorded (entry_time e)" "tr_start (?vt e) < tr_end (?vt e)" "tr_end (?vt e) \<le> TIMESTAMP_MAX"
    using assms(1,4,5) valid_timestamp_le_max by (auto simp: is_open_slice_def live_history_def recorded_by_def)
  let ?v = "max (tr_start (?vt e)) (tr_start (?vt ?h))"
  have "contains (?vt e) ?v" "contains (?vt ?h) ?v"
    using less e h by (auto simp: contains_def)
  then have "entry_id e = entry_id ?h"
    using slices_disjoint [of es now c e ?h ?v] assms e h by (auto simp: live_history_def)
  then show False
    using assms(1,4,6) h(1) by (auto simp: live_history_def distinct_map inj_on_def)
qed

lemma plan_live:
  assumes live: "live_history b now es" "now < c" "c < TIMESTAMP_MAX" and vf: "vf < TIMESTAMP_MAX"
    and others: "set others = (\<lambda>e. (entry_id e, entry_time e)) ` {e \<in> set (tl es). is_open_slice (entry_time e)}"
  defines "plan \<equiv> plan_update (Some (entry_id (hd es), entry_time (hd es))) others vf"
  shows "(\<exists>e. splits_slice es vf e plan) \<or> (\<exists>n. fills_gap es vf n plan)"
proof -
  let ?h = "hd es" and ?vt = "\<lambda>e. valid_time (entry_time e)"
  have h: "es \<noteq> []" "is_open_slice (entry_time ?h)" "tr_is_current (?vt ?h)"
    using live(1) by (auto simp: live_history_def open_headed_def)
  have set_es: "set es = insert ?h (set (tl es))"
    using h(1) by (cases es) auto
  show ?thesis
  proof (cases "contains (?vt ?h) vf")
    case True
    then have "splits_slice es vf ?h plan"
      using h by (simp add: plan_def plan_update_def splits_slice_def Let_def)
    then show ?thesis by blast
  next
    case False
    let ?ss = "(entry_id ?h, entry_time ?h) # others"
    have slices: "(\<exists>e \<in> set es. is_open_slice (entry_time e) \<and> u = entry_id e \<and> t = entry_time e) \<longleftrightarrow> (u, t) \<in> set ?ss" for u t
      using h(2) others set_es by auto
    obtain pred ns where scan: "scan_slices ?ss vf None = (pred, ns)"
      by fastforce
    show ?thesis
    proof (cases pred)
      case (Some p)
      then obtain e where e: "p = (entry_id e, entry_time e)" "e \<in> set es" "is_open_slice (entry_time e)" "contains (?vt e) vf"
        using scan_found [of ?ss vf None] scan slices by (metis prod.collapse)
      have ne: "e \<noteq> ?h"
        using e(4) False by blast
      have idne: "entry_id e \<noteq> entry_id ?h"
        using ne e(2) live(1) h(1) by (auto simp: live_history_def distinct_map inj_on_def)
      have le: "tr_end (?vt e) \<le> tr_start (?vt ?h)"
        using before_head [OF live e(2,3) ne] .
      then have "tr_end (?vt e) < TIMESTAMP_MAX"
        using h(2,3) by (auto simp: is_open_slice_def tr_is_current_def)
      then have "\<not> tr_is_current (?vt e)"
        by (auto simp: tr_is_current_def)
      then have "splits_slice es vf e plan"
        using False h e scan Some ne idne le by (simp add: plan_def plan_update_def splits_slice_def Let_def)
      then show ?thesis by blast
    next
      case None
      have "vf < tr_start (?vt ?h)"
        using False h(3) vf by (auto simp: contains_def tr_is_current_def)
      then obtain n where n: "ns = Some n" "n \<le> tr_start (?vt ?h)"
        using scan_next_le [of ?ss vf None ns] scan None h(2) by auto
      have "\<not> contains (?vt e) vf" "vf < tr_start (?vt e) \<longrightarrow> n \<le> tr_start (?vt e)"
        if "e \<in> set es" "is_open_slice (entry_time e)" for e
        using that slices [of "entry_id e" "entry_time e"] scan_absent [of ?ss vf None ns "entry_id e" "entry_time e"]
          scan_next_le [of ?ss vf None ns] scan None n(1) by blast+
      moreover have "vf < n \<and> (\<exists>e \<in> set es. is_open_slice (entry_time e) \<and> tr_start (?vt e) = n)"
      proof -
        obtain u t where "(u, t) \<in> set ?ss" "is_open_slice t" "vf < n" "tr_start (valid_time t) = n"
          using scan_next_start [of ?ss vf None n] scan None n(1) by auto
        then show ?thesis
          using slices [of u t] by blast
      qed
      ultimately have "fills_gap es vf n plan"
        using False h scan None n by (simp add: plan_def plan_update_def fills_gap_def Let_def)
      then show ?thesis by blast
    qed
  qed
qed

section \<open>The entries of an update\<close>

abbreviation valid_start :: "entry \<Rightarrow> Timestamp" where
  "valid_start e \<equiv> tr_start (valid_time (entry_time e))"

abbreviation valid_end :: "entry \<Rightarrow> Timestamp" where
  "valid_end e \<equiv> tr_end (valid_time (entry_time e))"

definition reassert_entry :: "entry \<Rightarrow> Timestamp \<Rightarrow> VersionId \<Rightarrow> entry" where
  "reassert_entry h c rid = (rid, rect (valid_start h) TIMESTAMP_MAX c, entry_content h)"

definition new_entry :: "Timestamp \<Rightarrow> Timestamp \<Rightarrow> Timestamp \<Rightarrow> VersionId \<Rightarrow> InternedString \<Rightarrow> PropertyMap \<Rightarrow> entry" where
  "new_entry vf vt c vid l props = (vid, rect vf vt c, l, props)"

definition carry_entries :: "entry \<Rightarrow> Timestamp \<Rightarrow> Timestamp \<Rightarrow> VersionId \<Rightarrow> entry list" where
  "carry_entries e vf c cid =
     (if valid_start e < vf then [(cid, rect (valid_start e) vf c, entry_content e)] else [])"

definition split_entries ::
  "entry \<Rightarrow> entry \<Rightarrow> Timestamp \<Rightarrow> Timestamp \<Rightarrow> VersionId \<Rightarrow> InternedString \<Rightarrow> PropertyMap \<Rightarrow> VersionId \<Rightarrow> VersionId \<Rightarrow> entry list" where
  "split_entries h e vf c vid l props cid rid =
     (if e = h then [] else [reassert_entry h c rid]) @ new_entry vf (valid_end e) c vid l props #
       carry_entries e vf c cid"

lemmas entry_defs = split_entries_def reassert_entry_def new_entry_def carry_entries_def

lemma head_facts:
  assumes "live_history b now es"
  shows "hd es \<in> set es" "is_open_slice (entry_time (hd es))" "is_currently_recorded (entry_time (hd es))"
    "valid_end (hd es) = TIMESTAMP_MAX" "valid_timestamp (valid_start (hd es))" "valid_start (hd es) < TIMESTAMP_MAX"
  using assms by (auto simp: live_history_def open_headed_def is_open_slice_def tr_is_current_def recorded_by_def)

lemma slice_facts:
  assumes "live_history b now es" "e \<in> set es"
  shows "valid_timestamp (valid_start e)" "valid_timestamp (valid_end e)"
  using assms by (auto simp: live_history_def recorded_by_def)

text \<open>Every entry of an update lies within a withdrawn slice, or in a gap.\<close>

lemma split_within:
  assumes "live_history b now es" "splits_slice es vf e plan"
    and n: "n \<in> set (split_entries (hd es) e vf c vid l props cid rid)" "contains (valid_time (entry_time n)) v"
  shows "contains (valid_time (entry_time e)) v \<or> contains (valid_time (entry_time (hd es))) v"
  using n head_facts [OF assms(1)] assms(2)
  by (auto simp: entry_defs contains_def splits_slice_def split: if_splits)

lemma split_fits:
  assumes live: "live_history b now es" "now < c" "c < TIMESTAMP_MAX" and s: "splits_slice es vf e plan"
    and vf: "valid_timestamp vf"
  shows "fits es {entry_id e, entry_id (hd es)} c (split_entries (hd es) e vf c vid l props cid rid)"
proof -
  let ?ns = "split_entries (hd es) e vf c vid l props cid rid"
  have e: "e \<in> set es" "is_currently_recorded (entry_time e)" "valid_start e \<le> vf" "vf < valid_end e"
    "e \<noteq> hd es \<longrightarrow> valid_end e \<le> valid_start (hd es)"
    using s by (auto simp: splits_slice_def is_open_slice_def contains_def)
  have l: "disjoint_entries es" "recorded_by now es"
    using live(1) by (simp_all add: live_history_def)
  note h = head_facts [OF live(1)] and ef = slice_facts [OF live(1) e(1)]
  have "\<exists>a b. entry_time n = rect a b c \<and> valid_timestamp a \<and> valid_timestamp b" if "n \<in> set ?ns" for n
    using that h ef vf by (auto simp: entry_defs split: if_splits)
  moreover have "\<not> (contains (valid_time (entry_time n)) v \<and> contains (valid_time (entry_time n')) v)"
    if "n \<in> set ?ns" "n' \<in> set ?ns" "entry_id n \<noteq> entry_id n'" for n n' v
    using that e by (auto simp: entry_defs contains_def split: if_splits)
  moreover have "\<not> (contains (valid_time (entry_time n)) v \<and> contains (valid_time (entry_time e')) v)"
    if n: "n \<in> set ?ns" and e': "e' \<in> set es" "entry_id e' \<notin> {entry_id e, entry_id (hd es)}"
      "is_currently_recorded (entry_time e')" for n e' v
  proof
    assume v: "contains (valid_time (entry_time n)) v \<and> contains (valid_time (entry_time e')) v"
    then have "contains (valid_time (entry_time e)) v \<or> contains (valid_time (entry_time (hd es))) v"
      using split_within [OF live(1) s n] by blast
    then show False
      using slices_disjoint [OF l live(2,3) e'(1) e(1) e'(3) e(2), of v]
        slices_disjoint [OF l live(2,3) e'(1) h(1) e'(3) h(3), of v] e'(2) v by blast
  qed
  ultimately show ?thesis
    unfolding fits_def by blast
qed

lemma split_belief:
  assumes live: "live_history b now es" "now < c" "c < TIMESTAMP_MAX" and s: "splits_slice es vf e plan"
    and vf: "valid_timestamp vf" and x: "x < TIMESTAMP_MAX"
    and ids: "distinct (map entry_id (split_entries (hd es) e vf c vid l props cid rid @ es))"
  shows "belief (split_entries (hd es) e vf c vid l props cid rid @
      map (close_entry {entry_id e, entry_id (hd es)} c) es) v x =
    (if c \<le> x \<and> vf \<le> v \<and> v < valid_end e then Some (l, props) else belief es v x)"
proof -
  let ?ns = "split_entries (hd es) e vf c vid l props cid rid" and ?n = "new_entry vf (valid_end e) c vid l props"
  have e: "e \<in> set es" "is_currently_recorded (entry_time e)" "valid_start e \<le> vf" "vf < valid_end e"
    using s by (auto simp: splits_slice_def is_open_slice_def contains_def)
  note h = head_facts [OF live(1)]
  have inj: "e' = e''" if "e' \<in> set es" "e'' \<in> set es" "entry_id e' = entry_id e''" for e' e''
    using that live(1) by (auto simp: live_history_def distinct_map inj_on_def)
  have "belief (?ns @ map (close_entry {entry_id e, entry_id (hd es)} c) es) v x =
    (if c \<le> x \<and> vf \<le> v \<and> v < valid_end e then Some (entry_content ?n) else belief es v x)"
  proof (rule replace_belief [OF _ _ _ live(2,3) split_fits [OF live s vf] _ ids _ _ _ _ x])
    show "is_currently_recorded (entry_time e')" if "e' \<in> set es" "entry_id e' \<in> {entry_id e, entry_id (hd es)}" for e'
      using that inj e h by (metis insert_iff singletonD)
    show "\<exists>e' \<in> set es. entry_id e' \<in> {entry_id e, entry_id (hd es)} \<and> entry_content e' = entry_content n \<and>
        (\<forall>v. contains (valid_time (entry_time n)) v \<longrightarrow> contains (valid_time (entry_time e')) v)"
      if "n \<in> set ?ns" "n \<noteq> ?n" for n
      using that e h(1,4) by (auto simp: entry_defs contains_def split: if_splits)
    show "\<exists>n \<in> set ?ns. entry_content n = entry_content e' \<and> contains (valid_time (entry_time n)) v"
      if e': "e' \<in> set es" "entry_id e' \<in> {entry_id e, entry_id (hd es)}" "contains (valid_time (entry_time e')) v"
        "\<not> (vf \<le> v \<and> v < valid_end e)" for e' v
    proof (cases "e' = e")
      case True
      then show ?thesis
        using e' by (auto simp: entry_defs contains_def)
    next
      case False
      then have "e' = hd es"
        using e'(1,2) inj e(1) h(1) by (metis insert_iff singletonD)
      then show ?thesis
        using e' False h(4) by (auto simp: entry_defs contains_def)
    qed
  qed (use live(1) in \<open>auto simp: live_history_def split_entries_def new_entry_def\<close>)
  then show ?thesis
    by (simp add: new_entry_def)
qed

definition gap_entries ::
  "entry \<Rightarrow> Timestamp \<Rightarrow> Timestamp \<Rightarrow> Timestamp \<Rightarrow> VersionId \<Rightarrow> InternedString \<Rightarrow> PropertyMap \<Rightarrow> VersionId \<Rightarrow> entry list" where
  "gap_entries h vf vt c vid l props rid = [reassert_entry h c rid, new_entry vf vt c vid l props]"

lemmas gap_defs = gap_entries_def reassert_entry_def new_entry_def

lemma gap_fits:
  assumes live: "live_history b now es" "now < c" "c < TIMESTAMP_MAX" and g: "fills_gap es vf vt plan"
    and vf: "valid_timestamp vf"
  shows "fits es {entry_id (hd es)} c (gap_entries (hd es) vf vt c vid l props rid)"
proof -
  let ?ns = "gap_entries (hd es) vf vt c vid l props rid"
  note h = head_facts [OF live(1)]
  have l: "disjoint_entries es" "recorded_by now es"
    using live(1) by (simp_all add: live_history_def)
  have vt: "vf < vt" "vt \<le> valid_start (hd es)"
    "\<And>e. e \<in> set es \<Longrightarrow> is_open_slice (entry_time e) \<Longrightarrow> \<not> contains (valid_time (entry_time e)) vf"
    "\<And>e. e \<in> set es \<Longrightarrow> is_open_slice (entry_time e) \<Longrightarrow> vf < valid_start e \<Longrightarrow> vt \<le> valid_start e"
    using g by (auto simp: fills_gap_def)
  have "valid_timestamp vt"
    using g slice_facts(1) [OF live(1)] unfolding fills_gap_def by blast
  then have "\<exists>a b. entry_time n = rect a b c \<and> valid_timestamp a \<and> valid_timestamp b" if "n \<in> set ?ns" for n
    using that h vf by (auto simp: gap_defs)
  moreover have "\<not> (contains (valid_time (entry_time n)) v \<and> contains (valid_time (entry_time n')) v)"
    if "n \<in> set ?ns" "n' \<in> set ?ns" "entry_id n \<noteq> entry_id n'" for n n' v
    using that vt(2) by (auto simp: gap_defs contains_def)
  moreover have "\<not> (contains (valid_time (entry_time n)) v \<and> contains (valid_time (entry_time e)) v)"
    if n: "n \<in> set ?ns" and e: "e \<in> set es" "entry_id e \<notin> {entry_id (hd es)}" "is_currently_recorded (entry_time e)" for n e v
  proof
    assume v: "contains (valid_time (entry_time n)) v \<and> contains (valid_time (entry_time e)) v"
    then have "is_open_slice (entry_time e)"
      using e(3) open_slice_iff by blast
    then have "\<not> (vf \<le> v \<and> v < vt)"
      using vt(3,4) [OF e(1)] v by (auto simp: contains_def not_le not_less)
    then have "contains (valid_time (entry_time (hd es))) v"
      using n v h(4) by (auto simp: gap_defs contains_def)
    then show False
      using slices_disjoint [OF l live(2,3) e(1) h(1) e(3) h(3), of v] e(2) v by blast
  qed
  ultimately show ?thesis
    unfolding fits_def by blast
qed

lemma gap_belief:
  assumes live: "live_history b now es" "now < c" "c < TIMESTAMP_MAX" and g: "fills_gap es vf vt plan"
    and vf: "valid_timestamp vf" and x: "x < TIMESTAMP_MAX"
    and ids: "distinct (map entry_id (gap_entries (hd es) vf vt c vid l props rid @ es))"
  shows "belief (gap_entries (hd es) vf vt c vid l props rid @ map (close_entry {entry_id (hd es)} c) es) v x =
    (if c \<le> x \<and> vf \<le> v \<and> v < vt then Some (l, props) else belief es v x)"
proof -
  let ?ns = "gap_entries (hd es) vf vt c vid l props rid" and ?n = "new_entry vf vt c vid l props"
  note h = head_facts [OF live(1)]
  have inj: "e = hd es" if "e \<in> set es" "entry_id e = entry_id (hd es)" for e
    using that h(1) live(1) by (auto simp: live_history_def distinct_map inj_on_def)
  have "belief (?ns @ map (close_entry {entry_id (hd es)} c) es) v x =
    (if c \<le> x \<and> vf \<le> v \<and> v < vt then Some (entry_content ?n) else belief es v x)"
  proof (rule replace_belief [OF _ _ _ live(2,3) gap_fits [OF live g vf] _ ids _ _ _ _ x])
    show "is_currently_recorded (entry_time e)" if "e \<in> set es" "entry_id e \<in> {entry_id (hd es)}" for e
      using that inj [of e] h(3) by simp
    show "\<exists>e \<in> set es. entry_id e \<in> {entry_id (hd es)} \<and> entry_content e = entry_content n \<and>
        (\<forall>v. contains (valid_time (entry_time n)) v \<longrightarrow> contains (valid_time (entry_time e)) v)"
      if "n \<in> set ?ns" "n \<noteq> ?n" for n
      using that h(1,4) by (auto simp: gap_defs contains_def)
    show "\<exists>n \<in> set ?ns. entry_content n = entry_content e \<and> contains (valid_time (entry_time n)) v"
      if "e \<in> set es" "entry_id e \<in> {entry_id (hd es)}" "contains (valid_time (entry_time e)) v" for e v
      using that inj [of e] h(4) by (auto simp: gap_defs contains_def)
  qed (use live(1) in \<open>auto simp: live_history_def gap_entries_def new_entry_def\<close>)
  then show ?thesis
    by (simp add: new_entry_def)
qed

section \<open>The invariant is kept\<close>

lemma replace_recorded:
  assumes "recorded_by now es" "now < c" "fits es A c ns"
  shows "recorded_by c (ns @ map (close_entry A c) es)"
  unfolding recorded_by_def
proof
  fix f
  assume "f \<in> set (ns @ map (close_entry A c) es)"
  then consider "f \<in> set ns" | e where "e \<in> set es" "f = close_entry A c e"
    by auto
  then show "tr_start (transaction_time (entry_time f)) \<le> c \<and>
     (is_currently_recorded (entry_time f) \<or> tr_end (transaction_time (entry_time f)) \<le> c) \<and>
     valid_timestamp (valid_start f) \<and> valid_timestamp (valid_end f)"
  proof cases
    case 1
    then obtain a b where "entry_time f = rect a b c" "valid_timestamp a" "valid_timestamp b"
      using fits_rect [OF assms(3)] by blast
    then show ?thesis
      by simp
  next
    case 2
    then show ?thesis
      using assms(1,2) by (force simp: recorded_by_def close_entry_def)
  qed
qed

lemma replace_chronological:
  assumes "chronological es" "recorded_by now es" "now < c" "fits es A c ns"
  shows "chronological (ns @ map (close_entry A c) es)"
proof -
  have start: "tr_start (transaction_time (entry_time (close_entry A c e))) = tr_start (transaction_time (entry_time e))" for e
    by (simp add: close_entry_def)
  have new: "tr_start (transaction_time (entry_time n)) = c" if "n \<in> set ns" for n
    using fits_rect [OF assms(4) that] by auto
  have old: "tr_start (transaction_time (entry_time e)) \<le> c" if "e \<in> set es" for e
    using assms(2,3) that unfolding recorded_by_def by (meson less_imp_le order_trans)
  have "sorted_wrt (\<lambda>e e'. tr_start (transaction_time (entry_time e')) \<le> tr_start (transaction_time (entry_time e))) ns"
    using new by (simp add: sorted_wrt_iff_nth_less)
  then show ?thesis
    using assms(1) new old unfolding chronological_def sorted_wrt_append sorted_wrt_map start set_map ball_simps
    by blast
qed

lemma replace_live:
  assumes live: "live_history b now es" "now < c" "c < TIMESTAMP_MAX" and fit: "fits es A c ns"
    and recorded: "\<And>e. e \<in> set es \<Longrightarrow> entry_id e \<in> A \<Longrightarrow> is_currently_recorded (entry_time e)"
    and ids: "distinct (map entry_id (ns @ es))" and ns: "ns \<noteq> []" "open_headed ns"
    and covered: "\<And>e v. e \<in> set es \<Longrightarrow> entry_id e \<in> A \<Longrightarrow> contains (valid_time (entry_time e)) v \<Longrightarrow>
      \<exists>n \<in> set ns. contains (valid_time (entry_time n)) v"
    and lower: "b' \<le> b" "\<And>n. n \<in> set ns \<Longrightarrow> b' \<le> valid_start n"
    and below: "\<And>v. b' \<le> v \<Longrightarrow> v < b \<Longrightarrow> \<exists>n \<in> set ns. contains (valid_time (entry_time n)) v"
  shows "live_history b' c (ns @ map (close_entry A c) es)"
proof -
  let ?es = "ns @ map (close_entry A c) es"
  have l: "disjoint_entries es" "recorded_by now es" "covers_from b es" "chronological es"
    using live(1) by (simp_all add: live_history_def)
  have new: "\<exists>f \<in> set ?es. is_open_slice (entry_time f) \<and> contains (valid_time (entry_time f)) v"
    if "\<exists>n \<in> set ns. contains (valid_time (entry_time n)) v" for v
    using that fits_rect [OF fit] open_slice_iff by fastforce
  have "\<exists>f \<in> set ?es. is_open_slice (entry_time f) \<and> contains (valid_time (entry_time f)) v"
    if v: "b' \<le> v" "v < TIMESTAMP_MAX" for v
  proof (cases "b \<le> v")
    case True
    then obtain e where e: "e \<in> set es" "is_open_slice (entry_time e)" "contains (valid_time (entry_time e)) v"
      using l(3) v unfolding covers_from_def by blast
    show ?thesis
    proof (cases "entry_id e \<in> A")
      case True
      then show ?thesis
        using new covered [OF e(1) True e(3)] by blast
    next
      case False
      then have "close_entry A c e = e"
        by (simp add: close_entry_def)
      then show ?thesis
        using e by (auto intro!: bexI [of _ e] image_eqI [of _ _ e])
    qed
  next
    case False
    then show ?thesis
      using new below v(1) by simp
  qed
  moreover have "b' \<le> valid_start f" if f: "f \<in> set ?es" "is_open_slice (entry_time f)" for f
  proof -
    consider "f \<in> set ns" | e where "e \<in> set es" "f = close_entry A c e"
      using f(1) unfolding set_append set_map by blast
    then show ?thesis
    proof cases
      case 2
      then have "entry_id e \<notin> A" "f = e"
        using f(2) live(3) by (auto simp: close_entry_def is_open_slice_def is_currently_recorded_def tr_is_current_def)
      then show ?thesis
        using 2 l(3) f(2) lower(1) unfolding covers_from_def by (metis order_trans)
    qed (rule lower(2))
  qed
  ultimately have "covers_from b' ?es"
    unfolding covers_from_def by blast
  moreover have "open_headed ?es"
    using ns by (simp add: open_headed_def)
  ultimately show ?thesis
    using replace_disjoint [OF l(1,2) live(2,3) fit recorded] replace_recorded [OF l(2) live(2) fit]
      replace_chronological [OF l(4,2) live(2) fit] ids
    by (simp add: live_history_def comp_def)
qed

lemma open_start: "live_history b now es \<Longrightarrow> e \<in> set es \<Longrightarrow> is_open_slice (entry_time e) \<Longrightarrow> b \<le> valid_start e"
  unfolding live_history_def covers_from_def by blast

text \<open>A gap lies before the whole history and ends where it starts.\<close>

lemma gap_start:
  assumes live: "live_history b now es" and g: "fills_gap es vf vt plan"
  shows "vf < b" "vt = b"
proof -
  note h = head_facts [OF live]
  have "\<exists>e \<in> set es. is_open_slice (entry_time e) \<and> contains (valid_time (entry_time e)) v" if "b \<le> v" "v < TIMESTAMP_MAX" for v
    using live that unfolding live_history_def covers_from_def by blast
  moreover have top: "vf < TIMESTAMP_MAX" "b < TIMESTAMP_MAX"
    using g h(6) open_start [OF live h(1,2)] unfolding fills_gap_def by (meson less_le_trans le_less_trans less_trans)+
  ultimately show "vf < b"
    using g unfolding fills_gap_def by (metis not_le)
  obtain e where e: "e \<in> set es" "is_open_slice (entry_time e)" "contains (valid_time (entry_time e)) b"
    using \<open>\<And>v. b \<le> v \<Longrightarrow> v < TIMESTAMP_MAX \<Longrightarrow> _\<close> [of b] top(2) by blast
  then have "valid_start e = b"
    using open_start [OF live e(1,2)] by (simp add: contains_def)
  then have "vt \<le> b"
    using g e \<open>vf < b\<close> unfolding fills_gap_def by blast
  moreover have "b \<le> vt"
    using g open_start [OF live] unfolding fills_gap_def by blast
  ultimately show "vt = b"
    by simp
qed

lemma split_live:
  assumes live: "live_history b now es" "now < c" "c < TIMESTAMP_MAX" and s: "splits_slice es vf e plan"
    and vf: "valid_timestamp vf"
    and ids: "distinct (map entry_id (split_entries (hd es) e vf c vid l props cid rid @ es))"
  shows "live_history b c (split_entries (hd es) e vf c vid l props cid rid @
      map (close_entry {entry_id e, entry_id (hd es)} c) es)"
proof (rule replace_live [OF live split_fits [OF live s vf] _ ids])
  let ?ns = "split_entries (hd es) e vf c vid l props cid rid"
  have e: "e \<in> set es" "is_currently_recorded (entry_time e)" "valid_start e \<le> vf" "vf < valid_end e"
    using s by (auto simp: splits_slice_def is_open_slice_def contains_def)
  note h = head_facts [OF live(1)]
  have inj: "e' = e''" if "e' \<in> set es" "e'' \<in> set es" "entry_id e' = entry_id e''" for e' e''
    using that live(1) by (auto simp: live_history_def distinct_map inj_on_def)
  show "is_currently_recorded (entry_time e')" if "e' \<in> set es" "entry_id e' \<in> {entry_id e, entry_id (hd es)}" for e'
    using that inj e h by (metis insert_iff singletonD)
  show "open_headed ?ns"
    using e(4) h(4,6) by (auto simp: open_headed_def entry_defs is_open_slice_def tr_is_current_def)
  show "\<exists>n \<in> set ?ns. contains (valid_time (entry_time n)) v"
    if e': "e' \<in> set es" "entry_id e' \<in> {entry_id e, entry_id (hd es)}" "contains (valid_time (entry_time e')) v" for e' v
  proof (cases "e' = e")
    case True
    then show ?thesis
      using e' by (auto simp: entry_defs contains_def not_le)
  next
    case False
    then have "e' = hd es"
      using e'(1,2) inj e(1) h(1) by (metis insert_iff singletonD)
    then show ?thesis
      using e' False h(4) by (auto simp: entry_defs contains_def)
  qed
  have "b \<le> valid_start (hd es)" "b \<le> valid_start e"
    using open_start [OF live(1)] s h(1,2) unfolding splits_slice_def by blast+
  then show "b \<le> valid_start n" if "n \<in> set ?ns" for n
    using that e(3) by (auto simp: entry_defs split: if_splits)
qed (simp_all add: split_entries_def)

lemma gap_live:
  assumes live: "live_history b now es" "now < c" "c < TIMESTAMP_MAX" and g: "fills_gap es vf vt plan"
    and vf: "valid_timestamp vf"
    and ids: "distinct (map entry_id (gap_entries (hd es) vf vt c vid l props rid @ es))"
  shows "live_history vf c (gap_entries (hd es) vf vt c vid l props rid @ map (close_entry {entry_id (hd es)} c) es)"
proof (rule replace_live [OF live gap_fits [OF live g vf] _ ids])
  let ?ns = "gap_entries (hd es) vf vt c vid l props rid"
  note h = head_facts [OF live(1)]
  have inj: "e = hd es" if "e \<in> set es" "entry_id e = entry_id (hd es)" for e
    using that h(1) live(1) by (auto simp: live_history_def distinct_map inj_on_def)
  show "is_currently_recorded (entry_time e)" if "e \<in> set es" "entry_id e \<in> {entry_id (hd es)}" for e
    using that inj [of e] h(3) by simp
  show "open_headed ?ns"
    using h(6) by (simp add: open_headed_def gap_defs is_open_slice_def tr_is_current_def)
  show "\<exists>n \<in> set ?ns. contains (valid_time (entry_time n)) v"
    if "e \<in> set es" "entry_id e \<in> {entry_id (hd es)}" "contains (valid_time (entry_time e)) v" for e v
    using that inj [of e] h(4) by (auto simp: gap_defs contains_def)
  note b = gap_start [OF live(1) g]
  show "vf \<le> b"
    using b(1) by simp
  show "vf \<le> valid_start n" if "n \<in> set ?ns" for n
    using that open_start [OF live(1) h(1,2)] b(1) by (auto simp: gap_defs)
  show "\<exists>n \<in> set ?ns. contains (valid_time (entry_time n)) v" if "vf \<le> v" "v < b" for v
    using that b(2) by (auto simp: gap_defs contains_def)
qed (simp add: gap_entries_def)

end
