(* ===== verification/HistoryRefine.thy ===== *)
theory HistoryRefine
  imports HistoryUpdate
begin

text \<open>
  The store carries out the list operations: an append conses an entry, a withdrawal closes
  entries, a read leaves the list alone, and the histories of the other entities stay as they are.
\<close>

declare map_of_eq_Some_iff [simp del]

definition store_ok :: "('i, 'a) version_store \<Rightarrow> bool" where
  "store_ok s \<longleftrightarrow> hm_wf (versions s) \<and> prev_closed s"

lemma set_map_filter: "set (List.map_filter f xs) = {y. Some y \<in> f ` set xs}"
  by (induction xs) (force simp: map_filter_simps split: option.split)+

text \<open>The lists of all entities other than the one written are kept.\<close>

definition frame ::
  "storage_limits \<Rightarrow> environment \<Rightarrow> ('i, 'a) entity_kind \<Rightarrow> 'i \<Rightarrow> ('i, 'a) version_store \<Rightarrow> ('i, 'a) version_store \<Rightarrow> bool" where
  "frame L E K i s s' \<longleftrightarrow>
     (\<forall>j es. j \<noteq> i \<longrightarrow> represents L E K s j es \<longrightarrow> represents L E K s' j es) \<and>
     (\<forall>j. j \<noteq> i \<longrightarrow> hm_get (version_heads s') j = hm_get (version_heads s) j \<and> owned K s' j = owned K s j \<and>
        (slices_of s j = [] \<longrightarrow> slices_of s' j = []))"

lemma frame_refl [simp]: "frame L E K i s s"
  by (simp add: frame_def)

lemma frame_trans: "frame L E K i a b \<Longrightarrow> frame L E K i b c \<Longrightarrow> frame L E K i a c"
  by (simp add: frame_def)

lemma frame_read: "frame L E K i s (snd (reconstruct L E u s))"
  by (simp add: frame_def represents_read owned_def slices_of_def)

lemma store_ok_read: "store_ok s \<Longrightarrow> store_ok (snd (reconstruct L E u s))"
  unfolding store_ok_def prev_closed_def reconstruct_versions .

context versioned
begin

lemma frame_withdrawn:
  assumes "withdrawn L E K A c s s'" "A \<subseteq> owned K s i"
  shows "frame L E K i s s'"
  unfolding frame_def
proof (intro conjI allI impI)
  fix j es
  assume j: "j \<noteq> i" and r: "represents L E K s j es"
  note r' = representsD [OF r]
  have out: "u \<notin> A" if "u \<in> owned K s j" for u
    using that assms(2) j by (auto simp: owned_def)
  have "linked s' (map entry_id es)"
    using r'(3) by (rule linked_cong [rotated]) (auto dest!: withdrawn_version [OF assms(1)])
  moreover have "shows_entry L E s' e" if "e \<in> set es" for e
  proof -
    have "entry_id e \<in> owned K s j"
      using that r'(5) by blast
    then show ?thesis
      using r'(7) [OF that] out assms(1) by (auto simp: shows_entry_def withdrawn_def)
  qed
  moreover have "set (slices_of s' j) = set (slices_of s j)"
  proof -
    have "{u \<in> A. \<exists>v. version_at s u = Some v \<and> entity_of K v = j} = {}"
      using out by (auto simp: owned_def)
    moreover have "set (slices_of s' j) =
        set (slices_of s j) - {u \<in> A. \<exists>v. version_at s u = Some v \<and> entity_of K v = j}"
      using assms(1) unfolding withdrawn_def by blast
    ultimately show ?thesis
      by (simp only: Diff_empty)
  qed
  moreover have "distinct (slices_of s' j)"
    using assms(1) r'(8) by (simp add: withdrawn_def)
  ultimately show "represents L E K s' j es"
    using r' assms(1) withdrawn_owned [OF assms(1), of j] by (simp add: represents_def withdrawn_def)
next
  fix j
  show "hm_get (version_heads s') j = hm_get (version_heads s) j" "owned K s' j = owned K s j"
    using assms(1) withdrawn_owned [OF assms(1), of j] by (simp_all add: withdrawn_def)
  show "slices_of s' j = []" if "slices_of s j = []"
  proof -
    have "set (slices_of s' j) \<subseteq> set (slices_of s j)"
      using assms(1) unfolding withdrawn_def by blast
    then show ?thesis
      using that by simp
  qed
qed

lemma frame_appended:
  assumes "appended_to L E K i h vid t l props prov s s'" "version_at s vid = None"
  shows "frame L E K i s s'"
  unfolding frame_def
proof (intro conjI allI impI)
  fix j es
  assume j: "j \<noteq> i" and r: "represents L E K s j es"
  note r' = representsD [OF r] and a = appended_version [OF assms]
  have "linked s' (map entry_id es)"
    using r'(3) by (rule linked_cong [rotated]) (auto dest!: a)
  moreover have "shows_entry L E s' e" if "e \<in> set es" for e
    using r'(7) [OF that] assms(1) a [of "entry_id e"] by (fastforce simp: shows_entry_def appended_to_def)
  moreover have "slices_of s' j = slices_of s j" "hm_get (version_heads s') j = hm_get (version_heads s) j"
    using assms(1) j by (auto simp: appended_to_def)
  ultimately show "represents L E K s' j es"
    using r' appended_owned [OF assms, of j] j by (simp add: represents_def)
next
  fix j
  assume "j \<noteq> i"
  then show "hm_get (version_heads s') j = hm_get (version_heads s) j" "owned K s' j = owned K s j"
    "slices_of s j = [] \<Longrightarrow> slices_of s' j = []"
    using assms(1) appended_owned [OF assms, of j] by (auto simp: appended_to_def)
qed

lemma store_ok_withdrawn:
  assumes "withdrawn L E K A c s s'" "store_ok s"
  shows "store_ok s'"
proof -
  have "hm_wf (versions s')"
    using assms unfolding withdrawn_def store_ok_def by blast
  then show ?thesis
    using withdrawn_prev_closed [OF assms(1)] assms(2) unfolding store_ok_def by blast
qed

lemma store_ok_appended:
  assumes "appended_to L E K i h vid t l props prov s s'" "store_ok s"
  shows "store_ok s'"
proof -
  obtain hv nv where v: "version_at s h = Some hv" "prev_version nv = Some h"
    "versions s' = hm_insert vid nv (hm_insert h (hv\<lparr>next_version := Some vid\<rparr>) (versions s))"
    using assms(1) by (auto simp: appended_to_def)
  have "prev_closed s'"
    using assms(2) v unfolding store_ok_def prev_closed_def by (auto split: if_splits)
  then show ?thesis
    using assms(2) v(3) by (simp add: store_ok_def)
qed

text \<open>One append, as the client of the list sees it.\<close>

lemma append_runs:
  assumes r: "represents L E K s i es" "store_ok s"
    and settled: "\<not> (is_currently_recorded (entry_time (hd es)) \<and>
      tr_start (transaction_time (entry_time (hd es))) < tr_start (transaction_time t))"
    and fresh: "version_at s vid = None"
    and capacity: "is_structural vid \<or> logical_version_count s i < max_versions_per_entity (retention_policy L)"
  shows "\<exists>s'. add_version_with_interval L E K i vid t l props prov s = (Inr (), s') \<and>
    represents L E K s' i ((vid, t, l, props) # es) \<and> store_ok s' \<and> frame L E K i s s' \<and>
    (\<forall>u. u \<noteq> vid \<longrightarrow> version_at s u = None \<longrightarrow> version_at s' u = None) \<and>
    logical_version_count s' i \<le> logical_version_count s i + (if is_structural vid then 0 else 1)"
proof -
  note r' = representsD [OF r(1)]
  have "hd es \<in> set es"
    using r'(1) by simp
  then obtain hv where hv: "version_at s (entry_id (hd es)) = Some hv" "temporal hv = entry_time (hd es)"
    "read L E s (entry_id (hd es)) = Inr (snd (entry_content (hd es)))"
    using r'(7) [of "hd es"] by (auto simp: shows_entry_def)
  have set: "head_settled hv t" and closed: "prev_closed s"
    using settled hv(2) r(2) by (simp_all add: head_settled_def store_ok_def)
  obtain s' where s': "add_version_with_interval L E K i vid t l props prov s = (Inr (), s')"
    "appended_to L E K i (entry_id (hd es)) vid t l props prov s s'"
    by (rule add_appends [OF r'(2) hv(1) set hv(3) fresh closed capacity])
  moreover have "version_at s' u = None" if "u \<noteq> vid" "version_at s u = None" for u
    using s'(2) that by (auto simp: appended_to_def)
  moreover have "logical_version_count s' i \<le> logical_version_count s i + (if is_structural vid then 0 else 1)"
    using s'(2) by (simp add: appended_to_def)
  ultimately show ?thesis
    using represents_appended [OF r(1) s'(2) fresh] store_ok_appended [OF s'(2) r(2)] frame_appended [OF s'(2) fresh]
    by blast
qed

text \<open>One withdrawal.\<close>

lemma withdraw_runs:
  assumes r: "represents L E K s i es" "store_ok s"
    and es: "\<And>e. e \<in> set ws \<Longrightarrow> e \<in> set es \<and> tr_start (transaction_time (entry_time e)) \<le> c"
    and c: "\<not> exceeds_max c" "c \<noteq> TIMESTAMP_MAX"
  shows "\<exists>s'. close_recorded K (map entry_id ws) c s = (Inr (), s') \<and>
    represents L E K s' i (map (close_entry (entry_id ` {e \<in> set ws. is_currently_recorded (entry_time e)}) c) es) \<and>
    store_ok s' \<and> frame L E K i s s' \<and> (\<forall>u. version_at s u = None \<longrightarrow> version_at s' u = None) \<and>
    logical_version_count s' i = logical_version_count s i"
proof -
  note r' = representsD [OF r(1)]
  have at: "\<exists>v. version_at s (entry_id e) = Some v \<and> temporal v = entry_time e" if "e \<in> set ws" for e
    using es [OF that] r'(7) [of e] by (auto simp: shows_entry_def)
  have "tr_start (transaction_time (temporal v)) \<le> c" if u: "u \<in> set (map entry_id ws)" "version_at s u = Some v" for u v
  proof -
    obtain e where "e \<in> set ws" "u = entry_id e"
      using u(1) by auto
    then show ?thesis
      using es [of e] at [of e] u(2) by auto
  qed
  then obtain s' where s': "close_recorded K (map entry_id ws) c s = (Inr (), s')"
    "withdrawn L E K (recorded_in s (map entry_id ws)) c s s'"
    using close_recorded_withdraws [of "map entry_id ws" s c L E] c r(2) unfolding store_ok_def by blast
  have eq: "recorded_in s (map entry_id ws) = entry_id ` {e \<in> set ws. is_currently_recorded (entry_time e)}"
    unfolding recorded_in_def set_map using at by (auto simp: image_iff) force+
  have sub: "recorded_in s (map entry_id ws) \<subseteq> owned K s i"
    using es unfolding r'(5) [symmetric] recorded_in_def set_map by blast
  show ?thesis
    using s' represents_withdrawn [OF r(1) s'(2) sub c(2)] store_ok_withdrawn [OF s'(2) r(2)]
      frame_withdrawn [OF s'(2) sub]
    unfolding eq by (auto simp: withdrawn_def)
qed

text \<open>Collecting what a structural version repeats.\<close>

lemma gather_runs:
  assumes r: "represents L E K s i es" "e \<in> set es"
  shows "\<exists>prov. gather_payload L E (entry_id e) from (Some j) s =
    (Inr (j, case_option (valid_start e) (\<lambda>f. f) from, fst (entry_content e), snd (entry_content e), prov),
      snd (reconstruct L E (entry_id e) s))"
proof -
  obtain v where v: "version_at s (entry_id e) = Some v" "temporal v = entry_time e" "label v = fst (entry_content e)"
    "read L E s (entry_id e) = Inr (snd (entry_content e))"
    using representsD(7) [OF r] by (auto simp: shows_entry_def)
  obtain s1 where "reconstruct L E (entry_id e) s = (Inr (snd (entry_content e)), s1)"
    using v(4) by (metis prod.collapse)
  then show ?thesis
    using v(1-3) by (simp add: gather_payload_def split: option.split)
qed

end

section \<open>Running an update\<close>

text \<open>From one store to the next: the new list, and that only the given ids come into use.\<close>

definition step_to ::
  "storage_limits \<Rightarrow> environment \<Rightarrow> ('i, 'a) entity_kind \<Rightarrow> 'i \<Rightarrow> ('i, 'a) version_store \<Rightarrow>
    ('i, 'a) version_store \<Rightarrow> entry list \<Rightarrow> VersionId set \<Rightarrow> nat \<Rightarrow> bool" where
  "step_to L E K i s s' es us n \<longleftrightarrow>
     represents L E K s' i es \<and> store_ok s' \<and> frame L E K i s s' \<and>
     (\<forall>u. u \<notin> us \<longrightarrow> version_at s u = None \<longrightarrow> version_at s' u = None) \<and>
     logical_version_count s' i \<le> logical_version_count s i + n"

lemma step_to_refl: "represents L E K s i es \<Longrightarrow> store_ok s \<Longrightarrow> step_to L E K i s s es {} 0"
  by (simp add: step_to_def)

lemma step_to_trans:
  assumes "step_to L E K i s s1 es1 us m" "step_to L E K i s1 s2 es2 ws n"
  shows "step_to L E K i s s2 es2 (us \<union> ws) (m + n)"
  using assms frame_trans [of L E K i s s1 s2] by (auto simp: step_to_def)

lemma step_to_read:
  assumes "represents L E K s i es" "store_ok s"
  shows "step_to L E K i s (snd (reconstruct L E u s)) es {} 0"
  using represents_read [OF assms(1)] store_ok_read [OF assms(2)] frame_read
  by (simp add: step_to_def logical_version_count_def)

lemma bt_rect: "valid_timestamp vf \<Longrightarrow> valid_timestamp c \<Longrightarrow> bt_with_valid_time vf c = Some (rect vf TIMESTAMP_MAX c)"
  by (simp add: bt_with_valid_time_def TimeRange_from_def exceeds_max_iff rect_def)

lemma close_rect: "vf \<le> e \<Longrightarrow> valid_timestamp e \<Longrightarrow> close_valid_time (rect vf b c) e = Inr (rect vf e c)"
  by (simp add: close_valid_time_def close_at_def exceeds_max_iff rect_def)

abbreviation settled_by :: "Timestamp \<Rightarrow> entry list \<Rightarrow> bool" where
  "settled_by c es \<equiv> \<not> (is_currently_recorded (entry_time (hd es)) \<and>
     tr_start (transaction_time (entry_time (hd es))) < c)"

context versioned
begin

lemma add_step:
  assumes "represents L E K s i es" "store_ok s" "settled_by c es" "version_at s vid = None"
    "is_structural vid \<or> logical_version_count s i < max_versions_per_entity (retention_policy L)"
  shows "\<exists>s'. add_version_with_interval L E K i vid (rect a b c) l props prov s = (Inr (), s') \<and>
    step_to L E K i s s' ((vid, rect a b c, l, props) # es) {vid} (if is_structural vid then 0 else 1)"
  using append_runs [OF assms(1,2) _ assms(4,5), of "rect a b c" l props prov] assms(3)
  by (auto simp: step_to_def)

lemma append_new_runs:
  assumes "represents L E K s i es" "store_ok s" "settled_by c es" "version_at s vid = None"
    "is_structural vid \<or> logical_version_count s i < max_versions_per_entity (retention_policy L)"
    and t: "valid_timestamp vf" "valid_timestamp c" "\<And>e. vto = Some e \<Longrightarrow> vf \<le> e \<and> valid_timestamp e"
  defines "t \<equiv> rect vf (case_option TIMESTAMP_MAX (\<lambda>e. e) vto) c"
  shows "\<exists>s'. append_new L E K i vf vto c vid l props prov s = Some (Inr [(vid, t)], s') \<and>
    step_to L E K i s s' ((vid, t, l, props) # es) {vid} (if is_structural vid then 0 else 1)"
proof -
  obtain s' where s': "add_version_with_interval L E K i vid t l props prov s = (Inr (), s')"
    "step_to L E K i s s' ((vid, t, l, props) # es) {vid} (if is_structural vid then 0 else 1)"
    using add_step [OF assms(1-5)] unfolding t_def by blast
  then show ?thesis
    using bt_rect [OF t(1,2)] close_rect t(3) by (cases vto) (auto simp: append_new_def t_def)
qed

lemma append_carry_runs:
  assumes "represents L E K s i es" "store_ok s" "settled_by c es" "version_at s cid = None" "is_structural cid"
    and t: "valid_timestamp (valid_start e)" "valid_timestamp vf" "valid_timestamp c"
    and carry: "carry = (if valid_start e < vf
      then Some (cid, valid_start e, fst (entry_content e), snd (entry_content e), prov) else None)"
  shows "\<exists>s' ap. append_carry L E K i vf c carry s = Some (Inr ap, s') \<and>
    step_to L E K i s s' (carry_entries e vf c cid @ es) {cid} 0 \<and> settled_by c (carry_entries e vf c cid @ es)"
proof (cases "valid_start e < vf")
  case True
  obtain s' where s': "add_version_with_interval L E K i cid (rect (valid_start e) vf c)
      (fst (entry_content e)) (snd (entry_content e)) prov s = (Inr (), s')"
    "step_to L E K i s s' (carry_entries e vf c cid @ es) {cid} 0"
    using add_step [OF assms(1-4), of "valid_start e" vf "fst (entry_content e)" "snd (entry_content e)" prov]
      assms(5) True by (auto simp: carry_entries_def)
  then show ?thesis
    using True carry bt_rect [OF t(1,3)] close_rect [of "valid_start e" vf TIMESTAMP_MAX c] t(2)
    by (auto simp: append_carry_def carry_entries_def)
next
  case False
  then show ?thesis
    using carry assms(1-3) step_to_refl [OF assms(1,2)]
    by (auto simp: append_carry_def carry_entries_def step_to_def)
qed

lemma gather_carry_runs:
  assumes "represents L E K s i es" "store_ok s" "e \<in> set es" "predecessor plan = Some (entry_id e)"
    "carry_from plan = (if valid_start e < vf then Some (valid_start e) else None)"
    "valid_start e < vf \<longrightarrow> carry_id = Some cid"
  shows "\<exists>prov s'. gather_carry L E plan carry_id s = (Inr (if valid_start e < vf
      then Some (cid, valid_start e, fst (entry_content e), snd (entry_content e), prov) else None), s') \<and>
    step_to L E K i s s' es {} 0"
proof (cases "valid_start e < vf")
  case True
  then show ?thesis
    using gather_runs [OF assms(1,3), of "Some (valid_start e)" cid] step_to_read [OF assms(1,2), of "entry_id e"]
      assms(4-6) by (auto simp: gather_carry_def)
next
  case False
  then show ?thesis
    using assms(4,5) step_to_refl [OF assms(1,2)] by (auto simp: gather_carry_def)
qed

lemma gather_reassert_runs:
  assumes "represents L E K s i es" "store_ok s" "e \<in> set es" "reassert plan = (if b then None else Some (entry_id e))"
    "\<not> b \<longrightarrow> reassert_id = Some rid"
  shows "\<exists>prov s'. gather_reassert L E plan reassert_id s = (Inr (if b then None
      else Some (rid, valid_start e, fst (entry_content e), snd (entry_content e), prov)), s') \<and>
    step_to L E K i s s' es {} 0"
proof (cases b)
  case True
  then show ?thesis
    using assms(4) step_to_refl [OF assms(1,2)] by (auto simp: gather_reassert_def)
next
  case False
  then show ?thesis
    using gather_runs [OF assms(1,3), of None rid] step_to_read [OF assms(1,2), of "entry_id e"] assms(4,5)
    by (auto simp: gather_reassert_def)
qed

lemma append_reassert_runs:
  assumes "represents L E K s i es" "store_ok s" "settled_by c es" "version_at s rid = None" "is_structural rid"
    and t: "valid_timestamp (valid_start h)" "valid_timestamp c"
    and again: "again = (if b then None
      else Some (rid, valid_start h, fst (entry_content h), snd (entry_content h), prov))"
  shows "\<exists>s' ap. append_reassert L E K i c again s = Some (Inr ap, s') \<and>
    step_to L E K i s s' ((if b then [] else [reassert_entry h c rid]) @ es) {rid} 0"
proof (cases b)
  case True
  then show ?thesis
    using again step_to_refl [OF assms(1,2)] by (auto simp: append_reassert_def step_to_def)
next
  case False
  then show ?thesis
    using again append_new_runs [OF assms(1-4) _ t, of None "fst (entry_content h)" "snd (entry_content h)" prov] assms(5)
    by (auto simp: append_reassert_def reassert_entry_def)
qed

text \<open>Once the superseded entries are withdrawn, the head is settled.\<close>

lemma settled_close: "es \<noteq> [] \<Longrightarrow> entry_id (hd es) \<in> A \<Longrightarrow> c \<noteq> TIMESTAMP_MAX \<Longrightarrow> settled_by c (map (close_entry A c) es)"
  by (simp add: hd_map close_entry_def is_currently_recorded_def tr_is_current_def)

lemma settled_new: "settled_by c ((vid, rect a b c, l, props) # es)"
  by simp

lemma appends_run:
  assumes r: "represents L E K s i es" "store_ok s" "settled_by c es"
    and fresh: "version_at s vid = None" "version_at s cid = None" "version_at s rid = None" "distinct [vid, cid, rid]"
    and structural: "is_structural cid" "is_structural rid"
    and capacity: "logical_version_count s i < max_versions_per_entity (retention_policy L)"
    and t: "valid_timestamp (valid_start e)" "valid_timestamp vf" "valid_timestamp c" "valid_timestamp (valid_start h)"
      "\<And>e. vto = Some e \<Longrightarrow> vf \<le> e \<and> valid_timestamp e"
    and carry: "carry = (if valid_start e < vf
      then Some (cid, valid_start e, fst (entry_content e), snd (entry_content e), prov1) else None)"
    and again: "again = (if b then None
      else Some (rid, valid_start h, fst (entry_content h), snd (entry_content h), prov2))"
  shows "\<exists>s4 s5 s6 ap1 ap2 ap3. append_carry L E K i vf c carry s = Some (Inr ap1, s4) \<and>
    append_new L E K i vf vto c vid l props prov s4 = Some (Inr ap2, s5) \<and>
    append_reassert L E K i c again s5 = Some (Inr ap3, s6) \<and>
    step_to L E K i s s6 ((if b then [] else [reassert_entry h c rid]) @
      (vid, rect vf (case_option TIMESTAMP_MAX (\<lambda>e. e) vto) c, l, props) # carry_entries e vf c cid @ es) {vid, cid, rid} 1"
proof -
  let ?new = "(vid, rect vf (case_option TIMESTAMP_MAX (\<lambda>e. e) vto) c, l, props)"
  obtain s4 ap1 where s4: "append_carry L E K i vf c carry s = Some (Inr ap1, s4)"
    "step_to L E K i s s4 (carry_entries e vf c cid @ es) {cid} 0" "settled_by c (carry_entries e vf c cid @ es)"
    using append_carry_runs [OF r fresh(2) structural(1) t(1-3) carry] by blast
  have s4': "represents L E K s4 i (carry_entries e vf c cid @ es)" "store_ok s4" "version_at s4 vid = None"
    "version_at s4 rid = None" "logical_version_count s4 i < max_versions_per_entity (retention_policy L)"
    using s4(2) fresh capacity by (auto simp: step_to_def)
  obtain s5 ap2 where s5: "append_new L E K i vf vto c vid l props prov s4 = Some (Inr ap2, s5)"
    "step_to L E K i s4 s5 (?new # carry_entries e vf c cid @ es) {vid} (if is_structural vid then 0 else 1)"
    using append_new_runs [OF s4'(1,2) s4(3) s4'(3) _ t(2,3,5), of vto l props prov] s4'(5) by blast
  have s5': "represents L E K s5 i (?new # carry_entries e vf c cid @ es)" "store_ok s5" "version_at s5 rid = None"
    using s5(2) s4'(4) fresh(4) by (auto simp: step_to_def)
  obtain s6 ap3 where s6: "append_reassert L E K i c again s5 = Some (Inr ap3, s6)"
    "step_to L E K i s5 s6 ((if b then [] else [reassert_entry h c rid]) @ ?new # carry_entries e vf c cid @ es) {rid} 0"
    using append_reassert_runs [OF s5'(1,2) settled_new s5'(3) structural(2) t(4,3) again] by blast
  have "step_to L E K i s s6 ((if b then [] else [reassert_entry h c rid]) @ ?new # carry_entries e vf c cid @ es)
      {vid, cid, rid} 1"
    using step_to_trans [OF step_to_trans [OF s4(2) s5(2)] s6(2)] by (auto simp: step_to_def split: if_splits)
  then show ?thesis
    using s4(1) s5(1) s6(1) by blast
qed

lemma apply_update_runs:
  assumes r: "represents L E K s i es" "store_ok s"
    and fresh: "version_at s vid = None" "version_at s cid = None" "version_at s rid = None" "distinct [vid, cid, rid]"
    and structural: "is_structural cid" "is_structural rid"
    and capacity: "logical_version_count s i < max_versions_per_entity (retention_policy L)"
    and t: "valid_timestamp (valid_start e)" "valid_timestamp vf" "valid_timestamp c" "c \<noteq> TIMESTAMP_MAX"
      "valid_timestamp (valid_start (hd es))" "\<And>e. new_valid_to plan = Some e \<Longrightarrow> vf \<le> e \<and> valid_timestamp e"
    and carry: "gather_carry L E plan carry_id s = (Inr (if valid_start e < vf
      then Some (cid, valid_start e, fst (entry_content e), snd (entry_content e), prov1) else None), s1)"
      "step_to L E K i s s1 es {} 0"
    and again: "reassert plan = (if b then None else Some (entry_id (hd es)))" "\<not> b \<longrightarrow> reassert_id = Some rid"
    and ws: "case_option [] (\<lambda>v. [v]) (predecessor plan) @ case_option [] (\<lambda>v. [v]) (reassert plan) = map entry_id ws"
      "ws \<noteq> []" "distinct (map entry_id ws)" "hd es \<in> set ws"
      "\<And>e. e \<in> set ws \<Longrightarrow> e \<in> set es \<and> is_currently_recorded (entry_time e) \<and> tr_start (transaction_time (entry_time e)) \<le> c"
  shows "\<exists>ap s'. apply_update L E K i plan vf c vid l props prov carry_id reassert_id s = Some (Inr ap, s') \<and>
    step_to L E K i s s' ((if b then [] else [reassert_entry (hd es) c rid]) @
      (vid, rect vf (case_option TIMESTAMP_MAX (\<lambda>e. e) (new_valid_to plan)) c, l, props) #
      carry_entries e vf c cid @ map (close_entry (entry_id ` set ws) c) es) {vid, cid, rid} 1"
proof -
  let ?A = "entry_id ` set ws"
  have es: "es \<noteq> []"
    using representsD(1) [OF r(1)] .
  then have hd: "hd es \<in> set es"
    by simp
  have s1: "represents L E K s1 i es" "store_ok s1"
    using carry(2) by (simp_all add: step_to_def)
  obtain prov2 s2 where s2: "gather_reassert L E plan reassert_id s1 = (Inr (if b then None
      else Some (rid, valid_start (hd es), fst (entry_content (hd es)), snd (entry_content (hd es)), prov2)), s2)"
    "step_to L E K i s1 s2 es {} 0"
    using gather_reassert_runs [OF s1 hd again] by blast
  obtain s3 where s3: "close_recorded K (map entry_id ws) c s2 = (Inr (), s3)"
    "step_to L E K i s2 s3 (map (close_entry ?A c) es) {} 0"
  proof -
    have "entry_id ` {e \<in> set ws. is_currently_recorded (entry_time e)} = ?A"
      using ws(5) by (intro image_cong) auto
    moreover have "represents L E K s2 i es" "store_ok s2" "\<not> exceeds_max c"
      using s2(2) t(3) by (auto simp: step_to_def exceeds_max_iff)
    ultimately show thesis
      using withdraw_runs [of L E s2 i es ws c] ws(5) t(4) that by (auto simp: step_to_def)
  qed
  have "settled_by c (map (close_entry ?A c) es)"
    using settled_close [OF es _ t(4)] ws(4) by blast
  moreover have step3: "step_to L E K i s s3 (map (close_entry ?A c) es) {} 0"
    using step_to_trans [OF step_to_trans [OF carry(2) s2(2)] s3(2)] by simp
  then have "represents L E K s3 i (map (close_entry ?A c) es)" "store_ok s3" "version_at s3 vid = None"
    "version_at s3 cid = None" "version_at s3 rid = None"
    "logical_version_count s3 i < max_versions_per_entity (retention_policy L)"
    using fresh capacity by (auto simp: step_to_def)
  ultimately obtain s4 s5 s6 ap1 ap2 ap3 where run: "append_carry L E K i vf c (if valid_start e < vf
      then Some (cid, valid_start e, fst (entry_content e), snd (entry_content e), prov1) else None) s3 = Some (Inr ap1, s4)"
    "append_new L E K i vf (new_valid_to plan) c vid l props prov s4 = Some (Inr ap2, s5)"
    "append_reassert L E K i c (if b then None
      else Some (rid, valid_start (hd es), fst (entry_content (hd es)), snd (entry_content (hd es)), prov2)) s5 = Some (Inr ap3, s6)"
    "step_to L E K i s3 s6 ((if b then [] else [reassert_entry (hd es) c rid]) @
      (vid, rect vf (case_option TIMESTAMP_MAX (\<lambda>e. e) (new_valid_to plan)) c, l, props) #
      carry_entries e vf c cid @ map (close_entry ?A c) es) {vid, cid, rid} 1"
    using appends_run [of L E s3 i _ c vid cid rid e vf "hd es" "new_valid_to plan" _ prov1 _ b prov2 l props prov,
        OF _ _ _ _ _ _ fresh(4) structural _ t(1,2,3,5,6) refl refl] by blast
  have none: "\<not> (predecessor plan = None \<and> reassert plan = None)"
    using ws(1,2) by (auto split: option.splits)
  have "\<not> max_versions_per_entity (retention_policy L) < usize_saturating_add (logical_version_count s i) 1"
    using capacity by (simp add: usize_saturating_add_def)
  moreover define cv where "cv = (if valid_start e < vf
      then Some (cid, valid_start e, fst (entry_content e), snd (entry_content e), prov1) else None)"
  moreover define av where "av = (if b then None
      else Some (rid, valid_start (hd es), fst (entry_content (hd es)), snd (entry_content (hd es)), prov2))"
  moreover have "case_option [] (\<lambda>v. [v]) (predecessor plan) @ case_option [] (\<lambda>v. [v]) (reassert plan) @
      (if predecessor plan = None \<and> reassert plan = None then head_list s2 i else []) = map entry_id ws"
    using none ws(1) by auto
  ultimately have "\<exists>ap. apply_update L E K i plan vf c vid l props prov carry_id reassert_id s = Some (Inr ap, s6)"
    using carry(1) [folded cv_def] s2(1) [folded av_def] s3(1) run(1) [folded cv_def] run(2) run(3) [folded av_def]
    by (simp add: apply_update_def Let_def del: append.assoc)
  moreover have "step_to L E K i s s6 ((if b then [] else [reassert_entry (hd es) c rid]) @
      (vid, rect vf (case_option TIMESTAMP_MAX (\<lambda>e. e) (new_valid_to plan)) c, l, props) #
      carry_entries e vf c cid @ map (close_entry ?A c) es) {vid, cid, rid} 1"
    using step_to_trans [OF step3 run(4)] by simp
  ultimately show ?thesis
    by blast
qed

lemma plan_entity:
  assumes "represents L E K s i es"
  shows "\<exists>others. plan_entity_update s i vf = plan_update (Some (entry_id (hd es), entry_time (hd es))) others vf \<and>
    set others = (\<lambda>e. (entry_id e, entry_time e)) ` {e \<in> set (tl es). is_open_slice (entry_time e)}"
proof -
  note r = representsD [OF assms]
  have at: "slice_at s (entry_id e) = Some (entry_id e, entry_time e)" if "e \<in> set es" for e
    using r(7) [OF that] by (auto simp: slice_at_def shows_entry_def)
  have tl: "e \<in> set es" if "e \<in> set (tl es)" for e
    using that by (cases es) auto
  have "set (List.map_filter (slice_at s) (slices_of s i)) =
      (\<lambda>e. (entry_id e, entry_time e)) ` {e \<in> set (tl es). is_open_slice (entry_time e)}"
  proof -
    have "slice_at s ` set (slices_of s i) =
        (\<lambda>e. Some (entry_id e, entry_time e)) ` {e \<in> set (tl es). is_open_slice (entry_time e)}"
      unfolding r(6) open_ids_def image_image by (rule image_cong) (auto intro!: at tl)
    then show ?thesis
      unfolding set_map_filter by blast
  qed
  moreover have "hd es \<in> set es"
    using r(1) by simp
  ultimately show ?thesis
    using r(2) at by (auto simp: plan_entity_update_def)
qed

end

section \<open>The first version of an entity\<close>

definition vacant :: "('i, 'a) entity_kind \<Rightarrow> ('i, 'a) version_store \<Rightarrow> 'i \<Rightarrow> bool" where
  "vacant K s i \<longleftrightarrow> hm_get (version_heads s) i = None \<and> owned K s i = {} \<and> slices_of s i = []"

context versioned
begin

lemma first_version_runs:
  assumes vacant: "vacant K s i" and ok: "store_ok s" and fresh: "version_at s vid = None"
    and capacity: "is_structural vid \<or> logical_version_count s i < max_versions_per_entity (retention_policy L)"
  shows "\<exists>s'. add_version_with_interval L E K i vid t l props prov s = (Inr (), s') \<and>
    step_to L E K i s s' [(vid, t, l, props)] {vid} 1"
proof -
  let ?v1 = "with_provenance prov (new_anchor K vid i t l props)"
  define v where "v = (case anchor_hooks E vid props of None \<Rightarrow> ?v1
      | Some sid \<Rightarrow> ?v1\<lparr>data := set_vector_snapshot_id sid (data ?v1)\<rparr>)"
  have v: "temporal v = t" "label v = l" "prev_version v = None" "entity_of K v = i" "version_is_anchor v"
    by (auto simp: v_def with_provenance_def version_is_anchor_def split: option.split)
  have v1: "version_is_anchor ?v1"
    by (simp add: with_provenance_def version_is_anchor_def)
  define s3 where "s3 = put_version vid v (set_since_anchor i 0 s)"
  define s' where "s' = cache_anchor vid props (cache_properties vid props (s3\<lparr>version_heads := hm_insert i vid (version_heads s3),
      version_counts := bump i (version_counts s3),
      structural_counts := (if is_structural vid then bump i (structural_counts s3) else structural_counts s3),
      anchor_count := anchor_count s3 + 1\<rparr>))"
  have run: "add_version_with_interval L E K i vid t l props prov s = (Inr (), s')"
    using capacity vacant v(5) v1
    by (auto simp: add_version_with_interval_def vacant_def store_version_def Let_def link_previous_def s'_def s3_def v_def)
  have fields: "versions s' = hm_insert vid v (versions s)" "version_heads s' = hm_insert i vid (version_heads s)"
    "open_slices s' = open_slices s"
    by (simp_all add: s'_def s3_def cache_anchor_def cache_properties_def put_version_def set_since_anchor_def)
  have "keeps_payload s s'"
    using fresh by (auto simp: keeps_payload_def fields)
  then have reads: "read L E s' u = read L E s u" if "version_at s u \<noteq> None" for u
    using that fresh ok
    by (intro read_keeps)
      (auto simp: s'_def s3_def cache_anchor_def cache_properties_def put_version_def set_since_anchor_def store_ok_def)
  have self: "read L E s' vid = Inr props"
    by (simp add: read_def' s'_def cache_anchor_def cache_properties_def)
  have own: "owned K s' j = (if j = i then {vid} else owned K s j)" for j
    using vacant fresh v(4) by (auto simp: owned_def fields vacant_def)
  have "represents L E K s' i [(vid, t, l, props)]"
    using v self own vacant by (simp add: represents_def fields shows_entry_def slices_of_def vacant_def)
  moreover have "store_ok s'"
    using ok v(3) fresh unfolding store_ok_def prev_closed_def fields by (auto split: if_splits)
  moreover have "frame L E K i s s'"
    unfolding frame_def
  proof (intro conjI allI impI)
    fix j es
    assume j: "j \<noteq> i" and r: "represents L E K s j es"
    note r' = representsD [OF r]
    have "linked s' (map entry_id es)"
      using r'(3) fresh by (intro linked_cong [OF _ r'(3)]) (auto simp: fields)
    moreover have "shows_entry L E s' e" if "e \<in> set es" for e
      using r'(7) [OF that] reads [of "entry_id e"] fresh by (auto simp: shows_entry_def fields)
    ultimately show "represents L E K s' j es"
      using r' own [of j] j by (simp add: represents_def fields slices_of_def)
  qed (simp_all add: fields own slices_of_def)
  moreover have "logical_version_count s' i \<le> logical_version_count s i + 1"
    by (simp add: logical_version_count_def s'_def s3_def cache_anchor_def cache_properties_def put_version_def
        set_since_anchor_def count_bump) arith
  ultimately show ?thesis
    using run fresh by (auto simp: step_to_def fields)
qed

end

end
