(* ===== verification/Bitemporal.thy ===== *)
theory Bitemporal
  imports HistoryRefine
begin

text \<open>
  The bi-temporal contract of historical storage: what create, update, delete and retract change
  about the answers of point-in-time reads, stated over the reads themselves.
\<close>

section \<open>Live entities\<close>

definition live_entity ::
  "storage_limits \<Rightarrow> environment \<Rightarrow> ('i, 'a) entity_kind \<Rightarrow> ('i, 'a) version_store \<Rightarrow> 'i \<Rightarrow> Timestamp \<Rightarrow> Timestamp \<Rightarrow> bool" where
  "live_entity L E K s i b now \<longleftrightarrow> store_ok s \<and> (\<exists>es. represents L E K s i es \<and> live_history b now es)"

text \<open>An entity with a consistent history, live or not.\<close>

definition base_history :: "Timestamp \<Rightarrow> entry list \<Rightarrow> bool" where
  "base_history now es \<longleftrightarrow> distinct (map entry_id es) \<and> disjoint_entries es \<and> recorded_by now es \<and> chronological es"

definition known_entity ::
  "storage_limits \<Rightarrow> environment \<Rightarrow> ('i, 'a) entity_kind \<Rightarrow> ('i, 'a) version_store \<Rightarrow> 'i \<Rightarrow> Timestamp \<Rightarrow> bool" where
  "known_entity L E K s i now \<longleftrightarrow> store_ok s \<and> (\<exists>es. represents L E K s i es \<and> base_history now es)"

lemma live_known: "live_entity L E K s i b now \<Longrightarrow> known_entity L E K s i now"
  by (auto simp: live_entity_def known_entity_def live_history_def base_history_def)

text \<open>The ids a write brings along: unused, distinct, the structural ones tagged.\<close>

definition ids_ok :: "('i, 'a) version_store \<Rightarrow> VersionId \<Rightarrow> VersionId \<Rightarrow> VersionId \<Rightarrow> bool" where
  "ids_ok s vid cid rid \<longleftrightarrow> version_at s vid = None \<and> version_at s cid = None \<and> version_at s rid = None \<and>
     distinct [vid, cid, rid] \<and> is_structural cid \<and> is_structural rid"

definition room_for :: "storage_limits \<Rightarrow> ('i, 'a) version_store \<Rightarrow> 'i \<Rightarrow> bool" where
  "room_for L s i \<longleftrightarrow> logical_version_count s i < max_versions_per_entity (retention_policy L)"

definition plan_end :: "UpdatePlan \<Rightarrow> Timestamp" where
  "plan_end plan = case_option TIMESTAMP_MAX (\<lambda>e. e) (new_valid_to plan)"

lemma split_in_segment:
  assumes live: "live_history b now es" "now < c" "c < TIMESTAMP_MAX" and s: "splits_slice es vf e plan"
    and v: "vf \<le> v" "v < valid_end e"
  shows "belief es v c = Some (entry_content e)"
proof (rule belief_visible)
  have e: "e \<in> set es" "is_currently_recorded (entry_time e)" "valid_start e \<le> vf"
    using s by (auto simp: splits_slice_def is_open_slice_def contains_def)
  then show "e \<in> set es" "is_visible_at (entry_time e) v c"
    using visible_after [of now es e c v] live v by (auto simp: live_history_def contains_def)
qed (use live(1) in \<open>auto simp: live_history_def\<close>)

lemma gap_in_segment:
  assumes live: "live_history b now es" "now < c" "c < TIMESTAMP_MAX" and g: "fills_gap es vf vt plan"
    and v: "vf \<le> v" "v < vt"
  shows "belief es v c = None"
proof (rule belief_none)
  fix e
  assume e: "e \<in> set es"
  show "\<not> is_visible_at (entry_time e) v c"
  proof
    assume "is_visible_at (entry_time e) v c"
    then have "is_currently_recorded (entry_time e)" "contains (valid_time (entry_time e)) v"
      using visible_after [OF _ e, of now c v] live by (auto simp: live_history_def)
    then have "is_open_slice (entry_time e)" "valid_start e \<le> v" "v < valid_end e"
      by (auto simp: open_slice_iff contains_def)
    then show False
      using g e v unfolding fills_gap_def contains_def by (meson le_less_trans not_le order_trans)
  qed
qed

text \<open>What the current tier holds of an entity: the start of its head slice and the content there.\<close>

definition head_state ::
  "storage_limits \<Rightarrow> environment \<Rightarrow> ('i, 'a) version_store \<Rightarrow> 'i \<Rightarrow> (Timestamp \<times> InternedString \<times> PropertyMap) option" where
  "head_state L E s i =
     Option.bind (hm_get (version_heads s) i) (\<lambda>h. Option.bind (version_at s h) (\<lambda>v.
       (case read L E s h of Inl _ \<Rightarrow> None | Inr p \<Rightarrow> Some (tr_start (valid_time (temporal v)), label v, p))))"

lemma retract_fits:
  assumes live: "live_history b now es" "now < c" "c < TIMESTAMP_MAX" and hs: "hs = valid_start (hd es)" "hs \<le> vt"
    and vt: "valid_timestamp vt"
  shows "fits es {entry_id (hd es)} c [(vid, rect hs vt c, l, props)]"
    "e \<in> set es \<Longrightarrow> entry_id e \<in> {entry_id (hd es)} \<Longrightarrow> is_currently_recorded (entry_time e)"
proof -
  note h = head_facts [OF live(1)]
  have inj: "e = hd es" if "e \<in> set es" "entry_id e = entry_id (hd es)" for e
    using that h(1) live(1) by (auto simp: live_history_def distinct_map inj_on_def)
  have "\<not> (contains (valid_time (rect hs vt c)) v \<and> contains (valid_time (entry_time e)) v)"
    if e: "e \<in> set es" "entry_id e \<notin> {entry_id (hd es)}" "is_currently_recorded (entry_time e)" for e v
  proof
    assume v: "contains (valid_time (rect hs vt c)) v \<and> contains (valid_time (entry_time e)) v"
    then have "is_open_slice (entry_time e)" "v < valid_end e" "hs \<le> v"
      using e(3) by (auto simp: open_slice_iff contains_def)
    moreover have "e \<noteq> hd es"
      using e(2) by blast
    ultimately show False
      using before_head [OF live e(1)] hs(1) by (meson less_le_trans not_le)
  qed
  then show "fits es {entry_id (hd es)} c [(vid, rect hs vt c, l, props)]"
    using h(5) hs(1) vt unfolding fits_def by (simp del: rect_fields split_paired_All split_paired_all)
  show "e \<in> set es \<Longrightarrow> entry_id e \<in> {entry_id (hd es)} \<Longrightarrow> is_currently_recorded (entry_time e)"
    using inj [of e] h(3) by simp
qed

lemma retract_belief:
  assumes live: "live_history b now es" "now < c" "c < TIMESTAMP_MAX"
    and hs: "hs = valid_start (hd es)" "(l, props) = entry_content (hd es)" "hs \<le> vt" "valid_timestamp vt"
    and x: "x < TIMESTAMP_MAX"
  shows "belief ([(vid, rect hs vt c, l, props)] @ map (close_entry {entry_id (hd es)} c) es) v x =
    (if c \<le> x \<and> vt \<le> v then None else belief es v x)"
proof (cases "c \<le> x")
  case True
  note h = head_facts [OF live(1)]
  have l: "distinct (map entry_id es)" "disjoint_entries es" "recorded_by now es"
    using live(1) by (simp_all add: live_history_def)
  have inj: "e = hd es" if "e \<in> set es" "entry_id e = entry_id (hd es)" for e
    using that h(1) l(1) by (auto simp: distinct_map inj_on_def)
  let ?close = "close_entry {entry_id (hd es)} c" and ?e = "(vid, rect hs vt c, l, props)"
  have vis: "is_visible_at (entry_time (?close e)) v x \<longleftrightarrow> e \<noteq> hd es \<and> is_visible_at (entry_time e) v x" if "e \<in> set es" for e
    using that visible_close [of e "{entry_id (hd es)}" c v x] inj [OF that] h(3) True less_imp_le [OF live(3)]
    by auto
  have before: "v < hs" if e: "e \<in> set es" "e \<noteq> hd es" "is_visible_at (entry_time e) v x" for e
  proof -
    have "is_currently_recorded (entry_time e)" "contains (valid_time (entry_time e)) v"
      using visible_after [OF l(3) e(1) _ x, of v] e(3) True live(2) by auto
    then have "valid_end e \<le> hs" "v < valid_end e"
      using before_head [OF live e(1) _ e(2)] hs(1) unfolding open_slice_iff contains_def by blast+
    then show ?thesis
      by simp
  qed
  show ?thesis
  proof (cases "hs \<le> v")
    case ge: True
    then have "belief (map ?close es) v x = None"
      using vis before unfolding not_le [symmetric] by (intro belief_none) (metis (no_types, lifting) imageE set_map)
    moreover have "belief es v x = Some (l, props)" if "v < TIMESTAMP_MAX"
      using belief_visible [OF l(1,2) h(1), of v x] visible_after [OF l(3) h(1), of x v] h(3,4) ge that True live(2) x hs(1,2)
      by (auto simp: contains_def)
    moreover have "belief ([?e] @ map ?close es) v x = (if v < vt then Some (l, props) else belief (map ?close es) v x)"
      using ge True x by (simp add: belief_def lookup_def visible_rect)
    ultimately show ?thesis
      using True valid_timestamp_le_max [OF hs(4)] by (simp add: not_le [symmetric])
  next
    case lt: False
    have "\<not> is_visible_at (entry_time (hd es)) v x"
      using lt hs(1) by (simp add: is_visible_at_def contains_def)
    then have "belief (map ?close es) v x = belief es v x"
      using vis by (intro belief_close_same) metis
    moreover have "\<not> vt \<le> v"
      using lt hs(3) by (meson order_trans)
    ultimately show ?thesis
      using lt belief_cons [of ?e v x] by (simp add: visible_rect)
  qed
next
  case False
  then show ?thesis
    using belief_close_before [of es "{entry_id (hd es)}" c x v] retract_fits(2) [OF live hs(1,3,4)] live(3)
      belief_cons [of "(vid, rect hs vt c, l, props)" v x] by (simp add: visible_rect)
qed

lemma entries_of_ids:
  assumes "\<And>u. u \<in> set us \<Longrightarrow> \<exists>e \<in> S. entry_id e = u"
  shows "\<exists>ws. map entry_id ws = us \<and> set ws \<subseteq> S"
  using assms
proof (induction us)
  case (Cons u us)
  then obtain ws e where "map entry_id ws = us" "set ws \<subseteq> S" "e \<in> S" "entry_id e = u"
    by (meson list.set_intros)
  then show ?case
    by (intro exI [of _ "e # ws"]) auto
qed simp

lemma belief_withdrawn:
  assumes rec: "recorded_by now es" "now < c" "c < TIMESTAMP_MAX"
    and A: "\<forall>e \<in> set es. entry_id e \<in> A \<longleftrightarrow> is_open_slice (entry_time e)" and x: "x < TIMESTAMP_MAX"
  shows "belief (map (close_entry A c) es) v x = (if c \<le> x then None else belief es v x)"
proof (cases "c \<le> x")
  case True
  have "\<not> is_visible_at (entry_time (close_entry A c e)) v x" if e: "e \<in> set es" for e
    using visible_close [of e A c v x] visible_after [OF rec(1) e, of x v] A e True rec(2,3) x
    by (auto simp: open_slice_iff)
  then show ?thesis
    using True by (intro trans [OF belief_none]) auto
next
  case False
  have "is_currently_recorded (entry_time e)" if "e \<in> set es" "entry_id e \<in> A" for e
    using A that by (auto simp: is_open_slice_def)
  then show ?thesis
    using False belief_close_before [of es A c x v] rec(3) by simp
qed

context versioned
begin

lemma split_update_correct:
  assumes r: "represents L E K s i es" "store_ok s" and live: "live_history b now es" "now < c" "c < TIMESTAMP_MAX"
    and t: "valid_timestamp vf" "valid_timestamp c"
    and ids: "ids_ok s vid cid rid" and room: "room_for L s i"
    and sp: "splits_slice es vf e plan"
    and supplied: "carry_from plan \<noteq> None \<longrightarrow> carry_id = Some cid" "reassert plan \<noteq> None \<longrightarrow> reassert_id = Some rid"
  shows "\<exists>ap s' es'. apply_update L E K i plan vf c vid l props prov carry_id reassert_id s = Some (Inr ap, s') \<and>
    step_to L E K i s s' es' {vid, cid, rid} 1 \<and> live_history b c es' \<and>
    (\<forall>v x. x < TIMESTAMP_MAX \<longrightarrow> belief es' v x =
      (if c \<le> x \<and> vf \<le> v \<and> v < plan_end plan then Some (l, props) else belief es v x))"
proof -
  have plan: "predecessor plan = Some (entry_id e)"
      "carry_from plan = (if valid_start e < vf then Some (valid_start e) else None)"
      "new_valid_to plan = (if e = hd es then None else Some (valid_end e))"
      "reassert plan = (if e = hd es then None else Some (entry_id (hd es)))"
    and e: "e \<in> set es" "is_currently_recorded (entry_time e)" "valid_start e \<le> vf" "vf < valid_end e"
    using sp by (auto simp: splits_slice_def is_open_slice_def contains_def)
  note h = head_facts [OF live(1)] and ef = slice_facts [OF live(1) e(1)]
  let ?ws = "if e = hd es then [e] else [e, hd es]"
  have started: "tr_start (transaction_time (entry_time e')) \<le> c" if "e' \<in> set es" for e'
    using live that unfolding live_history_def recorded_by_def by (meson less_imp_le order_trans)
  have idne: "entry_id e \<noteq> entry_id (hd es)" if "e \<noteq> hd es"
    using that e(1) h(1) live(1) by (auto simp: live_history_def distinct_map inj_on_def)
  have cid: "valid_start e < vf \<longrightarrow> carry_id = Some cid"
    using supplied(1) plan(2) by simp
  obtain prov1 s1 where g: "gather_carry L E plan carry_id s = (Inr (if valid_start e < vf
      then Some (cid, valid_start e, fst (entry_content e), snd (entry_content e), prov1) else None), s1)"
    "step_to L E K i s s1 es {} 0"
    using gather_carry_runs [OF r e(1) plan(1,2) cid] by blast
  have A: "entry_id ` set ?ws = {entry_id e, entry_id (hd es)}"
    by auto
  have end_eq: "plan_end plan = valid_end e"
    using plan(3) h(4) by (simp add: plan_end_def)
  let ?ns = "split_entries (hd es) e vf c vid l props cid rid"
  obtain ap s' where run: "apply_update L E K i plan vf c vid l props prov carry_id reassert_id s = Some (Inr ap, s')"
    "step_to L E K i s s' (?ns @ map (close_entry {entry_id e, entry_id (hd es)} c) es) {vid, cid, rid} 1"
  proof -
    have ws: "case_option [] (\<lambda>v. [v]) (predecessor plan) @ case_option [] (\<lambda>v. [v]) (reassert plan) = map entry_id ?ws"
      "?ws \<noteq> []" "distinct (map entry_id ?ws)" "hd es \<in> set ?ws"
      using plan(1,4) idne by auto
    have closing: "e' \<in> set es \<and> is_currently_recorded (entry_time e') \<and> tr_start (transaction_time (entry_time e')) \<le> c"
      if "e' \<in> set ?ws" for e'
    proof -
      have "e' = e \<or> e' = hd es"
        using that by (simp split: if_splits)
      then show ?thesis
        using e(1,2) h(1,3) started by blast
    qed
    have vto: "vf \<le> e' \<and> valid_timestamp e'" if "new_valid_to plan = Some e'" for e'
      using that plan(3) e(4) ef(2) by (auto split: if_splits)
    have again: "e \<noteq> hd es \<longrightarrow> reassert_id = Some rid" and max: "c \<noteq> TIMESTAMP_MAX"
      using supplied(2) plan(4) live(3) by auto
    have fresh: "version_at s vid = None" "version_at s cid = None" "version_at s rid = None" "distinct [vid, cid, rid]"
      "is_structural cid" "is_structural rid"
      using ids unfolding ids_ok_def by blast+
    have "(if e = hd es then [] else [reassert_entry (hd es) c rid]) @
        (vid, rect vf (plan_end plan) c, l, props) # carry_entries e vf c cid @ map (close_entry (entry_id ` set ?ws) c) es =
      ?ns @ map (close_entry {entry_id e, entry_id (hd es)} c) es"
      unfolding A end_eq by (simp add: split_entries_def new_entry_def)
    then show thesis
      using apply_update_runs [OF r fresh room [unfolded room_for_def] ef(1) t max h(5) vto g plan(4) again ws closing,
          of l props prov] that unfolding plan_end_def by auto
  qed
  have "distinct (map entry_id (?ns @ es))"
  proof -
    have "distinct (map entry_id es)" "set (map entry_id es) \<inter> {vid, cid, rid} = {}" "set (map entry_id ?ns) \<subseteq> {vid, cid, rid}"
      "distinct (map entry_id ?ns)"
      using representsD(4,5) [OF r(1)] ids by (auto simp: ids_ok_def owned_def entry_defs)
    then show ?thesis
      by (auto simp: image_iff)
  qed
  then have "live_history b c (?ns @ map (close_entry {entry_id e, entry_id (hd es)} c) es)"
    "\<forall>v x. x < TIMESTAMP_MAX \<longrightarrow> belief (?ns @ map (close_entry {entry_id e, entry_id (hd es)} c) es) v x =
      (if c \<le> x \<and> vf \<le> v \<and> v < valid_end e then Some (l, props) else belief es v x)"
    using split_live [OF live sp t(1)] split_belief [OF live sp t(1)] by blast+
  then show ?thesis
    using run unfolding end_eq by blast
qed

lemma gap_update_correct:
  assumes r: "represents L E K s i es" "store_ok s" and live: "live_history b now es" "now < c" "c < TIMESTAMP_MAX"
    and t: "valid_timestamp vf" "valid_timestamp c"
    and ids: "ids_ok s vid cid rid" and room: "room_for L s i"
    and g: "fills_gap es vf vt plan"
    and supplied: "reassert plan \<noteq> None \<longrightarrow> reassert_id = Some rid"
  shows "\<exists>ap s' es'. apply_update L E K i plan vf c vid l props prov carry_id reassert_id s = Some (Inr ap, s') \<and>
    step_to L E K i s s' es' {vid, cid, rid} 1 \<and> live_history vf c es' \<and>
    (\<forall>v x. x < TIMESTAMP_MAX \<longrightarrow> belief es' v x =
      (if c \<le> x \<and> vf \<le> v \<and> v < plan_end plan then Some (l, props) else belief es v x))"
proof -
  have plan: "predecessor plan = None" "carry_from plan = None" "new_valid_to plan = Some vt"
      "reassert plan = (if False then None else Some (entry_id (hd es)))"
    and vt: "vf < vt" "vt \<le> valid_start (hd es)" "valid_timestamp vt"
    using g slice_facts(1) [OF live(1)] unfolding fills_gap_def by auto
  note h = head_facts [OF live(1)]
  have no_carry: "\<not> valid_start (hd es) < vf"
    using vt(1,2) by auto
  have gather: "gather_carry L E plan carry_id s = (Inr (if valid_start (hd es) < vf
      then Some (cid, valid_start (hd es), fst (entry_content (hd es)), snd (entry_content (hd es)), None) else None), s)"
    "step_to L E K i s s es {} 0"
    using plan(1) no_carry step_to_refl [OF r] by (simp_all add: gather_carry_def)
  let ?ns = "gap_entries (hd es) vf vt c vid l props rid"
  obtain ap s' where run: "apply_update L E K i plan vf c vid l props prov carry_id reassert_id s = Some (Inr ap, s')"
    "step_to L E K i s s' (?ns @ map (close_entry {entry_id (hd es)} c) es) {vid, cid, rid} 1"
  proof -
    have ws: "case_option [] (\<lambda>v. [v]) (predecessor plan) @ case_option [] (\<lambda>v. [v]) (reassert plan) = map entry_id [hd es]"
      "[hd es] \<noteq> []" "distinct (map entry_id [hd es])" "hd es \<in> set [hd es]"
      using plan(1,4) by auto
    have "tr_start (transaction_time (entry_time (hd es))) \<le> c"
      using live h(1) unfolding live_history_def recorded_by_def by (meson less_imp_le order_trans)
    then have closing: "e' \<in> set es \<and> is_currently_recorded (entry_time e') \<and> tr_start (transaction_time (entry_time e')) \<le> c"
      if "e' \<in> set [hd es]" for e'
      using that h(1,3) by simp
    have vto: "vf \<le> e' \<and> valid_timestamp e'" if "new_valid_to plan = Some e'" for e'
      using that plan(3) vt by auto
    have again: "\<not> False \<longrightarrow> reassert_id = Some rid" and max: "c \<noteq> TIMESTAMP_MAX"
      using supplied plan(4) live(3) by auto
    have fresh: "version_at s vid = None" "version_at s cid = None" "version_at s rid = None" "distinct [vid, cid, rid]"
      "is_structural cid" "is_structural rid"
      using ids unfolding ids_ok_def by blast+
    show thesis
      using apply_update_runs [OF r fresh room [unfolded room_for_def] h(5) t max h(5) vto gather plan(4) again ws closing,
          of l props prov] that no_carry plan(3)
      by (auto simp: carry_entries_def gap_entries_def new_entry_def)
  qed
  have "distinct (map entry_id (?ns @ es))"
  proof -
    have "distinct (map entry_id es)" "set (map entry_id es) \<inter> {vid, cid, rid} = {}" "set (map entry_id ?ns) \<subseteq> {vid, cid, rid}"
      "distinct (map entry_id ?ns)"
      using representsD(4,5) [OF r(1)] ids by (auto simp: ids_ok_def owned_def gap_defs)
    then show ?thesis
      by (auto simp: image_iff)
  qed
  then have "live_history vf c (?ns @ map (close_entry {entry_id (hd es)} c) es)"
    "\<forall>v x. x < TIMESTAMP_MAX \<longrightarrow> belief (?ns @ map (close_entry {entry_id (hd es)} c) es) v x =
      (if c \<le> x \<and> vf \<le> v \<and> v < vt then Some (l, props) else belief es v x)"
    using gap_live [OF live g t(1)] gap_belief [OF live g t(1)] by blast+
  moreover have "plan_end plan = vt"
    using plan(3) by (simp add: plan_end_def)
  ultimately show ?thesis
    using run by blast
qed

text \<open>What the other entities see is framed.\<close>

lemma frame_content:
  assumes "frame L E K i s s'" "j \<noteq> i" "live_entity L E K s j b now" "store_ok s'"
  shows "live_entity L E K s' j b now \<and> content_at_time L E K j v x s' = content_at_time L E K j v x s"
proof -
  obtain es where es: "represents L E K s j es" "live_history b now es" "store_ok s"
    using assms(3) by (auto simp: live_entity_def)
  then have "represents L E K s' j es"
    using assms(1,2) by (auto simp: frame_def)
  then show ?thesis
    using es assms(4) content_belief [of L E K s' j es v x] content_belief [of L E K s j es v x]
    unfolding live_entity_def store_ok_def by auto
qed

lemma update_correct:
  assumes live: "live_entity L E K s i b now" and time: "now < c" "c < TIMESTAMP_MAX" "valid_timestamp c"
      "valid_timestamp vf" "vf < TIMESTAMP_MAX"
    and ids: "ids_ok s vid cid rid" and room: "room_for L s i"
    and plan: "plan = plan_entity_update s i vf"
    and supplied: "carry_from plan \<noteq> None \<longrightarrow> carry_id = Some cid" "reassert plan \<noteq> None \<longrightarrow> reassert_id = Some rid"
  shows "\<exists>ap s'. apply_update L E K i plan vf c vid l props prov carry_id reassert_id s = Some (Inr ap, s') \<and>
    live_entity L E K s' i (min b vf) c \<and> frame L E K i s s' \<and> store_ok s' \<and> vf < plan_end plan \<and>
    (\<forall>v. vf \<le> v \<longrightarrow> v < plan_end plan \<longrightarrow> content_at_time L E K i v c s = content_at_time L E K i vf c s) \<and>
    (\<forall>v x. x < TIMESTAMP_MAX \<longrightarrow> content_at_time L E K i v x s' =
      (if c \<le> x \<and> vf \<le> v \<and> v < plan_end plan then Some (l, props) else content_at_time L E K i v x s))"
proof -
  obtain es where es: "represents L E K s i es" "live_history b now es" "store_ok s"
    using live by (auto simp: live_entity_def)
  have wf: "hm_wf (versions s)"
    using es(3) by (simp add: store_ok_def)
  obtain others where "plan = plan_update (Some (entry_id (hd es), entry_time (hd es))) others vf"
    "set others = (\<lambda>e. (entry_id e, entry_time e)) ` {e \<in> set (tl es). is_open_slice (entry_time e)}"
    using plan_entity [OF es(1), of vf] plan by auto
  then consider (split) e where "splits_slice es vf e plan" | (gap) vt where "fills_gap es vf vt plan"
    using plan_live [OF es(2) time(1,2,5)] by blast
  then have "(\<exists>ap s' es'. apply_update L E K i plan vf c vid l props prov carry_id reassert_id s = Some (Inr ap, s') \<and>
      step_to L E K i s s' es' {vid, cid, rid} 1 \<and> live_history (min b vf) c es' \<and>
      (\<forall>v x. x < TIMESTAMP_MAX \<longrightarrow> belief es' v x =
        (if c \<le> x \<and> vf \<le> v \<and> v < plan_end plan then Some (l, props) else belief es v x))) \<and>
    vf < plan_end plan \<and> (\<forall>v. vf \<le> v \<longrightarrow> v < plan_end plan \<longrightarrow> belief es v c = belief es vf c)"
  proof cases
    case split
    have end_eq: "plan_end plan = valid_end e" "vf < valid_end e"
      using split head_facts(4) [OF es(2)] by (auto simp: splits_slice_def plan_end_def contains_def)
    moreover have "min b vf = b"
      using split open_start [OF es(2)] unfolding splits_slice_def contains_def by (meson min_absorb1 order_trans)
    ultimately show ?thesis
      using split_update_correct [OF es(1,3,2) time(1,2,4,3) ids room split supplied]
        split_in_segment [OF es(2) time(1,2) split] by auto
  next
    case gap
    have end_eq: "plan_end plan = vt" "vf < vt"
      using gap by (auto simp: fills_gap_def plan_end_def)
    moreover have "min b vf = vf"
      using gap_start(1) [OF es(2) gap] by simp
    ultimately show ?thesis
      using gap_update_correct [OF es(1,3,2) time(1,2,4,3) ids room gap supplied(2)]
        gap_in_segment [OF es(2) time(1,2) gap] by auto
  qed
  then obtain ap s' es' where run: "apply_update L E K i plan vf c vid l props prov carry_id reassert_id s = Some (Inr ap, s')"
    "step_to L E K i s s' es' {vid, cid, rid} 1" "live_history (min b vf) c es'" "vf < plan_end plan"
    "\<forall>v x. x < TIMESTAMP_MAX \<longrightarrow> belief es' v x =
      (if c \<le> x \<and> vf \<le> v \<and> v < plan_end plan then Some (l, props) else belief es v x)"
    "\<forall>v. vf \<le> v \<longrightarrow> v < plan_end plan \<longrightarrow> belief es v c = belief es vf c"
    by blast
  have s': "represents L E K s' i es'" "store_ok s'" "frame L E K i s s'" "hm_wf (versions s')"
    using run(2) by (auto simp: step_to_def store_ok_def)
  have "live_entity L E K s' i (min b vf) c"
    unfolding live_entity_def using run(3) s'(1,2) by blast
  moreover have "\<forall>v. vf \<le> v \<longrightarrow> v < plan_end plan \<longrightarrow> content_at_time L E K i v c s = content_at_time L E K i vf c s"
    using run(6) by (simp only: content_belief [OF es(1) wf])
  moreover have "\<forall>v x. x < TIMESTAMP_MAX \<longrightarrow> content_at_time L E K i v x s' =
      (if c \<le> x \<and> vf \<le> v \<and> v < plan_end plan then Some (l, props) else content_at_time L E K i v x s)"
    using run(5) by (simp only: content_belief [OF es(1) wf] content_belief [OF s'(1,4)])
  ultimately show ?thesis
    using run(1,4) s'(2,3) by blast
qed

section \<open>Creating\<close>

lemma create_correct:
  assumes vacant: "vacant K s i" and ok: "store_ok s" and fresh: "version_at s vid = None" and room: "room_for L s i"
    and time: "valid_timestamp vf" "vf < TIMESTAMP_MAX" "valid_timestamp c"
  shows "\<exists>s'. add_version L E K i vid vf c l props False prov s = Some (Inr (), s') \<and>
    live_entity L E K s' i vf c \<and> frame L E K i s s' \<and> store_ok s' \<and>
    (\<forall>v x. content_at_time L E K i v x s' =
      (if c \<le> x \<and> x < TIMESTAMP_MAX \<and> vf \<le> v \<and> v < TIMESTAMP_MAX then Some (l, props) else None))"
proof -
  let ?e = "(vid, rect vf TIMESTAMP_MAX c, l, props)"
  obtain s' where s': "add_version_with_interval L E K i vid (rect vf TIMESTAMP_MAX c) l props prov s = (Inr (), s')"
    "step_to L E K i s s' [?e] {vid} 1"
    using first_version_runs [OF vacant ok fresh, of L] room unfolding room_for_def by blast
  have r: "represents L E K s' i [?e]" "store_ok s'" "frame L E K i s s'" "hm_wf (versions s')"
    using s'(2) by (auto simp: step_to_def store_ok_def)
  have "live_history vf c [?e]"
    using time by (auto simp: live_history_def disjoint_entries_def recorded_by_def chronological_def open_headed_def covers_from_def
        is_open_slice_def tr_is_current_def contains_def)
  then have "live_entity L E K s' i vf c"
    using r by (auto simp: live_entity_def)
  moreover have "content_at_time L E K i v x s' =
      (if c \<le> x \<and> x < TIMESTAMP_MAX \<and> vf \<le> v \<and> v < TIMESTAMP_MAX then Some (l, props) else None)" for v x
    unfolding content_belief [OF r(1,4)] by (auto simp: belief_def lookup_def visible_rect)
  moreover have "add_version L E K i vid vf c l props False prov s = Some (Inr (), s')"
    using s'(1) bt_rect [OF time(1,3)] by (simp add: add_version_def)
  ultimately show ?thesis
    using r(2,3) by blast
qed

section \<open>Deleting\<close>

lemma delete_closes:
  assumes r: "represents L E K s i es" "store_ok s" and live: "live_history b now es" "now < c" "c < TIMESTAMP_MAX"
    and t: "valid_timestamp c"
  shows "\<exists>A s1. close_all_slices K i c s = (Inr (), s1) \<and> step_to L E K i s s1 (map (close_entry A c) es) {} 0 \<and>
    (\<forall>e \<in> set es. entry_id e \<in> A \<longleftrightarrow> is_open_slice (entry_time e)) \<and> logical_version_count s1 i = logical_version_count s i"
proof -
  note r' = representsD [OF r(1)]
  have hd: "hd es \<in> set es" and set_es: "set es = insert (hd es) (set (tl es))"
    using r'(1) by (simp, cases es) auto
  have ids: "slices_of s i @ head_list s i = slices_of s i @ [entry_id (hd es)]"
    using r'(2) by (simp add: head_list_def)
  have "{e \<in> set es. is_open_slice (entry_time e)} = insert (hd es) {e \<in> set (tl es). is_open_slice (entry_time e)}"
    using set_es head_facts(2) [OF live(1)] by blast
  then have all: "set (slices_of s i @ [entry_id (hd es)]) = entry_id ` {e \<in> set es. is_open_slice (entry_time e)}"
    using r'(6) by (simp add: open_ids_def)
  have "\<exists>e \<in> {e \<in> set es. is_open_slice (entry_time e)}. entry_id e = u" if "u \<in> set (slices_of s i @ [entry_id (hd es)])" for u
    using that unfolding all by blast
  then have "\<exists>ws. map entry_id ws = slices_of s i @ [entry_id (hd es)] \<and> set ws \<subseteq> {e \<in> set es. is_open_slice (entry_time e)}"
    by (rule entries_of_ids)
  then obtain ws where ws: "map entry_id ws = slices_of s i @ [entry_id (hd es)]"
    "set ws \<subseteq> {e \<in> set es. is_open_slice (entry_time e)}"
    by blast
  have "entry_id ` set ws = entry_id ` {e \<in> set es. is_open_slice (entry_time e)}"
    using arg_cong [OF ws(1), of set] all by simp
  moreover have "{e \<in> set ws. is_currently_recorded (entry_time e)} = set ws"
    using ws(2) by (auto simp: is_open_slice_def)
  ultimately have A: "entry_id ` {e \<in> set ws. is_currently_recorded (entry_time e)} = entry_id ` {e \<in> set es. is_open_slice (entry_time e)}"
    by simp
  have started: "e \<in> set es \<and> tr_start (transaction_time (entry_time e)) \<le> c" if "e \<in> set ws" for e
  proof -
    have "e \<in> set es" "recorded_by now es"
      using that ws(2) live(1) by (auto simp: live_history_def)
    then have "tr_start (transaction_time (entry_time e)) \<le> now"
      unfolding recorded_by_def by blast
    then show ?thesis
      using \<open>e \<in> set es\<close> live(2) by simp
  qed
  obtain s1 where s1: "close_all_slices K i c s = (Inr (), s1)"
    "step_to L E K i s s1 (map (close_entry (entry_id ` {e \<in> set es. is_open_slice (entry_time e)}) c) es) {} 0"
    "logical_version_count s1 i = logical_version_count s i"
  proof -
    have "\<not> exceeds_max c" "c \<noteq> TIMESTAMP_MAX"
      using t live(3) by (auto simp: exceeds_max_iff)
    then show thesis
      using withdraw_runs [of L E s i es ws c, OF r started] that unfolding A close_all_slices_def ids ws(1)
      by (auto simp: step_to_def)
  qed
  have "entry_id e \<in> entry_id ` {e \<in> set es. is_open_slice (entry_time e)} \<longleftrightarrow> is_open_slice (entry_time e)" if "e \<in> set es" for e
    using that r'(4) by (auto simp: distinct_map inj_on_def)
  then show ?thesis
    using s1 by blast
qed

lemma delete_correct:
  assumes live: "live_entity L E K s i b now" and time: "now < c" "c < TIMESTAMP_MAX" "valid_timestamp c" "valid_timestamp vf"
    and fresh: "version_at s vid = None" and room: "room_for L s i"
  shows "\<exists>s'. apply_delete L E K i vf c vid l props prov s = Some (Inr (), s') \<and>
    known_entity L E K s' i c \<and> frame L E K i s s' \<and> store_ok s' \<and>
    (\<forall>v x. x < TIMESTAMP_MAX \<longrightarrow> content_at_time L E K i v x s' = (if c \<le> x then None else content_at_time L E K i v x s))"
proof -
  obtain es where es: "represents L E K s i es" "live_history b now es" "store_ok s" "hm_wf (versions s)"
    using live by (auto simp: live_entity_def store_ok_def)
  have base: "disjoint_entries es" "recorded_by now es" "distinct (map entry_id es)" "es \<noteq> []" "chronological es"
    using es(2) representsD(1) [OF es(1)] by (simp_all add: live_history_def)
  obtain A s1 where s1: "close_all_slices K i c s = (Inr (), s1)" "step_to L E K i s s1 (map (close_entry A c) es) {} 0"
    "\<forall>e \<in> set es. entry_id e \<in> A \<longleftrightarrow> is_open_slice (entry_time e)"
    using delete_closes [OF es(1,3,2) time(1,2,3)] by blast
  have recorded: "is_currently_recorded (entry_time e)" if "e \<in> set es" "entry_id e \<in> A" for e
    using s1(3) that by (auto simp: is_open_slice_def)
  have settled: "settled_by c (map (close_entry A c) es)"
    using settled_close [OF base(4), of A c] s1(3) head_facts(1,2) [OF es(2)] time(2) by blast
  let ?e = "(vid, rect vf vf c, l, props)"
  have s1': "represents L E K s1 i (map (close_entry A c) es)" "store_ok s1" "version_at s1 vid = None"
    "logical_version_count s1 i < max_versions_per_entity (retention_policy L)"
    using s1(2) fresh room by (auto simp: step_to_def room_for_def)
  obtain s2 where s2: "add_version_with_interval L E K i vid (rect vf vf c) l props prov s1 = (Inr (), s2)"
    "step_to L E K i s1 s2 (?e # map (close_entry A c) es) {vid} (if is_structural vid then 0 else 1)"
    using add_step [OF s1'(1,2) settled s1'(3)] s1'(4) by blast
  have run: "apply_delete L E K i vf c vid l props prov s = Some (Inr (), s2)"
    using s1(1) s2(1) bt_rect [OF time(4,3)] close_rect [of vf vf TIMESTAMP_MAX c] time(4)
    by (simp add: apply_delete_def create_temporal_interval_def add_version_def)
  have r: "represents L E K s2 i ([?e] @ map (close_entry A c) es)" "store_ok s2" "frame L E K i s s2" "hm_wf (versions s2)"
    using step_to_trans [OF s1(2) s2(2)] by (auto simp: step_to_def store_ok_def)
  have fit: "fits es A c [?e]"
    using time(4) by (auto simp: fits_def contains_def)
  have "known_entity L E K s2 i c"
    using r(1,2) representsD(4) [OF r(1)] replace_disjoint [OF base(1,2) time(1,2) fit recorded]
      replace_recorded [OF base(2) time(1) fit] replace_chronological [OF base(5,2) time(1) fit]
    unfolding known_entity_def base_history_def by blast
  moreover have "belief ([?e] @ map (close_entry A c) es) v x = (if c \<le> x then None else belief es v x)"
    if "x < TIMESTAMP_MAX" for v x
  proof -
    have "\<not> is_visible_at (entry_time ?e) v x"
      by (auto simp: visible_rect)
    then show ?thesis
      using belief_withdrawn [OF base(2) time(1,2) s1(3) that] belief_cons [of ?e v x] by simp
  qed
  ultimately show ?thesis
    using run r(2,3) content_belief [OF r(1,4)] content_belief [OF es(1,4)] by (intro exI [of _ s2]) simp
qed

section \<open>Retracting\<close>

lemma retract_correct:
  assumes live: "live_entity L E K s i b now" and time: "now < c" "c < TIMESTAMP_MAX" "valid_timestamp c" "valid_timestamp vt"
    and head: "head_state L E s i = Some (hs, l, props)" "hs \<le> vt"
    and fresh: "version_at s vid = None" and room: "room_for L s i"
  shows "\<exists>s'. apply_retract L E K i vt c vid l props prov s = Some (Inr (), s') \<and>
    known_entity L E K s' i c \<and> frame L E K i s s' \<and> store_ok s' \<and>
    (\<forall>v x. x < TIMESTAMP_MAX \<longrightarrow> content_at_time L E K i v x s' =
      (if c \<le> x \<and> vt \<le> v then None else content_at_time L E K i v x s))"
proof -
  obtain es where es: "represents L E K s i es" "live_history b now es" "store_ok s" "hm_wf (versions s)"
    using live by (auto simp: live_entity_def store_ok_def)
  have base: "disjoint_entries es" "recorded_by now es" "distinct (map entry_id es)" "es \<noteq> []" "chronological es"
    using es(2) representsD(1) [OF es(1)] by (simp_all add: live_history_def)
  note h = head_facts [OF es(2)]
  obtain hv where hv: "version_at s (entry_id (hd es)) = Some hv" "temporal hv = entry_time (hd es)"
    "label hv = fst (entry_content (hd es))" "read L E s (entry_id (hd es)) = Inr (snd (entry_content (hd es)))"
    using representsD(7) [OF es(1) h(1)] by (auto simp: shows_entry_def)
  have hd_state: "hs = valid_start (hd es)" "(l, props) = entry_content (hd es)"
    using head(1) hv representsD(2) [OF es(1)] by (auto simp: head_state_def)
  let ?A = "{entry_id (hd es)}" and ?e = "(vid, rect hs vt c, l, props)"
  have "tr_start (transaction_time (entry_time (hd es))) \<le> c"
    using base(2) h(1) time(1) unfolding recorded_by_def by (meson less_imp_le order_trans)
  moreover have c: "\<not> exceeds_max c" "c \<noteq> TIMESTAMP_MAX"
    using time(2,3) by (auto simp: exceeds_max_iff)
  moreover have A: "entry_id ` {e \<in> set [hd es]. is_currently_recorded (entry_time e)} = ?A"
    using h(3) by auto
  ultimately obtain s1 where s1: "close_recorded K (map entry_id [hd es]) c s = (Inr (), s1)"
    "step_to L E K i s s1 (map (close_entry ?A c) es) {} 0"
    using withdraw_runs [OF es(1,3), of "[hd es]" c, unfolded A] h(1) by (auto simp: step_to_def)
  have close: "close_version_transaction_time K (entry_id (hd es)) c s = (Inr (), s1)"
    using s1(1) hv(1,2) h(3) by (auto split: prod.splits sum.splits)
  have s1': "represents L E K s1 i (map (close_entry ?A c) es)" "store_ok s1" "version_at s1 vid = None"
    "logical_version_count s1 i < max_versions_per_entity (retention_policy L)"
    using s1(2) fresh room by (auto simp: step_to_def room_for_def)
  have settled: "settled_by c (map (close_entry ?A c) es)"
    using settled_close [OF base(4), of ?A c] c(2) by simp
  obtain s2 where s2: "add_version_with_interval L E K i vid (rect hs vt c) l props prov s1 = (Inr (), s2)"
    "step_to L E K i s1 s2 (?e # map (close_entry ?A c) es) {vid} (if is_structural vid then 0 else 1)"
    using add_step [OF s1'(1,2) settled s1'(3)] s1'(4) by blast
  have hs: "valid_timestamp hs"
    using h(5) hd_state(1) by simp
  have run: "apply_retract L E K i vt c vid l props prov s = Some (Inr (), s2)"
    using close s2(1) bt_rect [OF hs time(3)] close_rect [OF head(2) time(4), of TIMESTAMP_MAX c] hv(1,2)
      representsD(2) [OF es(1)] hd_state(1)
    by (simp add: apply_retract_def add_retracted_version_def Let_def)
  have r: "represents L E K s2 i ([?e] @ map (close_entry ?A c) es)" "store_ok s2" "frame L E K i s s2" "hm_wf (versions s2)"
    using step_to_trans [OF s1(2) s2(2)] by (auto simp: step_to_def store_ok_def)
  note fit = retract_fits(1) [OF es(2) time(1,2) hd_state(1) head(2) time(4), of vid l props]
    retract_fits(2) [OF es(2) time(1,2) hd_state(1) head(2) time(4)]
  have "known_entity L E K s2 i c"
    using r(1,2) representsD(4) [OF r(1)] replace_disjoint [OF base(1,2) time(1,2) fit(1,2)]
      replace_recorded [OF base(2) time(1) fit(1)] replace_chronological [OF base(5,2) time(1) fit(1)]
    unfolding known_entity_def base_history_def by blast
  then show ?thesis
    using run r(2,3) content_belief [OF r(1,4)] content_belief [OF es(1,4)]
      retract_belief [OF es(2) time(1,2) hd_state head(2) time(4)] by (intro exI [of _ s2]) simp
qed

end

end
