(* ===== verification/HistoryRuns.thy ===== *)
theory HistoryRuns
  imports Bitemporal
begin

text \<open>
  Runs of the historical tier: commits, each a sequence of creates, updates, deletes, retractions
  and reads, and the abstract bi-temporal record they implement. A record says for every entity,
  valid time and transaction time what was believed; a commit may only change it from its own
  timestamp on.
\<close>

section \<open>The abstract record\<close>

type_synonym belief = "Timestamp \<Rightarrow> Timestamp \<Rightarrow> (InternedString \<times> PropertyMap) option"

definition nothing_believed :: belief where
  "nothing_believed = (\<lambda>_ _. None)"

definition overwrite :: "Timestamp \<Rightarrow> Timestamp \<Rightarrow> Timestamp \<Rightarrow> InternedString \<times> PropertyMap \<Rightarrow> belief \<Rightarrow> belief" where
  "overwrite c a b y f =
     (\<lambda>v x. if c \<le> x \<and> x < TIMESTAMP_MAX \<and> a \<le> v \<and> v < b then Some y else f v x)"

definition withdraw_from :: "Timestamp \<Rightarrow> belief \<Rightarrow> belief" where
  "withdraw_from c f = (\<lambda>v x. if c \<le> x then None else f v x)"

definition retract_from :: "Timestamp \<Rightarrow> Timestamp \<Rightarrow> belief \<Rightarrow> belief" where
  "retract_from c a f = (\<lambda>v x. if c \<le> x \<and> a \<le> v then None else f v x)"

text \<open>An update replaces what was believed over one uniform segment of valid time.\<close>

inductive spec_write :: "Timestamp \<Rightarrow> 'i set \<times> ('i \<Rightarrow> belief) \<Rightarrow> 'i set \<times> ('i \<Rightarrow> belief) \<Rightarrow> bool" for c where
  spec_create: "i \<notin> live \<Longrightarrow> f i = nothing_believed \<Longrightarrow>
    spec_write c (live, f) (insert i live, f(i := overwrite c a TIMESTAMP_MAX y (f i)))"
| spec_update: "i \<in> live \<Longrightarrow> a < b \<Longrightarrow> (\<And>v. a \<le> v \<Longrightarrow> v < b \<Longrightarrow> f i v c = f i a c) \<Longrightarrow>
    spec_write c (live, f) (live, f(i := overwrite c a b y (f i)))"
| spec_delete: "i \<in> live \<Longrightarrow> spec_write c (live, f) (live - {i}, f(i := withdraw_from c (f i)))"
| spec_retract: "i \<in> live \<Longrightarrow> spec_write c (live, f) (live - {i}, f(i := retract_from c a (f i)))"

inductive spec_commit ::
  "Timestamp \<times> 'i set \<times> ('i \<Rightarrow> belief) \<Rightarrow> Timestamp \<times> 'i set \<times> ('i \<Rightarrow> belief) \<Rightarrow> bool" where
  "now < c \<Longrightarrow> (spec_write c)\<^sup>*\<^sup>* (live, f) (live', f') \<Longrightarrow> spec_commit (now, live, f) (c, live', f')"

lemma spec_write_past:
  assumes "spec_write c (live, f) (live', f')" "x < c"
  shows "f' i v x = f i v x"
  using assms by cases (auto simp: overwrite_def withdraw_from_def retract_from_def)

lemma spec_writes_past:
  assumes "(spec_write c)\<^sup>*\<^sup>* (live, f) (live', f')" "x < c"
  shows "f' i v x = f i v x"
  using assms(1)
proof (induction rule: rtranclp_induct2)
  case (step live1 f1 live2 f2)
  then show ?case
    using spec_write_past [OF step.hyps(2) assms(2)] by simp
qed simp

lemma spec_commits_past:
  assumes "spec_commit\<^sup>*\<^sup>* (now, live, f) (now', live', f')" "x \<le> now"
  shows "now \<le> now' \<and> f' i v x = f i v x"
  using assms(1)
proof (induction "(now', live', f')" arbitrary: now' live' f' rule: rtranclp_induct)
  case (step y)
  obtain n l g where y: "y = (n, l, g)"
    by (cases y)
  have "now \<le> n" "g i v x = f i v x"
    using step.hyps(3) y by auto
  moreover have "n < now'" "(spec_write now')\<^sup>*\<^sup>* (l, g) (live', f')"
    using step.hyps(2) unfolding y by (auto elim: spec_commit.cases)
  moreover have "x < now'"
    using \<open>now \<le> n\<close> \<open>n < now'\<close> assms(2) by simp
  ultimately show ?case
    using spec_writes_past by fastforce
qed simp

section \<open>Commits of the store\<close>

text \<open>
  The states of a commit: the entities in the current tier, those this commit has written, and the
  store. Each entity is written at most once per commit. Ids are fresh, as the id generator makes
  them; a retraction repeats the content of the head, and its end does not precede the start of the
  head, which is checked when it is buffered. The kinds differ in what the constructors store beside
  the common fields, as the edges of a store differ in their endpoints.
\<close>

inductive write_step ::
  "storage_limits \<Rightarrow> environment \<Rightarrow> ('i, 'a) entity_kind set \<Rightarrow> Timestamp \<Rightarrow>
    'i set \<times> 'i set \<times> ('i, 'a) version_store \<Rightarrow> 'i set \<times> 'i set \<times> ('i, 'a) version_store \<Rightarrow> bool" for L E KS c where
  create_step: "K \<in> KS \<Longrightarrow> i \<notin> W \<Longrightarrow> hm_get (version_heads s) i = None \<Longrightarrow> version_at s vid = None \<Longrightarrow>
    room_for L s i \<Longrightarrow> valid_timestamp vf \<Longrightarrow> vf < TIMESTAMP_MAX \<Longrightarrow>
    add_version L E K i vid vf c l props False prov s = Some (Inr (), s') \<Longrightarrow>
    write_step L E KS c (live, W, s) (insert i live, insert i W, s')"
| update_step: "K \<in> KS \<Longrightarrow> i \<in> live \<Longrightarrow> i \<notin> W \<Longrightarrow> ids_ok s vid cid rid \<Longrightarrow> room_for L s i \<Longrightarrow>
    valid_timestamp vf \<Longrightarrow> vf < TIMESTAMP_MAX \<Longrightarrow> plan = plan_entity_update s i vf \<Longrightarrow>
    (carry_from plan \<noteq> None \<longrightarrow> carry_id = Some cid) \<Longrightarrow> (reassert plan \<noteq> None \<longrightarrow> reassert_id = Some rid) \<Longrightarrow>
    apply_update L E K i plan vf c vid l props prov carry_id reassert_id s = Some (Inr ap, s') \<Longrightarrow>
    write_step L E KS c (live, W, s) (live, insert i W, s')"
| delete_step: "K \<in> KS \<Longrightarrow> i \<in> live \<Longrightarrow> i \<notin> W \<Longrightarrow> version_at s vid = None \<Longrightarrow> room_for L s i \<Longrightarrow> valid_timestamp vf \<Longrightarrow>
    apply_delete L E K i vf c vid l props prov s = Some (Inr (), s') \<Longrightarrow>
    write_step L E KS c (live, W, s) (live - {i}, insert i W, s')"
| retract_step: "K \<in> KS \<Longrightarrow> i \<in> live \<Longrightarrow> i \<notin> W \<Longrightarrow> version_at s vid = None \<Longrightarrow> room_for L s i \<Longrightarrow> valid_timestamp vt \<Longrightarrow>
    head_state L E s i = Some (hs, l, props) \<Longrightarrow> hs \<le> vt \<Longrightarrow>
    apply_retract L E K i vt c vid l props prov s = Some (Inr (), s') \<Longrightarrow>
    write_step L E KS c (live, W, s) (live - {i}, insert i W, s')"
| read_step: "write_step L E KS c (live, W, s) (live, W, snd (reconstruct L E vid s))"

inductive commit_step ::
  "storage_limits \<Rightarrow> environment \<Rightarrow> ('i, 'a) entity_kind set \<Rightarrow>
    Timestamp \<times> 'i set \<times> ('i, 'a) version_store \<Rightarrow> Timestamp \<times> 'i set \<times> ('i, 'a) version_store \<Rightarrow> bool" for L E KS where
  "now < c \<Longrightarrow> c < TIMESTAMP_MAX \<Longrightarrow> valid_timestamp c \<Longrightarrow>
    (write_step L E KS c)\<^sup>*\<^sup>* (live, {}, s) (live', W, s') \<Longrightarrow>
    commit_step L E KS (now, live, s) (c, live', s')"

definition beliefs ::
  "storage_limits \<Rightarrow> environment \<Rightarrow> ('i, 'a) entity_kind \<Rightarrow> ('i, 'a) version_store \<Rightarrow> 'i \<Rightarrow> belief" where
  "beliefs L E K s i = (\<lambda>v x. content_at_time L E K i v x s)"

section \<open>The invariant of runs\<close>

definition status ::
  "storage_limits \<Rightarrow> environment \<Rightarrow> ('i, 'a) entity_kind \<Rightarrow> Timestamp \<Rightarrow> 'i set \<Rightarrow> ('i, 'a) version_store \<Rightarrow> 'i \<Rightarrow> bool" where
  "status L E K n live s i \<longleftrightarrow>
     vacant K s i \<and> i \<notin> live \<or>
     known_entity L E K s i n \<and> (i \<in> live \<longrightarrow> (\<exists>b. live_entity L E K s i b n))"

definition run_inv ::
  "storage_limits \<Rightarrow> environment \<Rightarrow> ('i, 'a) entity_kind \<Rightarrow> Timestamp \<Rightarrow> Timestamp \<Rightarrow>
    'i set \<times> 'i set \<times> ('i, 'a) version_store \<Rightarrow> bool" where
  "run_inv L E K now c d \<longleftrightarrow> (case d of (live, W, s) \<Rightarrow> store_ok s \<and>
     (\<forall>i. status L E K (if i \<in> W then c else now) live s i))"

lemma vacant_belief: "vacant K s i \<Longrightarrow> beliefs L E K s i = nothing_believed"
  by (simp add: vacant_def beliefs_def nothing_believed_def content_at_time_def get_at_time_def find_version_at_time_def)

text \<open>Nothing is believed at or after the end of time.\<close>

lemma known_end:
  assumes "known_entity L E K s i n" "n < TIMESTAMP_MAX" "TIMESTAMP_MAX \<le> x"
  shows "beliefs L E K s i v x = None"
proof -
  obtain es where es: "represents L E K s i es" "recorded_by n es" "hm_wf (versions s)"
    using assms(1) by (auto simp: known_entity_def base_history_def store_ok_def)
  have "\<not> is_visible_at (entry_time e) v x" if "e \<in> set es" for e
  proof -
    have "tr_end (transaction_time (entry_time e)) \<le> TIMESTAMP_MAX"
    proof -
      have "tr_end (transaction_time (entry_time e)) = TIMESTAMP_MAX \<or> tr_end (transaction_time (entry_time e)) \<le> n"
        using es(2) that unfolding recorded_by_def is_currently_recorded_def tr_is_current_def by blast
      then show ?thesis
        using assms(2) by auto
    qed
    then show ?thesis
      using assms(3) by (auto simp: is_visible_at_def contains_def)
  qed
  then show ?thesis
    by (simp add: beliefs_def content_belief [OF es(1,3)] belief_none)
qed

lemma known_mono: "known_entity L E K s i n \<Longrightarrow> n \<le> m \<Longrightarrow> known_entity L E K s i m"
  unfolding known_entity_def base_history_def recorded_by_def by (meson order_trans)

lemma live_mono: "live_entity L E K s i b n \<Longrightarrow> n \<le> m \<Longrightarrow> live_entity L E K s i b m"
  unfolding live_entity_def live_history_def recorded_by_def by (meson order_trans)

lemma status_mono: "status L E K n live s i \<Longrightarrow> n \<le> m \<Longrightarrow> status L E K m live s i"
  using known_mono [of L E K s i n m] live_mono [of L E K s i _ n m] unfolding status_def by blast

lemma status_live: "status L E K n live s i \<Longrightarrow> i \<in> live \<Longrightarrow> \<exists>b. live_entity L E K s i b n"
  unfolding status_def by blast

lemma status_free: "status L E K n live s i \<Longrightarrow> hm_get (version_heads s) i = None \<Longrightarrow> vacant K s i \<and> i \<notin> live"
  unfolding status_def known_entity_def represents_def by auto

lemma known_status: "known_entity L E K s i n \<Longrightarrow> i \<notin> live \<Longrightarrow> status L E K n live s i"
  by (simp add: status_def)

lemma live_status: "live_entity L E K s i b n \<Longrightarrow> status L E K n live s i"
  using live_known [of L E K s i b n] unfolding status_def by blast

lemma run_inv_live:
  assumes "run_inv L E K now c (live, W, s)" "i \<in> live" "i \<notin> W"
  shows "\<exists>b. live_entity L E K s i b now"
proof -
  have "status L E K (if i \<in> W then c else now) live s i"
    using assms(1) unfolding run_inv_def by blast
  then show ?thesis
    using assms(2,3) status_live by auto
qed

text \<open>An entity other than the one written keeps its status and its record.\<close>

lemma frame_status:
  assumes "frame L E K i s s'" "j \<noteq> i" "status L E K n live s j" "store_ok s" "store_ok s'" "j \<in> live' \<longleftrightarrow> j \<in> live"
  shows "status L E K n live' s' j" "beliefs L E K s' j = beliefs L E K s j"
proof -
  have keep: "represents L E K s' j es" if "represents L E K s j es" for es
    using assms(1,2) that unfolding frame_def by blast
  have same: "beliefs L E K s' j = beliefs L E K s j" if "represents L E K s j es" for es
    using content_belief [OF that] content_belief [OF keep [OF that]] assms(4,5)
    by (simp add: beliefs_def store_ok_def)
  have "vacant K s' j" if "vacant K s j"
    using assms(1,2) that unfolding frame_def vacant_def by metis
  then show "status L E K n live' s' j" "beliefs L E K s' j = beliefs L E K s j"
    using assms(3,5,6) keep same vacant_belief [of K s j L E] vacant_belief [of K s' j L E]
    unfolding status_def known_entity_def live_entity_def by metis+
qed

text \<open>One write, given what it does to the entity written.\<close>

lemma write_keeps:
  assumes inv: "run_inv L E K now c (live, W, s)" and fr: "frame L E K i s s'" "store_ok s'"
    and st: "status L E K c live' s' i" and same: "\<And>j. j \<noteq> i \<Longrightarrow> j \<in> live' \<longleftrightarrow> j \<in> live"
  shows "run_inv L E K now c (live', insert i W, s')"
    "beliefs L E K s' i = g \<Longrightarrow> beliefs L E K s' = (beliefs L E K s)(i := g)"
proof -
  have other: "status L E K n live' s' j" "beliefs L E K s' j = beliefs L E K s j"
    if "j \<noteq> i" "status L E K n live s j" for j n
    using frame_status [OF fr(1) that(1,2) _ fr(2)] inv same [OF that(1)] by (auto simp: run_inv_def)
  have each: "status L E K (if j \<in> W then c else now) live s j" for j
    using inv by (simp add: run_inv_def)
  have "status L E K (if j \<in> insert i W then c else now) live' s' j" for j
    using other(1) [of j, OF _ each] st by (cases "j = i") auto
  then show "run_inv L E K now c (live', insert i W, s')"
    using fr(2) by (simp add: run_inv_def)
  show "beliefs L E K s' = (beliefs L E K s)(i := g)" if "beliefs L E K s' i = g"
  proof
    fix j
    show "beliefs L E K s' j = ((beliefs L E K s)(i := g)) j"
      using other(2) [of j, OF _ each] that by auto
  qed
qed

lemma beliefs_eqI:
  assumes "\<And>v x. x < TIMESTAMP_MAX \<Longrightarrow> beliefs L E K s i v x = g v x"
    "known_entity L E K s i c" "c < TIMESTAMP_MAX" "\<And>v x. TIMESTAMP_MAX \<le> x \<Longrightarrow> g v x = None"
  shows "beliefs L E K s i = g"
proof (intro ext)
  fix v x
  show "beliefs L E K s i v x = g v x"
    using assms(1) [of x v] known_end [OF assms(2,3), of x v] assms(4) [of x v] by (cases "x < TIMESTAMP_MAX") auto
qed

definition simulates ::
  "storage_limits \<Rightarrow> environment \<Rightarrow> ('i, 'a) entity_kind \<Rightarrow> Timestamp \<Rightarrow> Timestamp \<Rightarrow>
    'i set \<times> ('i, 'a) version_store \<Rightarrow> 'i set \<times> 'i set \<times> ('i, 'a) version_store \<Rightarrow> bool" where
  "simulates L E K now c = (\<lambda>(live, s) (live', W', s'). run_inv L E K now c (live', W', s') \<and>
     (spec_write c)\<^sup>*\<^sup>* (live, beliefs L E K s) (live', beliefs L E K s'))"

lemma simulatesI:
  assumes "run_inv L E K now c (live', W', s')" "beliefs L E K s' = f" "spec_write c (live, beliefs L E K s) (live', f)"
  shows "simulates L E K now c (live, s) (live', W', s')"
  using assms by (auto simp: simulates_def)

text \<open>A call has one result.\<close>

lemma result_unique:
  "\<exists>s. f = Some (Inr (), s) \<and> P s \<Longrightarrow> f = Some (Inr (), s') \<Longrightarrow> P s'"
  "\<exists>r s. g = Some (Inr r, s) \<and> P s \<Longrightarrow> g = Some (Inr r', s') \<Longrightarrow> P s'"
  by auto

context versioned
begin

lemma create_sim:
  assumes inv: "run_inv L E K now c (live, W, s)" and time: "c < TIMESTAMP_MAX" "valid_timestamp c"
    and pre: "hm_get (version_heads s) i = None" "version_at s vid = None" "room_for L s i"
      "valid_timestamp vf" "vf < TIMESTAMP_MAX"
    and run: "add_version L E K i vid vf c l props False prov s = Some (Inr (), s')"
  shows "simulates L E K now c (live, s) (insert i live, insert i W, s')"
proof -
  have ok: "store_ok s" and vac: "vacant K s i" "i \<notin> live"
    using inv status_free [of L E K _ live s i] pre(1) by (auto simp: run_inv_def)
  have s': "live_entity L E K s' i vf c" "frame L E K i s s'" "store_ok s'"
    "\<And>v x. content_at_time L E K i v x s' =
      (if c \<le> x \<and> x < TIMESTAMP_MAX \<and> vf \<le> v \<and> v < TIMESTAMP_MAX then Some (l, props) else None)"
    using result_unique(1) [OF create_correct [OF vac(1) ok pre(2,3,4,5) time(2)] run] by blast+
  note keep = write_keeps [OF inv s'(2,3) live_status [OF s'(1)], of "insert i live"]
  have new: "beliefs L E K s' i = overwrite c vf TIMESTAMP_MAX (l, props) (beliefs L E K s i)"
    unfolding vacant_belief [OF vac(1)] by (auto simp: beliefs_def s'(4) overwrite_def nothing_believed_def fun_eq_iff)
  show ?thesis
  proof (rule simulatesI [OF keep(1) keep(2) [OF _ new]])
    show "spec_write c (live, beliefs L E K s) (insert i live, (beliefs L E K s)
        (i := overwrite c vf TIMESTAMP_MAX (l, props) (beliefs L E K s i)))"
      using vac vacant_belief by (intro spec_create)
  qed auto
qed

lemma update_sim:
  assumes inv: "run_inv L E K now c (live, W, s)" and time: "now < c" "c < TIMESTAMP_MAX" "valid_timestamp c"
    and i: "i \<in> live" "i \<notin> W" and pre: "ids_ok s vid cid rid" "room_for L s i" "valid_timestamp vf" "vf < TIMESTAMP_MAX"
    and plan: "plan = plan_entity_update s i vf" "carry_from plan \<noteq> None \<longrightarrow> carry_id = Some cid"
      "reassert plan \<noteq> None \<longrightarrow> reassert_id = Some rid"
    and run: "apply_update L E K i plan vf c vid l props prov carry_id reassert_id s = Some (Inr ap, s')"
  shows "simulates L E K now c (live, s) (live, insert i W, s')"
proof -
  obtain b where live: "live_entity L E K s i b now"
    using run_inv_live [OF inv i] by blast
  have s': "live_entity L E K s' i (min b vf) c" "frame L E K i s s'" "store_ok s'" "vf < plan_end plan"
    "\<And>v. vf \<le> v \<Longrightarrow> v < plan_end plan \<Longrightarrow> content_at_time L E K i v c s = content_at_time L E K i vf c s"
    "\<And>v x. x < TIMESTAMP_MAX \<Longrightarrow> content_at_time L E K i v x s' =
      (if c \<le> x \<and> vf \<le> v \<and> v < plan_end plan then Some (l, props) else content_at_time L E K i v x s)"
    using result_unique(2) [OF update_correct [OF live time pre(3,4,1,2) plan] run] by blast+
  note keep = write_keeps [OF inv s'(2,3) live_status [OF s'(1)], of live]
  have new: "beliefs L E K s' i = overwrite c vf (plan_end plan) (l, props) (beliefs L E K s i)"
  proof (rule beliefs_eqI [OF _ live_known [OF s'(1)] time(2)])
    show "overwrite c vf (plan_end plan) (l, props) (beliefs L E K s i) v x = None" if "TIMESTAMP_MAX \<le> x" for v x
      using that known_end [OF live_known [OF live] _ that] time(1,2) by (auto simp: overwrite_def)
  qed (simp add: beliefs_def s'(6) overwrite_def)
  show ?thesis
  proof (rule simulatesI [OF keep(1) keep(2) [OF _ new]])
    show "spec_write c (live, beliefs L E K s) (live, (beliefs L E K s)
        (i := overwrite c vf (plan_end plan) (l, props) (beliefs L E K s i)))"
      using i(1) s'(4) by (rule spec_update) (unfold beliefs_def, rule s'(5))
  qed auto
qed

lemma delete_sim:
  assumes inv: "run_inv L E K now c (live, W, s)" and time: "now < c" "c < TIMESTAMP_MAX" "valid_timestamp c"
    and i: "i \<in> live" "i \<notin> W" and pre: "version_at s vid = None" "room_for L s i" "valid_timestamp vf"
    and run: "apply_delete L E K i vf c vid l props prov s = Some (Inr (), s')"
  shows "simulates L E K now c (live, s) (live - {i}, insert i W, s')"
proof -
  obtain b where live: "live_entity L E K s i b now"
    using run_inv_live [OF inv i] by blast
  have s': "known_entity L E K s' i c" "frame L E K i s s'" "store_ok s'"
    "\<And>v x. x < TIMESTAMP_MAX \<Longrightarrow> content_at_time L E K i v x s' =
      (if c \<le> x then None else content_at_time L E K i v x s)"
    using result_unique(1) [OF delete_correct [OF live time pre(3,1,2)] run] by blast+
  note keep = write_keeps [OF inv s'(2,3) known_status [OF s'(1)], of "live - {i}"]
  have new: "beliefs L E K s' i = withdraw_from c (beliefs L E K s i)"
  proof (rule beliefs_eqI [OF _ s'(1) time(2)])
    show "withdraw_from c (beliefs L E K s i) v x = None" if "TIMESTAMP_MAX \<le> x" for v x
      using that known_end [OF live_known [OF live] _ that] time(1,2) by (auto simp: withdraw_from_def)
  qed (simp add: beliefs_def s'(4) withdraw_from_def)
  show ?thesis
    using spec_delete [OF i(1)] by (rule simulatesI [OF keep(1) keep(2) [OF _ _ new], rotated -1]) auto
qed

lemma retract_sim:
  assumes inv: "run_inv L E K now c (live, W, s)" and time: "now < c" "c < TIMESTAMP_MAX" "valid_timestamp c"
    and i: "i \<in> live" "i \<notin> W" and pre: "version_at s vid = None" "room_for L s i" "valid_timestamp vt"
    and head: "head_state L E s i = Some (hs, l, props)" "hs \<le> vt"
    and run: "apply_retract L E K i vt c vid l props prov s = Some (Inr (), s')"
  shows "simulates L E K now c (live, s) (live - {i}, insert i W, s')"
proof -
  obtain b where live: "live_entity L E K s i b now"
    using run_inv_live [OF inv i] by blast
  have s': "known_entity L E K s' i c" "frame L E K i s s'" "store_ok s'"
    "\<And>v x. x < TIMESTAMP_MAX \<Longrightarrow> content_at_time L E K i v x s' =
      (if c \<le> x \<and> vt \<le> v then None else content_at_time L E K i v x s)"
    using result_unique(1) [OF retract_correct [OF live time pre(3) head pre(1,2)] run] by blast+
  note keep = write_keeps [OF inv s'(2,3) known_status [OF s'(1)], of "live - {i}"]
  have new: "beliefs L E K s' i = retract_from c vt (beliefs L E K s i)"
  proof (rule beliefs_eqI [OF _ s'(1) time(2)])
    show "retract_from c vt (beliefs L E K s i) v x = None" if "TIMESTAMP_MAX \<le> x" for v x
      using that known_end [OF live_known [OF live] _ that] time(1,2) by (auto simp: retract_from_def)
  qed (simp add: beliefs_def s'(4) retract_from_def)
  show ?thesis
    using spec_retract [OF i(1)] by (rule simulatesI [OF keep(1) keep(2) [OF _ _ new], rotated -1]) auto
qed

lemma read_sim:
  assumes inv: "run_inv L E K now c (live, W, s)"
  shows "simulates L E K now c (live, s) (live, W, snd (reconstruct L E vid s))"
proof -
  let ?s = "snd (reconstruct L E vid s)"
  have ok: "store_ok s" "store_ok ?s"
    using inv store_ok_read by (auto simp: run_inv_def)
  have rep: "represents L E K ?s j es" if "represents L E K s j es" for j es
    using represents_read [OF that] .
  have st: "status L E K n live ?s j" "beliefs L E K ?s j = beliefs L E K s j" if "status L E K n live s j" for n j
  proof -
    have "vacant K ?s j = vacant K s j"
      by (simp add: vacant_def owned_def slices_of_def)
    then show "status L E K n live ?s j" "beliefs L E K ?s j = beliefs L E K s j"
      using that ok rep vacant_belief [of K s j L E] vacant_belief [of K ?s j L E]
        content_belief [of L E K s j] content_belief [of L E K ?s j]
      unfolding status_def known_entity_def live_entity_def beliefs_def store_ok_def by metis+
  qed
  have each: "status L E K (if j \<in> W then c else now) live s j" for j
    using inv unfolding run_inv_def by blast
  have "beliefs L E K ?s = beliefs L E K s"
    using st(2) [OF each] by (rule ext)
  moreover have "run_inv L E K now c (live, W, ?s)"
    using st(1) [OF each] ok(2) unfolding run_inv_def by blast
  ultimately show ?thesis
    unfolding simulates_def by simp
qed

end

section \<open>Simulation\<close>

text \<open>A store whose writes use kinds that agree on the owner of a version.\<close>

lemma kind_cong:
  assumes "entity_of K = entity_of K'"
  shows "represents L E K = represents L E K'" "vacant K = vacant K'" "beliefs L E K = beliefs L E K'"
  using assms by (auto simp: represents_def vacant_def owned_def fun_eq_iff beliefs_def content_at_time_def get_at_time_def
      split: option.split sum.split)

lemma simulates_cong:
  assumes "entity_of K = entity_of K'"
  shows "simulates L E K = simulates L E K'" "run_inv L E K = run_inv L E K'"
proof -
  have "status L E K = status L E K'"
    unfolding status_def known_entity_def live_entity_def kind_cong [OF assms] by simp
  then have "run_inv L E K = run_inv L E K'"
    unfolding run_inv_def by simp
  then show "simulates L E K = simulates L E K'" "run_inv L E K = run_inv L E K'"
    unfolding simulates_def kind_cong(3) [OF assms] by simp_all
qed

locale versioned_kinds = versioned K for K :: "('i, 'a) entity_kind" +
  fixes KS :: "('i, 'a) entity_kind set"
  assumes kinds: "K' \<in> KS \<Longrightarrow> versioned K'" "K' \<in> KS \<Longrightarrow> entity_of K' = entity_of K"
begin

text \<open>Every step of a commit is simulated by steps of the record.\<close>

lemma write_step_sim:
  assumes step: "write_step L E KS c (live, W, s) (live', W', s')" and inv: "run_inv L E K now c (live, W, s)"
    and time: "now < c" "c < TIMESTAMP_MAX" "valid_timestamp c"
  shows "simulates L E K now c (live, s) (live', W', s')"
proof -
  have K': "run_inv L E K' now c (live, W, s)" "simulates L E K' = simulates L E K" "versioned K'" if "K' \<in> KS" for K'
    using inv kinds [OF that] simulates_cong [of K' K L E] by simp_all
  show ?thesis
    using step
  proof cases
    case (create_step K')
    show ?thesis
      using versioned.create_sim [OF K'(3) K'(1) time(2,3)] create_step K'(2) by metis
  next
    case (update_step K')
    show ?thesis
      using versioned.update_sim [OF K'(3) K'(1) time] update_step K'(2) by metis
  next
    case (delete_step K')
    show ?thesis
      using versioned.delete_sim [OF K'(3) K'(1) time] delete_step K'(2) by metis
  next
    case (retract_step K')
    show ?thesis
      using versioned.retract_sim [OF K'(3) K'(1) time] retract_step K'(2) by metis
  next
    case read_step
    then show ?thesis
      using read_sim [OF inv] by blast
  qed
qed

lemma write_steps_sim:
  assumes "(write_step L E KS c)\<^sup>*\<^sup>* (live, W, s) (live', W', s')" "run_inv L E K now c (live, W, s)"
    "now < c" "c < TIMESTAMP_MAX" "valid_timestamp c"
  shows "simulates L E K now c (live, s) (live', W', s')"
  using assms(1)
proof (induction "(live', W', s')" arbitrary: live' W' s' rule: rtranclp_induct)
  case base
  then show ?case
    using assms(2) by (simp add: simulates_def)
next
  case (step y)
  obtain l w u where y: "y = (l, w, u)"
    by (cases y)
  have "simulates L E K now c (live, s) (l, w, u)"
    using step.hyps(3) y .
  moreover have "simulates L E K now c (l, u) (live', W', s')"
    using write_step_sim [OF step.hyps(2) [unfolded y] _ assms(3-5)] calculation by (simp add: simulates_def)
  ultimately show ?case
    unfolding simulates_def by auto
qed

end

text \<open>Between commits.\<close>

definition run_state ::
  "storage_limits \<Rightarrow> environment \<Rightarrow> ('i, 'a) entity_kind \<Rightarrow> Timestamp \<times> 'i set \<times> ('i, 'a) version_store \<Rightarrow> bool" where
  "run_state L E K = (\<lambda>(now, live, s). store_ok s \<and> (\<forall>i. status L E K now live s i))"

definition recorded ::
  "storage_limits \<Rightarrow> environment \<Rightarrow> ('i, 'a) entity_kind \<Rightarrow> Timestamp \<times> 'i set \<times> ('i, 'a) version_store \<Rightarrow>
    Timestamp \<times> 'i set \<times> ('i \<Rightarrow> belief)" where
  "recorded L E K = (\<lambda>(now, live, s). (now, live, beliefs L E K s))"

lemma run_state_start: "run_state L E K (now, {}, empty_store)"
  by (simp add: run_state_def status_def vacant_def owned_def slices_of_def empty_store_def store_ok_def prev_closed_def)

context versioned_kinds
begin

lemma commit_step_sim:
  assumes "commit_step L E KS d d'" "run_state L E K d"
  shows "run_state L E K d' \<and> spec_commit (recorded L E K d) (recorded L E K d')"
  using assms(1)
proof cases
  case (1 now c live s live' W s')
  have inv: "run_inv L E K now c (live, {}, s)"
    using assms(2) unfolding 1(1) by (auto simp: run_state_def run_inv_def)
  then have sim: "run_inv L E K now c (live', W, s')"
    "(spec_write c)\<^sup>*\<^sup>* (live, beliefs L E K s) (live', beliefs L E K s')"
    using write_steps_sim [OF 1(6) inv 1(3-5)] by (simp_all add: simulates_def)
  have "status L E K c live' s' i" for i
  proof -
    have "status L E K (if i \<in> W then c else now) live' s' i"
      using sim(1) unfolding run_inv_def by blast
    then show ?thesis
      by (rule status_mono) (use 1(3) in auto)
  qed
  then show ?thesis
    using sim 1 by (auto simp: run_state_def run_inv_def recorded_def intro: spec_commit.intros)
qed

lemma commits_sim:
  assumes "(commit_step L E KS)\<^sup>*\<^sup>* d d'" "run_state L E K d"
  shows "run_state L E K d' \<and> spec_commit\<^sup>*\<^sup>* (recorded L E K d) (recorded L E K d')"
  using assms(1)
proof (induction rule: rtranclp_induct)
  case (step d1 d2)
  then show ?case
    using commit_step_sim [OF step.hyps(2)] by (meson rtranclp.rtrancl_into_rtrancl)
qed (simp add: assms(2))

end

definition edge_kinds :: "(EdgeId, unit EdgeVersion_ext) entity_kind set" where
  "edge_kinds = {edge_kind src tgt |src tgt. True}"

lemma edge_kinds_versioned: "K \<in> edge_kinds \<Longrightarrow> versioned K \<and> entity_of K = entity_of (edge_kind src tgt)"
  using edge_versions.versioned_axioms by (auto simp: edge_kinds_def edge_kind_def)

interpretation node_commits: versioned_kinds node_kind "{node_kind}"
  by (intro versioned_kinds.intro versioned_kinds_axioms.intro) (simp_all add: node_versions.versioned_axioms)

interpretation edge_commits: versioned_kinds "edge_kind src tgt" edge_kinds
  by (intro versioned_kinds.intro versioned_kinds_axioms.intro)
    (simp_all only: edge_versions.versioned_axioms edge_kinds_versioned)

end
