(* ===== verification/HistoryLists.thy ===== *)
theory HistoryLists
  imports HistoryRuns
begin

text \<open>
  The listings of historical storage: the history of an entity, one item per write, and the current
  belief over valid time. The chain walk returns, the history lists the logical versions of the
  entity oldest first, and the slices of a live entity tile valid time.
\<close>

section \<open>The chain walk returns\<close>

lemma chain_ids_linked: "linked s us \<Longrightarrow> chain_ids s (hd us) = Some us"
proof (induction s us rule: linked.induct)
  case (2 s u)
  then show ?case
    by (subst chain_ids.simps) auto
next
  case (3 s u w us)
  then have "chain_ids s w = Some (w # us)" "Option.bind (version_at s u) prev_version = Some w"
    by auto
  then show ?case
    by (subst chain_ids.simps) simp
qed simp

section \<open>Listing versions\<close>

text \<open>What a listing says of an entry.\<close>

definition lists_entry :: "entry \<Rightarrow> VersionInfo \<Rightarrow> bool" where
  "lists_entry e info \<longleftrightarrow> vi_version_id info = entry_id e \<and> vi_temporal info = entry_time e \<and>
     (vi_label info, vi_properties info) = entry_content e"

lemma version_infos_list:
  assumes "\<And>e. e \<in> set es \<Longrightarrow> shows_entry L E s e"
  shows "\<exists>infos s'. version_infos L E n (map entry_id es) s = (Inr infos, s') \<and>
    list_all2 lists_entry es infos \<and> map vi_number infos = map word_of_nat [n + 1..<n + 1 + length es]"
  using assms
proof (induction es arbitrary: n s)
  case Nil
  then show ?case by simp
next
  case (Cons e es)
  obtain v where v: "version_at s (entry_id e) = Some v" "temporal v = entry_time e" "label v = fst (entry_content e)"
    "read L E s (entry_id e) = Inr (snd (entry_content e))"
    using Cons.prems [of e] unfolding shows_entry_def by auto
  obtain s1 where s1: "reconstruct L E (entry_id e) s = (Inr (snd (entry_content e)), s1)"
    using v(4) by (metis prod.collapse)
  then have "read L E s1 u = read L E s u" "versions s1 = versions s" for u
    using read_after_read [of L E u "entry_id e" s] reconstruct_versions(1) [of L E "entry_id e" s] by simp_all
  then have "shows_entry L E s1 e'" if "e' \<in> set es" for e'
    using Cons.prems [of e'] that by (simp add: shows_entry_def)
  then obtain infos s' where rest: "version_infos L E (n + 1) (map entry_id es) s1 = (Inr infos, s')"
    "list_all2 lists_entry es infos" "map vi_number infos = map word_of_nat [n + 1 + 1..<n + 1 + 1 + length es]"
    using Cons.IH [of s1 "n + 1"] by blast
  let ?info = "\<lparr>vi_number = word_of_nat (n + 1), vi_version_id = entry_id e, vi_temporal = temporal v,
    vi_properties = snd (entry_content e), vi_label = label v, vi_provenance = provenance v\<rparr>"
  have "version_infos L E n (map entry_id (e # es)) s = (Inr (?info # infos), s')"
    using v(1) s1 rest(1) by simp
  moreover have "list_all2 lists_entry (e # es) (?info # infos)"
    using rest(2) v(2,3) by (simp add: lists_entry_def [of e])
  moreover have "map vi_number (?info # infos) = map word_of_nat [n + 1..<n + 1 + length (e # es)]"
  proof -
    have "[n + 1..<n + 1 + length (e # es)] = (n + 1) # [n + 1 + 1..<n + 1 + 1 + length es]"
      using upt_conv_Cons [of "n + 1" "n + 1 + length (e # es)"] by (simp del: upt_Suc)
    then show ?thesis
      using rest(3) by (simp only: list.map VersionInfo.select_convs)
  qed
  ultimately show ?case
    by blast
qed

lemma lists_ids: "list_all2 lists_entry es infos \<Longrightarrow> map vi_version_id infos = map entry_id es"
  by (induction rule: list_all2_induct) (auto simp: lists_entry_def)

lemma lists_times: "list_all2 lists_entry es infos \<Longrightarrow> map vi_temporal infos = map entry_time es"
  by (induction rule: list_all2_induct) (auto simp: lists_entry_def)

lemma chronological_sorted:
  assumes "chronological es"
  shows "sorted (map (\<lambda>e. tr_start (transaction_time (entry_time e))) (filter P (rev es)))"
proof -
  have "sorted_wrt (\<lambda>e e'. tr_start (transaction_time (entry_time e)) \<le> tr_start (transaction_time (entry_time e'))) (rev es)"
    using assms unfolding chronological_def sorted_wrt_rev .
  then show ?thesis
    unfolding sorted_map by (rule sorted_wrt_filter)
qed

text \<open>The history of an entity lists its logical versions, oldest first.\<close>

lemma history_lists:
  assumes r: "represents L E K s i es"
  shows "\<exists>infos s'. get_history L E K i s = Some (Inr infos, s') \<and>
    list_all2 lists_entry (filter (\<lambda>e. \<not> is_structural (entry_id e)) (rev es)) infos \<and>
    map vi_number infos = map word_of_nat [1..<length infos + 1]"
proof -
  note r' = representsD [OF r]
  let ?es = "filter (\<lambda>e. \<not> is_structural (entry_id e)) (rev es)"
  have "chain_ids s (entry_id (hd es)) = Some (map entry_id es)"
    using chain_ids_linked [OF r'(3)] r'(1) by (simp add: hd_map)
  then have ids: "history_ids K i s = Some (Inr (map entry_id ?es))"
    using r'(2) by (simp add: history_ids_def rev_map filter_map comp_def)
  obtain infos s' where "version_infos L E 0 (map entry_id ?es) s = (Inr infos, s')"
    "list_all2 lists_entry ?es infos" "map vi_number infos = map word_of_nat [0 + 1..<0 + 1 + length ?es]"
    using version_infos_list [of ?es L E s 0] r'(7) by auto
  then show ?thesis
    using ids list_all2_lengthD [of lists_entry ?es infos] by (simp add: get_history_def)
qed

section \<open>Slices tile valid time\<close>

fun tiles :: "Timestamp \<Rightarrow> TimeRange list \<Rightarrow> bool" where
  "tiles b [] \<longleftrightarrow> b = TIMESTAMP_MAX"
| "tiles b (t # ts) \<longleftrightarrow> tr_start t = b \<and> b < tr_end t \<and> tiles (tr_end t) ts"

lemma tilesI:
  assumes "sorted (map tr_start ts)" "\<And>t. t \<in> set ts \<Longrightarrow> b \<le> tr_start t \<and> tr_start t < tr_end t \<and> tr_end t \<le> TIMESTAMP_MAX"
    "sorted_wrt (\<lambda>t u. \<forall>v. \<not> (contains t v \<and> contains u v)) ts"
    "\<And>v. b \<le> v \<Longrightarrow> v < TIMESTAMP_MAX \<Longrightarrow> \<exists>t \<in> set ts. contains t v" "b \<le> TIMESTAMP_MAX"
  shows "tiles b ts"
  using assms
proof (induction ts arbitrary: b)
  case Nil
  then show ?case
    using Nil.prems(4) [of b] by (auto simp: order.order_iff_strict)
next
  case (Cons t ts)
  have t: "b \<le> tr_start t" "tr_start t < tr_end t" "tr_end t \<le> TIMESTAMP_MAX"
    using Cons.prems(2) [of t] by auto
  have "b < TIMESTAMP_MAX"
    using t by (meson le_less_trans less_le_trans)
  then obtain u where u: "u \<in> set (t # ts)" "contains u b"
    using Cons.prems(4) [of b] by blast
  then have "tr_start t \<le> b"
    using Cons.prems(1) by (auto simp: contains_def intro: order_trans)
  then have b: "tr_start t = b"
    using t(1) by simp
  have later: "tr_end t \<le> tr_start u" if "u \<in> set ts" for u
  proof (rule ccontr)
    assume less: "\<not> tr_end t \<le> tr_start u"
    have "tr_start u < tr_end u" "tr_start t \<le> tr_start u"
      using that Cons.prems(2) [of u] b by auto
    then have "contains t (tr_start u)" "contains u (tr_start u)"
      using less by (auto simp: contains_def)
    then show False
      using Cons.prems(3) that by auto
  qed
  have "tiles (tr_end t) ts"
  proof (rule Cons.IH)
    show "\<exists>u \<in> set ts. contains u v" if "tr_end t \<le> v" "v < TIMESTAMP_MAX" for v
    proof -
      have "b \<le> v"
        using that(1) t(1,2) b by simp
      then show ?thesis
        using Cons.prems(4) [of v] that by (auto simp: contains_def)
    qed
  qed (use Cons.prems later t in auto)
  then show ?case
    using b t(2) by simp
qed

text \<open>The slices a live entity lists, sorted by start.\<close>

lemma set_entry_slices:
  assumes r: "represents L E K s i es" and open_head: "is_open_slice (entry_time (hd es))"
  shows "set (filter (\<lambda>(_, t). is_open_slice t) (List.map_filter (slice_at s) (slices_of s i @ head_list s i))) =
    (\<lambda>e. (entry_id e, entry_time e)) ` {e \<in> set es. is_open_slice (entry_time e)}"
proof -
  note r' = representsD [OF r]
  have set_es: "set es = insert (hd es) (set (tl es))"
    using r'(1) by (cases es) auto
  have ids: "set (slices_of s i @ head_list s i) = entry_id ` {e \<in> set es. is_open_slice (entry_time e)}"
    using r'(2,6) open_head set_es by (auto simp: head_list_def open_ids_def)
  have at: "slice_at s (entry_id e) = Some (entry_id e, entry_time e)" if "e \<in> set es" for e
    using r'(7) [OF that] unfolding shows_entry_def slice_at_def by auto
  show ?thesis
    unfolding set_filter set_map_filter ids using at by (auto simp: image_iff) metis+
qed

lemma map_preimage: "set xs \<subseteq> f ` S \<Longrightarrow> \<exists>ws. map f ws = xs \<and> set ws \<subseteq> S"
proof (induction xs)
  case (Cons x xs)
  then obtain ws e where "map f ws = xs" "set ws \<subseteq> S" "e \<in> S" "f e = x"
    by auto
  then show ?case
    by (intro exI [of _ "e # ws"]) simp
qed simp

lemma slice_ids: "map fst (List.map_filter (slice_at s) us) = filter (\<lambda>u. version_at s u \<noteq> None) us"
  by (induction us) (auto simp: map_filter_simps slice_at_def split: option.split)

lemma distinct_slice_ids:
  assumes r: "represents L E K s i es"
  shows "distinct (map fst (filter P (List.map_filter (slice_at s) (slices_of s i @ head_list s i))))"
proof -
  note r' = representsD [OF r]
  have "entry_id (hd es) \<notin> open_ids (tl es)"
    using r'(1,4) by (cases es) (auto simp: open_ids_def)
  then have "distinct (slices_of s i @ head_list s i)"
    using r'(2,6,8) by (simp add: head_list_def)
  then show ?thesis
    by (intro distinct_map_filter) (simp add: slice_ids del: distinct_append filter_append)
qed

lemma disjoint_list:
  assumes "distinct (map entry_id ws)" "\<And>e e' v. e \<in> set ws \<Longrightarrow> e' \<in> set ws \<Longrightarrow> contains (valid_time (entry_time e)) v \<Longrightarrow>
      contains (valid_time (entry_time e')) v \<Longrightarrow> entry_id e = entry_id e'"
  shows "sorted_wrt (\<lambda>t u. \<forall>v. \<not> (contains t v \<and> contains u v)) (map (\<lambda>e. valid_time (entry_time e)) ws)"
  using assms
proof (induction ws)
  case (Cons e ws)
  have "\<not> (contains (valid_time (entry_time e)) v \<and> contains (valid_time (entry_time e')) v)" if "e' \<in> set ws" for e' v
    using Cons.prems(1) Cons.prems(2) [of e e' v] that by (metis distinct.simps(2) image_eqI list.set_intros list.set_map list.simps(9))
  moreover have "sorted_wrt (\<lambda>t u. \<forall>v. \<not> (contains t v \<and> contains u v)) (map (\<lambda>e. valid_time (entry_time e)) ws)"
    using Cons.prems by (intro Cons.IH) (auto simp del: split_paired_all)
  ultimately show ?case
    unfolding list.map sorted_wrt.simps set_map by blast
qed simp

lemma visible_now:
  assumes "recorded_by now es" "e \<in> set es" "now < TIMESTAMP_MAX" "is_currently_recorded (entry_time e)"
    "contains (valid_time (entry_time e)) v"
  shows "is_visible_at (entry_time e) v now"
  using assms unfolding recorded_by_def is_visible_at_def is_currently_recorded_def tr_is_current_def contains_def by auto

text \<open>The current belief of a live entity partitions valid time from the start of its coverage.\<close>

lemma slices_tile:
  assumes live: "live_entity L E K s i b now" and now: "now < TIMESTAMP_MAX"
  shows "\<exists>infos s'. get_valid_time_slices L E i s = (Inr infos, s') \<and>
    tiles b (map (\<lambda>info. valid_time (vi_temporal info)) infos) \<and>
    (\<forall>info \<in> set infos. \<forall>v x. contains (valid_time (vi_temporal info)) v \<longrightarrow> now < x \<longrightarrow> x < TIMESTAMP_MAX \<longrightarrow>
       content_at_time L E K i v x s = Some (vi_label info, vi_properties info))"
proof -
  obtain es where es: "represents L E K s i es" "live_history b now es" "hm_wf (versions s)"
    using live by (auto simp: live_entity_def store_ok_def)
  have l: "distinct (map entry_id es)" "disjoint_entries es" "recorded_by now es"
    using es(2) by (simp_all add: live_history_def)
  note h = head_facts [OF es(2)]
  define slices where "slices = filter (\<lambda>(_, t). is_open_slice t) (List.map_filter (slice_at s) (slices_of s i @ head_list s i))"
  define ord where "ord = sort_key (\<lambda>(_, t). tr_start (valid_time t)) slices"
  have set_ord: "set ord = (\<lambda>e. (entry_id e, entry_time e)) ` {e \<in> set es. is_open_slice (entry_time e)}"
    using set_entry_slices [OF es(1) h(2)] by (simp add: ord_def slices_def)
  obtain ws where ws: "map (\<lambda>e. (entry_id e, entry_time e)) ws = ord" "set ws \<subseteq> {e \<in> set es. is_open_slice (entry_time e)}"
    using map_preimage [OF eq_refl [OF set_ord]] by blast
  have ids: "map fst ord = map entry_id ws" and times: "map (\<lambda>(_, t). valid_time t) ord = map (\<lambda>e. valid_time (entry_time e)) ws"
    unfolding ws(1) [symmetric] by (simp_all add: comp_def)
  have dist: "distinct (map entry_id ws)"
    unfolding ids [symmetric] ord_def slices_def
    using distinct_slice_ids [OF es(1)] unfolding distinct_map distinct_sort set_sort .
  have all: "set ws = {e \<in> set es. is_open_slice (entry_time e)}"
  proof
    show "{e \<in> set es. is_open_slice (entry_time e)} \<subseteq> set ws"
    proof
      fix e
      assume e: "e \<in> {e \<in> set es. is_open_slice (entry_time e)}"
      then have "(entry_id e, entry_time e) \<in> set ord"
        using set_ord by blast
      then obtain e' where "e' \<in> set ws" "entry_id e' = entry_id e"
        unfolding ws(1) [symmetric] set_map by (elim imageE) (metis prod.inject)
      moreover from this have "e' = e"
        using e ws(2) l(1) unfolding distinct_map inj_on_def by blast
      ultimately show "e \<in> set ws"
        by blast
    qed
  qed (rule ws(2))
  obtain infos s' where infos: "version_infos L E 0 (map entry_id ws) s = (Inr infos, s')" "list_all2 lists_entry ws infos"
    using version_infos_list [of ws L E s 0] ws(2) representsD(7) [OF es(1)] by blast
  have "tiles b (map (\<lambda>e. valid_time (entry_time e)) ws)"
  proof (rule tilesI)
    have "sorted (map (\<lambda>(_, t). tr_start (valid_time t)) ord)"
      unfolding ord_def by (rule sorted_sort_key)
    moreover have "map (\<lambda>(_, t). tr_start (valid_time t)) ord = map tr_start (map (\<lambda>e. valid_time (entry_time e)) ws)"
      unfolding ws(1) [symmetric] by (simp add: comp_def)
    ultimately show "sorted (map tr_start (map (\<lambda>e. valid_time (entry_time e)) ws))"
      by simp
    show "sorted_wrt (\<lambda>t u. \<forall>v. \<not> (contains t v \<and> contains u v)) (map (\<lambda>e. valid_time (entry_time e)) ws)"
      using dist
    proof (rule disjoint_list)
      fix e e' v
      assume e: "e \<in> set ws" "e' \<in> set ws" "contains (valid_time (entry_time e)) v" "contains (valid_time (entry_time e')) v"
      then have "e \<in> set es" "e' \<in> set es" "is_currently_recorded (entry_time e)" "is_currently_recorded (entry_time e')"
        using ws(2) unfolding is_open_slice_def by blast+
      then show "entry_id e = entry_id e'"
        using disjointD [OF l(2), of e e' v now] visible_now [OF l(3) _ now] e(3,4) by blast
    qed
    show "b \<le> tr_start t \<and> tr_start t < tr_end t \<and> tr_end t \<le> TIMESTAMP_MAX"
      if "t \<in> set (map (\<lambda>e. valid_time (entry_time e)) ws)" for t
      using that ws(2) open_start [OF es(2)] slice_facts(2) [OF es(2)] valid_timestamp_le_max unfolding is_open_slice_def by fastforce
    show "\<exists>t \<in> set (map (\<lambda>e. valid_time (entry_time e)) ws). contains t v" if "b \<le> v" "v < TIMESTAMP_MAX" for v
    proof -
      have "\<exists>e \<in> set ws. contains (valid_time (entry_time e)) v"
        using es(2) that unfolding all live_history_def covers_from_def by blast
      then show ?thesis
        unfolding set_map by blast
    qed
    show "b \<le> TIMESTAMP_MAX"
      using open_start [OF es(2) h(1,2)] h(6) by simp
  qed
  moreover have "get_valid_time_slices L E i s = (Inr infos, s')"
    using infos(1) ids by (simp add: get_valid_time_slices_def Let_def ord_def slices_def)
  moreover have "map (\<lambda>info. valid_time (vi_temporal info)) infos = map (\<lambda>e. valid_time (entry_time e)) ws"
    using arg_cong [OF lists_times [OF infos(2)], of "map valid_time"] by (simp add: comp_def)
  moreover have "content_at_time L E K i v x s = Some (vi_label info, vi_properties info)"
    if info: "info \<in> set infos" and v: "contains (valid_time (vi_temporal info)) v" and x: "now < x" "x < TIMESTAMP_MAX" for info v x
  proof -
    obtain e where e: "e \<in> set ws" "lists_entry e info"
      using info infos(2) by (metis in_set_conv_nth list_all2_conv_all_nth)
    have "e \<in> set es" "is_currently_recorded (entry_time e)"
      using e(1) ws(2) unfolding is_open_slice_def by blast+
    moreover from this have "is_visible_at (entry_time e) v x"
      using visible_after [OF l(3) _ x, of e v] v e(2) by (simp add: lists_entry_def)
    ultimately show ?thesis
      using belief_visible [OF l(1,2)] e(2) by (simp add: content_belief [OF es(1,3)] lists_entry_def)
  qed
  ultimately show ?thesis
    by auto
qed

end
