(* ===== verification/HistoryContract.thy ===== *)
theory HistoryContract
  imports HistoryLists
begin

text \<open>
  The contract of historical storage, over every state its commits can reach. The facts proved for
  any kind of entity are instantiated with nodes and edges; a small store serves as an example.
\<close>

section \<open>Reachable states\<close>

abbreviation node_run :: "storage_limits \<Rightarrow> environment \<Rightarrow> Timestamp \<Rightarrow> Timestamp \<times> NodeId set \<times> (NodeId, unit NodeVersion_ext) version_store \<Rightarrow> bool" where
  "node_run L E t0 d \<equiv> (commit_step L E {node_kind})\<^sup>*\<^sup>* (t0, {}, empty_store) d"

lemma node_run_state: "node_run L E t0 d \<Longrightarrow> run_state L E node_kind d"
  using node_commits.commits_sim run_state_start by blast

lemma edge_run_state: "(commit_step L E edge_kinds)\<^sup>*\<^sup>* (t0, {}, empty_store) d \<Longrightarrow> run_state L E (edge_kind src tgt) d"
  using edge_commits.commits_sim run_state_start by blast


lemma run_live: "run_state L E K (now, live, s) \<Longrightarrow> i \<in> live \<Longrightarrow> \<exists>b. live_entity L E K s i b now"
  by (auto simp: run_state_def intro: status_live)

lemma run_known:
  "run_state L E K (now, live, s) \<Longrightarrow> hm_get (version_heads s) i \<noteq> None \<Longrightarrow> known_entity L E K s i now"
  unfolding run_state_def status_def vacant_def by (auto dest!: spec [of _ i])

lemma others_unchanged:
  assumes "run_state L E K (now, live, s)" "frame L E K i s s'" "store_ok s'"
  shows "\<forall>j v x. j \<noteq> i \<longrightarrow> content_at_time L E K j v x s' = content_at_time L E K j v x s"
proof (intro allI impI)
  fix j v x
  assume "j \<noteq> i"
  moreover have "status L E K now live s j" "store_ok s"
    using assms(1) by (simp_all add: run_state_def)
  ultimately have "beliefs L E K s' j = beliefs L E K s j"
    using frame_status(2) [OF assms(2)] assms(3) by blast
  then show "content_at_time L E K j v x s' = content_at_time L E K j v x s"
    unfolding beliefs_def by meson
qed

section \<open>Example\<close>

definition demo_time :: "nat \<Rightarrow> Timestamp" where
  "demo_time n = HybridTimestamp (word_of_nat n) 0"

definition demo_limits :: "nat \<Rightarrow> storage_limits" where
  "demo_limits n = \<lparr>config = \<lparr>anchor_interval = 10, max_delta_chain = 10\<rparr>,
     retention_policy = \<lparr>max_versions_per_entity = n, max_age_ms = 0\<rparr>, max_reconstruction_depth = 1000\<rparr>"

definition demo_env :: environment where
  "demo_env = \<lparr>interner = with_max_capacity 4, same_value = \<lambda>_ _. False, same_map = \<lambda>_ _. False,
     anchor_hooks = \<lambda>_ _. None\<rparr>"

definition demo_create :: "nat \<Rightarrow> (NodeId, unit NodeVersion_ext, unit) outcome option" where
  "demo_create n = add_version (demo_limits n) demo_env node_kind (NodeId 1) (VersionId 1) (demo_time 5) (demo_time 10)
     (InternedString 0) PropertyMap_new False None empty_store"

definition demo_store :: "nat \<Rightarrow> (NodeId, unit NodeVersion_ext) version_store" where
  "demo_store n = snd (the (demo_create n))"

lemma demo_times [simp]:
  "valid_timestamp (demo_time 5)" "valid_timestamp (demo_time 7)" "valid_timestamp (demo_time 10)" "valid_timestamp (demo_time 20)"
  "demo_time 5 < TIMESTAMP_MAX" "demo_time 7 < TIMESTAMP_MAX" "demo_time 10 < TIMESTAMP_MAX" "demo_time 20 < TIMESTAMP_MAX"
  "demo_time 0 < demo_time 10" "demo_time 10 < demo_time 20" "demo_time 5 < demo_time 7" "demo_time 5 \<le> demo_time 7"
  by (simp_all add: demo_time_def valid_timestamp_def less_HybridTimestamp_def less_eq_HybridTimestamp_def
      TIMESTAMP_MAX_def MAX_VALID_TIMESTAMP_def)

lemmas demo_create_defs = add_version_with_interval_def demo_limits_def demo_env_def room_for_def empty_store_def store_version_def
  link_previous_def Let_def cache_anchor_def cache_properties_def put_version_def set_since_anchor_def with_provenance_def
  node_kind_def NodeVersion_new_anchor_def VersionData_anchor_def version_is_anchor_def logical_version_count_def
  count_of_def bump_def is_structural_def STRUCTURAL_VERSION_TAG_def

lemma demo_run:
  assumes "0 < n"
  shows "demo_create n = Some (Inr (), demo_store n)" "live_entity (demo_limits n) demo_env node_kind (demo_store n) (NodeId 1) (demo_time 5) (demo_time 10)"
    "version_at (demo_store n) u = None \<longleftrightarrow> u \<noteq> VersionId 1" "logical_version_count (demo_store n) (NodeId 1) = 1"
proof -
  have start: "vacant node_kind empty_store (NodeId 1)" "store_ok empty_store" "version_at empty_store (VersionId 1) = None"
    "room_for (demo_limits n) empty_store (NodeId 1)"
    using assms by (simp_all add: vacant_def owned_def slices_of_def empty_store_def store_ok_def prev_closed_def room_for_def
        logical_version_count_def count_of_def demo_limits_def)
  obtain s where s: "demo_create n = Some (Inr (), s)"
    "live_entity (demo_limits n) demo_env node_kind s (NodeId 1) (demo_time 5) (demo_time 10)"
    using node_versions.create_correct [OF start demo_times(1,5,3), of demo_env "InternedString 0" PropertyMap_new None]
    unfolding demo_create_def by blast
  then show "demo_create n = Some (Inr (), demo_store n)"
    "live_entity (demo_limits n) demo_env node_kind (demo_store n) (NodeId 1) (demo_time 5) (demo_time 10)"
    by (simp_all add: demo_store_def)
  have "demo_store n = snd (add_version_with_interval (demo_limits n) demo_env node_kind (NodeId 1) (VersionId 1)
      (rect (demo_time 5) TIMESTAMP_MAX (demo_time 10)) (InternedString 0) PropertyMap_new None empty_store)"
    using bt_rect [OF demo_times(1,3)] by (simp add: demo_store_def demo_create_def add_version_def)
  then show "version_at (demo_store n) u = None \<longleftrightarrow> u \<noteq> VersionId 1" "logical_version_count (demo_store n) (NodeId 1) = 1"
    using assms start(4)
    by (simp_all add: demo_create_defs)
qed

lemma demo_commit:
  assumes "0 < n"
  shows "commit_step (demo_limits n) demo_env {node_kind} (demo_time 0, {}, empty_store) (demo_time 10, {NodeId 1}, demo_store n)"
proof (rule commit_step.intros)
  have "write_step (demo_limits n) demo_env {node_kind} (demo_time 10) ({}, {}, empty_store) ({NodeId 1}, {NodeId 1}, demo_store n)"
    using demo_run(1) [OF assms] assms unfolding demo_create_def
    by (intro create_step [where K = node_kind])
      (auto simp: empty_store_def room_for_def logical_version_count_def count_of_def demo_limits_def)
  then show "(write_step (demo_limits n) demo_env {node_kind} (demo_time 10))\<^sup>*\<^sup>* ({}, {}, empty_store) ({NodeId 1}, {NodeId 1}, demo_store n)"
    by blast
qed simp_all

lemma demo_reach: "0 < n \<Longrightarrow> node_run (demo_limits n) demo_env (demo_time 0) (demo_time 10, {NodeId 1}, demo_store n)"
  using demo_commit by (intro r_into_rtranclp)


lemma demo_room [simp]: "room_for (demo_limits n) (demo_store n) (NodeId 1) \<longleftrightarrow> 1 < n" if "0 < n"
  using demo_run(4) [OF that] by (simp add: room_for_def demo_limits_def)


section \<open>The store implements the bi-temporal record\<close>







section \<open>What each write does\<close>

text \<open>
  C3: an update of a live node succeeds while the node has room for a version, whatever the valid
  time it names. Afterwards a read returns the new content exactly from the commit on and exactly on
  the valid times from \<open>valid_from\<close> to the end the plan chose; over that segment the node had one and
  the same content, or none, before; and everything else reads as before, also every other node.
\<close>

theorem update_takes_effect:
  assumes "(commit_step L E {node_kind})\<^sup>*\<^sup>* (t0, {}, empty_store) (now, live, s)" "i \<in> live"
    and "now < c" "c < TIMESTAMP_MAX" "valid_timestamp c" "valid_timestamp vf" "vf < TIMESTAMP_MAX"
    and "ids_ok s vid cid rid" "room_for L s i" "plan = plan_entity_update s i vf"
    and "carry_from plan \<noteq> None \<longrightarrow> carry_id = Some cid" "reassert plan \<noteq> None \<longrightarrow> reassert_id = Some rid"
  shows "\<exists>ap s'. apply_update L E node_kind i plan vf c vid l props prov carry_id reassert_id s = Some (Inr ap, s') \<and>
    vf < plan_end plan \<and>
    (\<forall>v x. x < TIMESTAMP_MAX \<longrightarrow> content_at_time L E node_kind i v x s' =
      (if c \<le> x \<and> vf \<le> v \<and> v < plan_end plan then Some (l, props) else content_at_time L E node_kind i v x s)) \<and>
    (\<forall>v. vf \<le> v \<longrightarrow> v < plan_end plan \<longrightarrow> content_at_time L E node_kind i v c s = content_at_time L E node_kind i vf c s) \<and>
    (\<forall>j v x. j \<noteq> i \<longrightarrow> content_at_time L E node_kind j v x s' = content_at_time L E node_kind j v x s)"
proof -
  note run = node_run_state [OF assms(1)]
  obtain b where "live_entity L E node_kind s i b now"
    using run_live [OF run assms(2)] by blast
  from node_versions.update_correct [OF this assms(3-)]
  obtain ap s' where s': "apply_update L E node_kind i plan vf c vid l props prov carry_id reassert_id s = Some (Inr ap, s')"
    "frame L E node_kind i s s'" "store_ok s'" "vf < plan_end plan"
    "\<forall>v. vf \<le> v \<longrightarrow> v < plan_end plan \<longrightarrow> content_at_time L E node_kind i v c s = content_at_time L E node_kind i vf c s"
    "\<forall>v x. x < TIMESTAMP_MAX \<longrightarrow> content_at_time L E node_kind i v x s' =
      (if c \<le> x \<and> vf \<le> v \<and> v < plan_end plan then Some (l, props) else content_at_time L E node_kind i v x s)"
    by blast
  then show ?thesis
    using others_unchanged [OF run s'(2,3)] by blast
qed

lemma demo_ids: "ids_ok (demo_store 9) (VersionId 2) (VersionId (STRUCTURAL_VERSION_TAG OR 3)) (VersionId (STRUCTURAL_VERSION_TAG OR 4))"
  using demo_run(3) [of 9] by (simp add: ids_ok_def is_structural_def STRUCTURAL_VERSION_TAG_def)

theorem update_takes_effect_witness:
  "\<exists>ap s'. apply_update (demo_limits 9) demo_env node_kind (NodeId 1) (plan_entity_update (demo_store 9) (NodeId 1) (demo_time 7))
       (demo_time 7) (demo_time 20) (VersionId 2) (InternedString 3) PropertyMap_new None
       (Some (VersionId (STRUCTURAL_VERSION_TAG OR 3))) (Some (VersionId (STRUCTURAL_VERSION_TAG OR 4))) (demo_store 9) =
       Some (Inr ap, s') \<and>
     content_at_time (demo_limits 9) demo_env node_kind (NodeId 1) (demo_time 7) (demo_time 20) s' =
       Some (InternedString 3, PropertyMap_new)"
proof -
  note reach = demo_reach [of 9, OF zero_less_numeral] and room = demo_room [of 9, OF zero_less_numeral, THEN iffD2]
  show ?thesis
    using update_takes_effect [OF reach insertI1 demo_times(10,8,4,2,6) demo_ids room refl impI [OF refl] impI [OF refl],
        of "InternedString 3" PropertyMap_new None] demo_times(8) by auto
qed

text \<open>
  C7: deleting a live node that has room for a version succeeds and withdraws the node at every
  valid time from the commit on, whatever valid time the delete names; what earlier points of
  transaction time return stays, and so does every other node.
\<close>

theorem delete_withdraws:
  assumes "(commit_step L E {node_kind})\<^sup>*\<^sup>* (t0, {}, empty_store) (now, live, s)" "i \<in> live"
    and "now < c" "c < TIMESTAMP_MAX" "valid_timestamp c" "valid_timestamp vf"
    and "version_at s vid = None" "room_for L s i"
  shows "\<exists>s'. apply_delete L E node_kind i vf c vid l props prov s = Some (Inr (), s') \<and>
    (\<forall>v x. x < TIMESTAMP_MAX \<longrightarrow> content_at_time L E node_kind i v x s' =
      (if c \<le> x then None else content_at_time L E node_kind i v x s)) \<and>
    (\<forall>j v x. j \<noteq> i \<longrightarrow> content_at_time L E node_kind j v x s' = content_at_time L E node_kind j v x s)"
proof -
  note run = node_run_state [OF assms(1)]
  obtain b where "live_entity L E node_kind s i b now"
    using run_live [OF run assms(2)] by blast
  from node_versions.delete_correct [OF this assms(3-)]
  obtain s' where s': "apply_delete L E node_kind i vf c vid l props prov s = Some (Inr (), s')"
    "frame L E node_kind i s s'" "store_ok s'"
    "\<forall>v x. x < TIMESTAMP_MAX \<longrightarrow> content_at_time L E node_kind i v x s' =
      (if c \<le> x then None else content_at_time L E node_kind i v x s)"
    by blast
  then show ?thesis
    using others_unchanged [OF run s'(2,3)] by blast
qed

theorem delete_withdraws_witness:
  "\<exists>s'. apply_delete (demo_limits 9) demo_env node_kind (NodeId 1) (demo_time 7) (demo_time 20) (VersionId 2)
       (InternedString 0) PropertyMap_new None (demo_store 9) = Some (Inr (), s') \<and>
     content_at_time (demo_limits 9) demo_env node_kind (NodeId 1) (demo_time 5) (demo_time 20) s' = None"
proof -
  have "version_at (demo_store 9) (VersionId 2) = None"
    using demo_run(3) [of 9] by simp
  then show ?thesis
    using delete_withdraws [OF demo_reach [of 9, OF zero_less_numeral] insertI1 demo_times(10,8,4,2) _
        demo_room [of 9, OF zero_less_numeral, THEN iffD2], of "VersionId 2" "InternedString 0" PropertyMap_new None] demo_times(8) by auto
qed

text \<open>
  C8: retracting a live node at \<open>valid_to\<close>, not before the start of its head slice, succeeds while
  there is room: from the commit on the node reads as before at valid times before \<open>valid_to\<close> and as
  absent from there on, and earlier points of transaction time keep showing the open-ended fact.
\<close>

theorem retract_closes:
  assumes "(commit_step L E {node_kind})\<^sup>*\<^sup>* (t0, {}, empty_store) (now, live, s)" "i \<in> live"
    and "now < c" "c < TIMESTAMP_MAX" "valid_timestamp c" "valid_timestamp vt"
    and "head_state L E s i = Some (hs, l, props)" "hs \<le> vt" "version_at s vid = None" "room_for L s i"
  shows "\<exists>s'. apply_retract L E node_kind i vt c vid l props prov s = Some (Inr (), s') \<and>
    (\<forall>v x. x < TIMESTAMP_MAX \<longrightarrow> content_at_time L E node_kind i v x s' =
      (if c \<le> x \<and> vt \<le> v then None else content_at_time L E node_kind i v x s)) \<and>
    (\<forall>j v x. j \<noteq> i \<longrightarrow> content_at_time L E node_kind j v x s' = content_at_time L E node_kind j v x s)"
proof -
  note run = node_run_state [OF assms(1)]
  obtain b where "live_entity L E node_kind s i b now"
    using run_live [OF run assms(2)] by blast
  from node_versions.retract_correct [OF this assms(3-)]
  obtain s' where s': "apply_retract L E node_kind i vt c vid l props prov s = Some (Inr (), s')"
    "frame L E node_kind i s s'" "store_ok s'"
    "\<forall>v x. x < TIMESTAMP_MAX \<longrightarrow> content_at_time L E node_kind i v x s' =
      (if c \<le> x \<and> vt \<le> v then None else content_at_time L E node_kind i v x s)"
    by blast
  then show ?thesis
    using others_unchanged [OF run s'(2,3)] by blast
qed

lemma demo_head: "head_state (demo_limits 9) demo_env (demo_store 9) (NodeId 1) = Some (demo_time 5, InternedString 0, PropertyMap_new)"
proof -
  have "demo_store 9 = snd (add_version_with_interval (demo_limits 9) demo_env node_kind (NodeId 1) (VersionId 1)
      (rect (demo_time 5) TIMESTAMP_MAX (demo_time 10)) (InternedString 0) PropertyMap_new None empty_store)"
    using bt_rect [OF demo_times(1,3)] by (simp add: demo_store_def demo_create_def add_version_def)
  then show ?thesis
    by (simp add: head_state_def reconstruct_def demo_create_defs)
qed

theorem retract_closes_witness:
  "\<exists>s'. apply_retract (demo_limits 9) demo_env node_kind (NodeId 1) (demo_time 7) (demo_time 20) (VersionId 2)
       (InternedString 0) PropertyMap_new None (demo_store 9) = Some (Inr (), s') \<and>
     content_at_time (demo_limits 9) demo_env node_kind (NodeId 1) (demo_time 7) (demo_time 20) s' = None"
proof -
  have "version_at (demo_store 9) (VersionId 2) = None"
    using demo_run(3) [of 9] by simp
  then show ?thesis
    using retract_closes [OF demo_reach [of 9, OF zero_less_numeral] insertI1 demo_times(10,8,4,2) demo_head demo_times(12) _
        demo_room [of 9, OF zero_less_numeral, THEN iffD2], of "VersionId 2" None] demo_times(8) by auto
qed

section \<open>Listings\<close>

text \<open>
  C9: the history of a node with versions is returned, for every reachable state: the walk along the
  version chain ends. It lists each logical version of the node exactly once, numbered from one, in
  the order of transaction time, and leaves the structural versions out.
\<close>

theorem history_lists_writes:
  assumes "(commit_step L E {node_kind})\<^sup>*\<^sup>* (t0, {}, empty_store) (now, live, s)" "hm_get (version_heads s) i \<noteq> None"
  shows "\<exists>infos s'. get_history L E node_kind i s = Some (Inr infos, s') \<and> distinct (map vi_version_id infos) \<and>
    set (map vi_version_id infos) =
      {u. \<not> is_structural u \<and> (\<exists>v. hm_get (versions s) u = Some v \<and> node_id v = i)} \<and>
    map vi_number infos = map word_of_nat [1..<length infos + 1] \<and>
    sorted (map (\<lambda>info. tr_start (transaction_time (vi_temporal info))) infos)"
proof -
  obtain es where es: "represents L E node_kind s i es" "chronological es"
    using run_known [OF node_run_state [OF assms(1)] assms(2)] by (auto simp: known_entity_def base_history_def)
  note r = representsD [OF es(1)]
  let ?es = "filter (\<lambda>e. \<not> is_structural (entry_id e)) (rev es)"
  obtain infos s' where h: "get_history L E node_kind i s = Some (Inr infos, s')" "list_all2 lists_entry ?es infos"
    "map vi_number infos = map word_of_nat [1..<length infos + 1]"
    using history_lists [OF es(1)] by blast
  have ids: "map vi_version_id infos = map entry_id ?es"
    by (rule lists_ids [OF h(2)])
  have "distinct (map entry_id ?es)"
    using r(4) by (intro distinct_map_filter) (simp add: rev_map [symmetric])
  moreover have "set (map entry_id ?es) = {u \<in> owned node_kind s i. \<not> is_structural u}"
    unfolding r(5) [symmetric] set_map set_filter set_rev by blast
  moreover have "map (\<lambda>info. tr_start (transaction_time (vi_temporal info))) infos =
      map (\<lambda>e. tr_start (transaction_time (entry_time e))) ?es"
    using arg_cong [OF lists_times [OF h(2)], of "map (\<lambda>t. tr_start (transaction_time t))"] unfolding list.map_comp comp_def .
  then have "sorted (map (\<lambda>info. tr_start (transaction_time (vi_temporal info))) infos)"
    using chronological_sorted [OF es(2)] by (simp only:)
  ultimately show ?thesis
    using h(1,3) unfolding ids [symmetric] by (intro exI conjI) (auto simp: owned_def node_kind_def)
qed

theorem history_lists_writes_witness:
  "\<exists>infos s'. get_history (demo_limits 9) demo_env node_kind (NodeId 1) (demo_store 9) = Some (Inr infos, s') \<and>
     distinct (map vi_version_id infos)"
proof -
  have "hm_get (version_heads (demo_store 9)) (NodeId 1) \<noteq> None"
    using demo_head unfolding head_state_def by (metis bind.bind_lzero option.distinct(1))
  then show ?thesis
    using history_lists_writes [OF demo_reach [of 9, OF zero_less_numeral], of "NodeId 1"] by blast
qed

text \<open>
  C5: the valid-time slices of a live node partition valid time: listed by their start they begin
  at some \<open>b\<close>, each ends where the next one starts, the last is open-ended, none is empty, and each
  shows what reads return on it now.
\<close>

theorem slices_partition:
  assumes "(commit_step L E {node_kind})\<^sup>*\<^sup>* (t0, {}, empty_store) (now, live, s)" "i \<in> live" "now < TIMESTAMP_MAX"
  shows "\<exists>b infos s'. get_valid_time_slices L E i s = (Inr infos, s') \<and>
    tiles b (map (\<lambda>info. valid_time (vi_temporal info)) infos) \<and>
    (\<forall>info \<in> set infos. \<forall>v x. contains (valid_time (vi_temporal info)) v \<longrightarrow> now < x \<longrightarrow> x < TIMESTAMP_MAX \<longrightarrow>
       content_at_time L E node_kind i v x s = Some (vi_label info, vi_properties info))"
proof -
  obtain b where "live_entity L E node_kind s i b now"
    using run_live [OF node_run_state [OF assms(1)] assms(2)] by blast
  from slices_tile [OF this assms(3)] show ?thesis
    by (rule exI [of _ b])
qed

theorem slices_partition_witness:
  "\<exists>b infos s'. get_valid_time_slices (demo_limits 9) demo_env (NodeId 1) (demo_store 9) = (Inr infos, s') \<and>
     tiles b (map (\<lambda>info. valid_time (vi_temporal info)) infos)"
  using slices_partition [OF demo_reach [of 9, OF zero_less_numeral] insertI1 demo_times(7)] by blast

section \<open>Deleting at the version cap\<close>

context versioned
begin

lemma delete_full:
  assumes live: "live_entity L E K s i b now" and time: "now < c" "c < TIMESTAMP_MAX" "valid_timestamp c" "valid_timestamp vf"
    and full: "\<not> room_for L s i" "\<not> is_structural vid"
  shows "\<exists>n m s'. apply_delete L E K i vf c vid l props prov s = Some (Inl (StorageErr (CapacityExceeded ''versions'' n m)), s') \<and>
    (\<forall>v x. x < TIMESTAMP_MAX \<longrightarrow> content_at_time L E K i v x s' = (if c \<le> x then None else content_at_time L E K i v x s))"
proof -
  obtain es where es: "represents L E K s i es" "live_history b now es" "store_ok s" "hm_wf (versions s)"
    using live by (auto simp: live_entity_def store_ok_def)
  have base: "recorded_by now es"
    using es(2) by (simp add: live_history_def)
  obtain A s1 where s1: "close_all_slices K i c s = (Inr (), s1)" "step_to L E K i s s1 (map (close_entry A c) es) {} 0"
    "\<forall>e \<in> set es. entry_id e \<in> A \<longleftrightarrow> is_open_slice (entry_time e)" "logical_version_count s1 i = logical_version_count s i"
    using delete_closes [OF es(1,3,2) time(1,2,3)] by blast
  have r: "represents L E K s1 i (map (close_entry A c) es)" "hm_wf (versions s1)"
    using s1(2) by (auto simp: step_to_def store_ok_def)
  have "apply_delete L E K i vf c vid l props prov s =
      Some (Inl (StorageErr (CapacityExceeded ''versions'' (logical_version_count s i) (max_versions_per_entity (retention_policy L)))), s1)"
    using s1(1,4) full bt_rect [OF time(4,3)] close_rect [of vf vf TIMESTAMP_MAX c] time(4)
    by (simp add: apply_delete_def create_temporal_interval_def add_version_def add_version_with_interval_def room_for_def)
  moreover have "content_at_time L E K i v x s1 = (if c \<le> x then None else content_at_time L E K i v x s)"
    if "x < TIMESTAMP_MAX" for v x
    using belief_withdrawn [OF base time(1,2) s1(3) that] by (simp add: content_belief [OF r] content_belief [OF es(1,4)])
  ultimately show ?thesis
    by blast
qed

end

text \<open>
  C14: a delete of a live node whose logical versions have reached the cap fails with
  \<open>CapacityExceeded\<close>, but only after the slices were closed: the failed delete leaves the node
  withdrawn at every valid time from the commit on, with no tombstone recorded.
\<close>

theorem delete_at_cap_half_applied:
  assumes "(commit_step L E {node_kind})\<^sup>*\<^sup>* (t0, {}, empty_store) (now, live, s)" "i \<in> live"
    and "now < c" "c < TIMESTAMP_MAX" "valid_timestamp c" "valid_timestamp vf"
    and "\<not> room_for L s i" "\<not> is_structural vid"
  shows "\<exists>n m s'. apply_delete L E node_kind i vf c vid l props prov s =
      Some (Inl (StorageErr (CapacityExceeded ''versions'' n m)), s') \<and>
    (\<forall>v x. x < TIMESTAMP_MAX \<longrightarrow> content_at_time L E node_kind i v x s' =
      (if c \<le> x then None else content_at_time L E node_kind i v x s))"
proof -
  obtain b where "live_entity L E node_kind s i b now"
    using run_live [OF node_run_state [OF assms(1)] assms(2)] by blast
  then show ?thesis
    using node_versions.delete_full [OF _ assms(3-)] by blast
qed

theorem delete_at_cap_half_applied_witness:
  "\<exists>n m s'. apply_delete (demo_limits 1) demo_env node_kind (NodeId 1) (demo_time 7) (demo_time 20) (VersionId 2)
       (InternedString 0) PropertyMap_new None (demo_store 1) = Some (Inl (StorageErr (CapacityExceeded ''versions'' n m)), s') \<and>
     content_at_time (demo_limits 1) demo_env node_kind (NodeId 1) (demo_time 7) (demo_time 20) s' = None"
proof -
  have "\<not> room_for (demo_limits 1) (demo_store 1) (NodeId 1)" "\<not> is_structural (VersionId 2)"
    by (simp_all add: is_structural_def STRUCTURAL_VERSION_TAG_def)
  then show ?thesis
    using delete_at_cap_half_applied [OF demo_reach [of 1, OF zero_less_one] insertI1 demo_times(10,8,4,2),
        of "VersionId 2" "InternedString 0" PropertyMap_new None] demo_times(8) by fastforce
qed

end
