(* ===== verification/TimelineIndex.thy ===== *)
theory TimelineIndex
  imports Temporal Errors "HOL-Library.Product_Lexorder"
begin

text \<open>
  The temporal index: \<open>src/index/temporal/mod.rs\<close>. For every entity it keeps two timelines, one per
  time dimension, each a vector of intervals sorted by start, and answers point queries by binary
  search in both. The concurrent map is a hash map here: every operation holds the entry of its
  entity while it works on it. Debug assertions are left out.
\<close>

section \<open>The temporal extent\<close>

record ExtentAggregate =
  valid_earliest :: "Timestamp option"
  valid_latest :: "Timestamp option"
  tx_earliest :: "Timestamp option"
  tx_latest :: "Timestamp option"

definition empty_extent :: ExtentAggregate where
  "empty_extent = \<lparr>valid_earliest = None, valid_latest = None, tx_earliest = None, tx_latest = None\<rparr>"

definition min_with :: "Timestamp option \<Rightarrow> Timestamp \<Rightarrow> Timestamp option" where
  "min_with e t = Some (case e of None \<Rightarrow> t | Some u \<Rightarrow> min u t)"

definition max_with :: "Timestamp option \<Rightarrow> Timestamp \<Rightarrow> Timestamp option" where
  "max_with e t = Some (case e of None \<Rightarrow> t | Some u \<Rightarrow> max u t)"

definition observe_range ::
  "Timestamp option \<times> Timestamp option \<Rightarrow> Timestamp \<Rightarrow> Timestamp \<Rightarrow> Timestamp option \<times> Timestamp option" where
  "observe_range b start end =
     (min_with (fst b) start, max_with (snd b) (if end = TIMESTAMP_MAX then start else end))"

definition observe_interval :: "BiTemporalInterval \<Rightarrow> ExtentAggregate \<Rightarrow> ExtentAggregate" where
  "observe_interval t a =
     (let (ve, vl) = observe_range (valid_earliest a, valid_latest a) (tr_start (valid_time t)) (tr_end (valid_time t));
          (xe, xl) = observe_range (tx_earliest a, tx_latest a) (tr_start (transaction_time t)) (tr_end (transaction_time t))
      in \<lparr>valid_earliest = ve, valid_latest = vl, tx_earliest = xe, tx_latest = xl\<rparr>)"

definition merge_dim ::
  "Timestamp option \<times> Timestamp option \<Rightarrow> Timestamp option \<Rightarrow> Timestamp option \<Rightarrow> Timestamp option \<times> Timestamp option" where
  "merge_dim b other_earliest other_latest =
     (case_option (fst b) (min_with (fst b)) other_earliest, case_option (snd b) (max_with (snd b)) other_latest)"

definition merge_extent :: "ExtentAggregate \<Rightarrow> ExtentAggregate \<Rightarrow> ExtentAggregate" where
  "merge_extent a other =
     (let (ve, vl) = merge_dim (valid_earliest a, valid_latest a) (valid_earliest other) (valid_latest other);
          (xe, xl) = merge_dim (tx_earliest a, tx_latest a) (tx_earliest other) (tx_latest other)
      in \<lparr>valid_earliest = ve, valid_latest = vl, tx_earliest = xe, tx_latest = xl\<rparr>)"

definition observe_closed_end :: "Timestamp option \<Rightarrow> Timestamp \<Rightarrow> Timestamp option" where
  "observe_closed_end latest new_end = (if new_end = TIMESTAMP_MAX then latest else max_with latest new_end)"

section \<open>One timeline\<close>

type_synonym TimelineVersionMetadataIndex = u32

record TimelineEntry =
  te_start :: Timestamp
  te_end :: Timestamp
  metadata_idx :: TimelineVersionMetadataIndex

record EntityTimeline =
  tl_versions :: "TimelineEntry list"
  metadata_to_position :: "(TimelineVersionMetadataIndex, nat) hashmap"

definition empty_timeline :: EntityTimeline where
  "empty_timeline = \<lparr>tl_versions = [], metadata_to_position = []\<rparr>"

definition te_key :: "TimelineEntry \<Rightarrow> Timestamp \<times> TimelineVersionMetadataIndex" where
  "te_key e = (te_start e, metadata_idx e)"

text \<open>\<open>slice::partition_point\<close>: the index of the first element that fails the test.\<close>

definition partition_point :: "('a \<Rightarrow> bool) \<Rightarrow> 'a list \<Rightarrow> nat" where
  "partition_point P xs = length (takeWhile P xs)"

definition set_positions ::
  "TimelineEntry list \<Rightarrow> nat list \<Rightarrow> (TimelineVersionMetadataIndex, nat) hashmap \<Rightarrow>
    (TimelineVersionMetadataIndex, nat) hashmap" where
  "set_positions es = fold (\<lambda>pos. hm_insert (metadata_idx (es ! pos)) pos)"

definition tl_insert ::
  "Timestamp \<Rightarrow> Timestamp \<Rightarrow> TimelineVersionMetadataIndex \<Rightarrow> EntityTimeline \<Rightarrow> EntityTimeline" where
  "tl_insert start end idx line =
     (let es = tl_versions line; e = \<lparr>te_start = start, te_end = end, metadata_idx = idx\<rparr>; new_key = (start, idx) in
      if es = [] \<or> te_key (last es) \<le> new_key
      then \<lparr>tl_versions = es @ [e],
            metadata_to_position = hm_insert idx (length es) (metadata_to_position line)\<rparr>
      else let p = partition_point (\<lambda>e. te_key e < new_key) es; es' = take p es @ e # drop p es in
           \<lparr>tl_versions = es',
            metadata_to_position =
              hm_insert idx p (set_positions es' [p + 1..<length es'] (metadata_to_position line))\<rparr>)"

definition rebuild_position_map :: "EntityTimeline \<Rightarrow> EntityTimeline" where
  "rebuild_position_map line =
     line\<lparr>metadata_to_position := set_positions (tl_versions line) [0..<length (tl_versions line)] []\<rparr>"

definition update_end_time ::
  "TimelineVersionMetadataIndex \<Rightarrow> Timestamp \<Rightarrow> EntityTimeline \<Rightarrow> bool \<times> EntityTimeline" where
  "update_end_time idx new_end line =
     (case hm_get (metadata_to_position line) idx of
        None \<Rightarrow> (False, line)
      | Some p \<Rightarrow>
          (if p < length (tl_versions line)
           then (True, line\<lparr>tl_versions := (tl_versions line)[p := (tl_versions line ! p)\<lparr>te_end := new_end\<rparr>]\<rparr>)
           else (False, line)))"

datatype DeduplicationPolicy = FirstOccurrence | LastOccurrence | Reject

text \<open>\<open>retain\<close> with the set of indices seen so far.\<close>

fun retain_unseen :: "TimelineVersionMetadataIndex set \<Rightarrow> TimelineEntry list \<Rightarrow> TimelineEntry list" where
  "retain_unseen seen [] = []"
| "retain_unseen seen (e # es) =
     (if metadata_idx e \<in> seen then retain_unseen seen es
      else e # retain_unseen (insert (metadata_idx e) seen) es)"

definition deduplicate :: "DeduplicationPolicy \<Rightarrow> TimelineEntry list \<Rightarrow> TimelineEntry list" where
  "deduplicate policy es =
     (case policy of
        FirstOccurrence \<Rightarrow> retain_unseen {} es
      | LastOccurrence \<Rightarrow> rev (retain_unseen {} (rev es))
      | Reject \<Rightarrow> es)"

definition tl_insert_batch ::
  "TimelineEntry list \<Rightarrow> DeduplicationPolicy \<Rightarrow> EntityTimeline \<Rightarrow> (Error + unit) \<times> EntityTimeline" where
  "tl_insert_batch es policy line =
     (if es = [] then (Inr (), line)
      else if policy = Reject \<and>
        (\<not> distinct (map metadata_idx es) \<or>
         (\<exists>e \<in> set es. hm_get (metadata_to_position line) (metadata_idx e) \<noteq> None))
      then (Inl (StorageErr DuplicateId), line)
      else (Inr (), rebuild_position_map
             (line\<lparr>tl_versions := deduplicate policy (sort_key te_key (tl_versions line @ es))\<rparr>)))"

definition find_indices_in_range :: "EntityTimeline \<Rightarrow> TimeRange \<Rightarrow> TimelineVersionMetadataIndex list" where
  "find_indices_in_range line r =
     map metadata_idx (filter (\<lambda>e. tr_start r < te_end e)
       (take (partition_point (\<lambda>e. te_start e < tr_end r) (tl_versions line)) (tl_versions line)))"

definition find_indices_at_point :: "EntityTimeline \<Rightarrow> Timestamp \<Rightarrow> TimelineVersionMetadataIndex list" where
  "find_indices_at_point line x =
     map metadata_idx (filter (\<lambda>e. x < te_end e)
       (take (partition_point (\<lambda>e. te_start e \<le> x) (tl_versions line)) (tl_versions line)))"

section \<open>The timelines of an entity\<close>

record EntityTimelines =
  version_metadata :: "VersionId list"
  version_id_to_idx :: "(VersionId, TimelineVersionMetadataIndex) hashmap"
  valid_tl :: EntityTimeline
  tx_tl :: EntityTimeline

definition empty_timelines :: EntityTimelines where
  "empty_timelines =
     \<lparr>version_metadata = [], version_id_to_idx = [], valid_tl = empty_timeline, tx_tl = empty_timeline\<rparr>"

definition add_version_metadata ::
  "VersionId \<Rightarrow> EntityTimelines \<Rightarrow> (Error + TimelineVersionMetadataIndex) \<times> EntityTimelines" where
  "add_version_metadata vid ts =
     (let index = length (version_metadata ts) in
      if unat u32_MAX < index
      then (Inl (StorageErr (CapacityExceeded ''version metadata indices'' index (unat u32_MAX))), ts)
      else let idx = word_of_nat index in
           (Inr idx, ts\<lparr>version_id_to_idx := hm_insert vid idx (version_id_to_idx ts),
              version_metadata := version_metadata ts @ [vid]\<rparr>))"

text \<open>None is the panic on an index out of range.\<close>

definition resolve_version_id :: "EntityTimelines \<Rightarrow> TimelineVersionMetadataIndex \<Rightarrow> VersionId option" where
  "resolve_version_id ts idx =
     (if unat idx < length (version_metadata ts) then Some (version_metadata ts ! unat idx) else None)"

definition resolve_version_ids ::
  "EntityTimelines \<Rightarrow> TimelineVersionMetadataIndex list \<Rightarrow> VersionId list option" where
  "resolve_version_ids ts idxs = those (map (resolve_version_id ts) idxs)"

definition find_metadata_index :: "EntityTimelines \<Rightarrow> VersionId \<Rightarrow> TimelineVersionMetadataIndex option" where
  "find_metadata_index ts vid = hm_get (version_id_to_idx ts) vid"

definition ts_update_valid_time_end ::
  "VersionId \<Rightarrow> Timestamp \<Rightarrow> EntityTimelines \<Rightarrow> bool \<times> EntityTimelines" where
  "ts_update_valid_time_end vid new_end ts =
     (case find_metadata_index ts vid of
        None \<Rightarrow> (False, ts)
      | Some idx \<Rightarrow> (case update_end_time idx new_end (valid_tl ts) of (b, line) \<Rightarrow> (b, ts\<lparr>valid_tl := line\<rparr>)))"

definition ts_update_transaction_time_end ::
  "VersionId \<Rightarrow> Timestamp \<Rightarrow> EntityTimelines \<Rightarrow> bool \<times> EntityTimelines" where
  "ts_update_transaction_time_end vid new_end ts =
     (case find_metadata_index ts vid of
        None \<Rightarrow> (False, ts)
      | Some idx \<Rightarrow> (case update_end_time idx new_end (tx_tl ts) of (b, line) \<Rightarrow> (b, ts\<lparr>tx_tl := line\<rparr>)))"

definition HASH_THRESHOLD :: nat where
  "HASH_THRESHOLD = 16"

definition intersect_metadata_indices ::
  "TimelineVersionMetadataIndex list \<Rightarrow> TimelineVersionMetadataIndex list \<Rightarrow> TimelineVersionMetadataIndex list" where
  "intersect_metadata_indices a b =
     (if max (length a) (length b) < HASH_THRESHOLD
      then if length a \<le> length b then filter (\<lambda>v. List.member b v) a else filter (\<lambda>v. List.member a v) b
      else let b_set = set b in filter (\<lambda>v. v \<in> b_set) a)"

section \<open>The index\<close>

record TemporalIndexes =
  ti_index :: "(EntityId, EntityTimelines) hashmap"
  ti_max_versions :: nat
  extent_aggregate :: ExtentAggregate

definition TemporalIndexes_with_config :: "nat \<Rightarrow> TemporalIndexes" where
  "TemporalIndexes_with_config n = \<lparr>ti_index = [], ti_max_versions = n, extent_aggregate = empty_extent\<rparr>"

definition TemporalIndexes_new :: TemporalIndexes where
  "TemporalIndexes_new = TemporalIndexes_with_config 1000000"

definition timelines_of :: "TemporalIndexes \<Rightarrow> EntityId \<Rightarrow> EntityTimelines" where
  "timelines_of ix k = (case hm_get (ti_index ix) k of None \<Rightarrow> empty_timelines | Some ts \<Rightarrow> ts)"

definition put_timelines :: "EntityId \<Rightarrow> EntityTimelines \<Rightarrow> TemporalIndexes \<Rightarrow> TemporalIndexes" where
  "put_timelines k ts ix = ix\<lparr>ti_index := hm_insert k ts (ti_index ix)\<rparr>"

definition index_both :: "BiTemporalInterval \<Rightarrow> TimelineVersionMetadataIndex \<Rightarrow> EntityTimelines \<Rightarrow> EntityTimelines" where
  "index_both t idx ts =
     ts\<lparr>valid_tl := tl_insert (tr_start (valid_time t)) (tr_end (valid_time t)) idx (valid_tl ts),
        tx_tl := tl_insert (tr_start (transaction_time t)) (tr_end (transaction_time t)) idx (tx_tl ts)\<rparr>"

definition insert_version ::
  "EntityId \<Rightarrow> VersionId \<Rightarrow> BiTemporalInterval \<Rightarrow> TemporalIndexes \<Rightarrow> (Error + unit) \<times> TemporalIndexes" where
  "insert_version k vid t ix =
     (let ts = timelines_of ix k; ix0 = put_timelines k ts ix; current_count = length (version_metadata ts) in
      if ti_max_versions ix \<le> current_count
      then (Inl (StorageErr (CapacityExceeded ''versions for entity'' current_count (ti_max_versions ix))), ix0)
      else if find_metadata_index ts vid \<noteq> None then (Inl (StorageErr DuplicateId), ix0)
      else case add_version_metadata vid ts of
        (Inl e, ts1) \<Rightarrow> (Inl e, put_timelines k ts1 ix)
      | (Inr idx, ts1) \<Rightarrow>
          (Inr (), (put_timelines k (index_both t idx ts1) ix)
             \<lparr>extent_aggregate := observe_interval t (extent_aggregate ix)\<rparr>))"

text \<open>The loop of a batch: an index for every version, and the entries of both timelines.\<close>

definition entry_for :: "TimeRange \<Rightarrow> TimelineVersionMetadataIndex \<Rightarrow> TimelineEntry" where
  "entry_for r idx = \<lparr>te_start = tr_start r, te_end = tr_end r, metadata_idx = idx\<rparr>"

definition batch_index ::
  "VersionId \<Rightarrow> (VersionId, TimelineVersionMetadataIndex) hashmap \<Rightarrow> EntityTimelines \<Rightarrow>
    (Error + TimelineVersionMetadataIndex) \<times> (VersionId, TimelineVersionMetadataIndex) hashmap \<times> EntityTimelines" where
  "batch_index vid known ts =
     (case hm_get known vid of
        Some idx \<Rightarrow> (Inr idx, known, ts)
      | None \<Rightarrow>
          (case find_metadata_index ts vid of
             Some idx \<Rightarrow> (Inr idx, hm_insert vid idx known, ts)
           | None \<Rightarrow>
               (case add_version_metadata vid ts of
                  (Inl e, ts1) \<Rightarrow> (Inl e, known, ts1)
                | (Inr idx, ts1) \<Rightarrow> (Inr idx, hm_insert vid idx known, ts1))))"

fun batch_entries ::
  "(VersionId \<times> BiTemporalInterval) list \<Rightarrow> (VersionId, TimelineVersionMetadataIndex) hashmap \<Rightarrow> EntityTimelines \<Rightarrow>
    (Error + TimelineEntry list \<times> TimelineEntry list) \<times> EntityTimelines" where
  "batch_entries [] known ts = (Inr ([], []), ts)"
| "batch_entries ((vid, t) # rest) known ts =
     (case batch_index vid known ts of
        (Inl e, _, ts1) \<Rightarrow> (Inl e, ts1)
      | (Inr idx, known1, ts1) \<Rightarrow>
          (case batch_entries rest known1 ts1 of
             (Inl e, ts2) \<Rightarrow> (Inl e, ts2)
           | (Inr (vs, xs), ts2) \<Rightarrow>
               (Inr (entry_for (valid_time t) idx # vs, entry_for (transaction_time t) idx # xs), ts2)))"

definition insert_versions_batch ::
  "EntityId \<Rightarrow> (VersionId \<times> BiTemporalInterval) list \<Rightarrow> DeduplicationPolicy \<Rightarrow> TemporalIndexes \<Rightarrow>
    (Error + unit) \<times> TemporalIndexes" where
  "insert_versions_batch k batch policy ix =
     (if batch = [] then (Inr (), ix)
      else let ts = timelines_of ix k; new_count = length (version_metadata ts) + length batch in
        if ti_max_versions ix < new_count
        then (Inl (StorageErr (CapacityExceeded ''versions for entity'' new_count (ti_max_versions ix))),
              put_timelines k ts ix)
        else case batch_entries batch [] ts of
          (Inl e, ts1) \<Rightarrow> (Inl e, put_timelines k ts1 ix)
        | (Inr (valid_entries, tx_entries), ts1) \<Rightarrow>
            (case tl_insert_batch valid_entries policy (valid_tl ts1) of
               (Inl e, line) \<Rightarrow> (Inl e, put_timelines k (ts1\<lparr>valid_tl := line\<rparr>) ix)
             | (Inr _, line) \<Rightarrow>
                 (let ts2 = ts1\<lparr>valid_tl := line\<rparr> in
                  case tl_insert_batch tx_entries policy (tx_tl ts2) of
                    (Inl e, xl) \<Rightarrow> (Inl e, put_timelines k (ts2\<lparr>tx_tl := xl\<rparr>) ix)
                  | (Inr _, xl) \<Rightarrow>
                      (Inr (), (put_timelines k (ts2\<lparr>tx_tl := xl\<rparr>) ix)
                         \<lparr>extent_aggregate := merge_extent (extent_aggregate ix)
                            (fold (\<lambda>(_, t). observe_interval t) batch empty_extent)\<rparr>))))"

definition update_valid_time_end ::
  "EntityId \<Rightarrow> VersionId \<Rightarrow> Timestamp \<Rightarrow> TemporalIndexes \<Rightarrow> TemporalIndexes" where
  "update_valid_time_end k vid new_end ix =
     (case hm_get (ti_index ix) k of
        None \<Rightarrow> ix
      | Some ts \<Rightarrow>
          (case ts_update_valid_time_end vid new_end ts of
             (False, ts1) \<Rightarrow> put_timelines k ts1 ix
           | (True, ts1) \<Rightarrow> (put_timelines k ts1 ix)\<lparr>extent_aggregate := (extent_aggregate ix)
               \<lparr>valid_latest := observe_closed_end (valid_latest (extent_aggregate ix)) new_end\<rparr>\<rparr>))"

definition update_transaction_time_end ::
  "EntityId \<Rightarrow> VersionId \<Rightarrow> Timestamp \<Rightarrow> TemporalIndexes \<Rightarrow> TemporalIndexes" where
  "update_transaction_time_end k vid new_end ix =
     (case hm_get (ti_index ix) k of
        None \<Rightarrow> ix
      | Some ts \<Rightarrow>
          (case ts_update_transaction_time_end vid new_end ts of
             (False, ts1) \<Rightarrow> put_timelines k ts1 ix
           | (True, ts1) \<Rightarrow> (put_timelines k ts1 ix)\<lparr>extent_aggregate := (extent_aggregate ix)
               \<lparr>tx_latest := observe_closed_end (tx_latest (extent_aggregate ix)) new_end\<rparr>\<rparr>))"

definition find_versions_in_valid_time_range :: "TemporalIndexes \<Rightarrow> EntityId \<Rightarrow> TimeRange \<Rightarrow> VersionId list option" where
  "find_versions_in_valid_time_range ix k r =
     (case hm_get (ti_index ix) k of
        None \<Rightarrow> Some []
      | Some ts \<Rightarrow> resolve_version_ids ts (find_indices_in_range (valid_tl ts) r))"

definition find_versions_in_transaction_time_range ::
  "TemporalIndexes \<Rightarrow> EntityId \<Rightarrow> TimeRange \<Rightarrow> VersionId list option" where
  "find_versions_in_transaction_time_range ix k r =
     (case hm_get (ti_index ix) k of
        None \<Rightarrow> Some []
      | Some ts \<Rightarrow> resolve_version_ids ts (find_indices_in_range (tx_tl ts) r))"

definition find_version_at_point ::
  "TemporalIndexes \<Rightarrow> EntityId \<Rightarrow> Timestamp \<Rightarrow> Timestamp \<Rightarrow> VersionId list option" where
  "find_version_at_point ix k v x =
     (case hm_get (ti_index ix) k of
        None \<Rightarrow> Some []
      | Some ts \<Rightarrow> resolve_version_ids ts
          (intersect_metadata_indices (find_indices_at_point (valid_tl ts) v) (find_indices_at_point (tx_tl ts) x)))"

record IndexTemporalExtent =
  e_valid_earliest :: Timestamp
  e_valid_latest :: Timestamp
  e_tx_earliest :: Timestamp
  e_tx_latest :: Timestamp

definition extent :: "TemporalIndexes \<Rightarrow> IndexTemporalExtent option" where
  "extent ix =
     (let a = extent_aggregate ix in
      case (valid_earliest a, valid_latest a, tx_earliest a, tx_latest a) of
        (Some ve, Some vl, Some xe, Some xl) \<Rightarrow>
          Some \<lparr>e_valid_earliest = ve, e_valid_latest = vl, e_tx_earliest = xe, e_tx_latest = xl\<rparr>
      | _ \<Rightarrow> None)"

definition merge_extent_bounds ::
  "Timestamp option \<Rightarrow> Timestamp option \<Rightarrow> Timestamp option \<Rightarrow> Timestamp option \<Rightarrow> TemporalIndexes \<Rightarrow> TemporalIndexes" where
  "merge_extent_bounds ve vl xe xl ix = ix\<lparr>extent_aggregate := merge_extent (extent_aggregate ix)
     \<lparr>valid_earliest = ve, valid_latest = vl, tx_earliest = xe, tx_latest = xl\<rparr>\<rparr>"

definition version_count :: "TemporalIndexes \<Rightarrow> nat" where
  "version_count ix = sum_list (map (\<lambda>(_, ts). length (version_metadata ts)) (ti_index ix))"

definition clear_index :: "TemporalIndexes \<Rightarrow> TemporalIndexes" where
  "clear_index ix = ix\<lparr>ti_index := [], extent_aggregate := empty_extent\<rparr>"

end
