(* ===== verification/TimelineQueries.thy ===== *)
theory TimelineQueries
  imports TimelineIndex
begin

text \<open>
  Correctness of the temporal index: its invariant, and what queries return. Abstractly an index
  assigns to every entity a partial map from version ids to bi-temporal intervals.
\<close>

section \<open>One timeline\<close>

definition timeline_wf :: "EntityTimeline \<Rightarrow> bool" where
  "timeline_wf line \<longleftrightarrow> sorted (map te_key (tl_versions line)) \<and> distinct (map metadata_idx (tl_versions line)) \<and>
     (\<forall>i p. hm_get (metadata_to_position line) i = Some p \<longleftrightarrow>
        p < length (tl_versions line) \<and> metadata_idx (tl_versions line ! p) = i)"

definition spans :: "TimelineEntry list \<Rightarrow> TimelineVersionMetadataIndex \<rightharpoonup> TimeRange" where
  "spans es = map_of (map (\<lambda>e. (metadata_idx e, \<lparr>tr_start = te_start e, tr_end = te_end e\<rparr>)) es)"

abbreviation span_of :: "EntityTimeline \<Rightarrow> TimelineVersionMetadataIndex \<rightharpoonup> TimeRange" where
  "span_of line \<equiv> spans (tl_versions line)"

lemma timeline_wf_empty [simp]: "timeline_wf empty_timeline" "span_of empty_timeline = Map.empty"
  by (simp_all add: timeline_wf_def empty_timeline_def spans_def)

lemma dom_spans: "dom (spans es) = metadata_idx ` set es"
  by (auto simp: spans_def dom_map_of_conv_image_fst image_image)

lemma spans_Some:
  assumes "distinct (map metadata_idx es)"
  shows "spans es i = Some r \<longleftrightarrow> (\<exists>e \<in> set es. metadata_idx e = i \<and> r = \<lparr>tr_start = te_start e, tr_end = te_end e\<rparr>)"
proof -
  have "distinct (map fst (map (\<lambda>e. (metadata_idx e, \<lparr>tr_start = te_start e, tr_end = te_end e\<rparr>)) es))"
    using assms by (simp add: comp_def)
  then show ?thesis
    unfolding spans_def by (subst map_of_eq_Some_iff) auto
qed

text \<open>On a list in which the test fails for good once it fails, the cut is a filter.\<close>

lemma take_partition:
  assumes "sorted_wrt (\<lambda>a b. P b \<longrightarrow> P a) xs"
  shows "take (partition_point P xs) xs = filter P xs"
proof -
  have "takeWhile P xs = filter P xs"
    using assms by (induction xs) (auto simp: filter_empty_conv)
  then show ?thesis
    by (metis partition_point_def takeWhile_eq_take)
qed

lemma sorted_starts:
  assumes "sorted (map te_key es)"
  shows "sorted_wrt (\<lambda>a b. te_start a \<le> te_start b) es"
proof -
  have "sorted_wrt (\<lambda>a b. te_key a \<le> te_key b) es"
    using assms by (simp add: sorted_map)
  then show ?thesis
    by (rule sorted_wrt_mono_rel [rotated]) (auto simp: te_key_def less_eq_prod_def)
qed

lemma indices_at_point:
  assumes "timeline_wf line"
  shows "find_indices_at_point line x =
    map metadata_idx (filter (\<lambda>e. te_start e \<le> x \<and> x < te_end e) (tl_versions line))"
proof -
  have "sorted_wrt (\<lambda>a b. te_start b \<le> x \<longrightarrow> te_start a \<le> x) (tl_versions line)"
    using sorted_starts assms unfolding timeline_wf_def
    by (blast intro: sorted_wrt_mono_rel [rotated] order_trans)
  from take_partition [OF this] show ?thesis
    by (simp add: find_indices_at_point_def conj_commute)
qed

lemma indices_in_range:
  assumes "timeline_wf line"
  shows "find_indices_in_range line r =
    map metadata_idx (filter (\<lambda>e. te_start e < tr_end r \<and> tr_start r < te_end e) (tl_versions line))"
proof -
  have "sorted_wrt (\<lambda>a b. te_start b < tr_end r \<longrightarrow> te_start a < tr_end r) (tl_versions line)"
    using sorted_starts assms unfolding timeline_wf_def
    by (blast intro: sorted_wrt_mono_rel [rotated] order.strict_trans1)
  from take_partition [OF this] show ?thesis
    by (simp add: find_indices_in_range_def conj_commute)
qed

text \<open>A query selects by a test on the interval.\<close>

lemma filtered_indices:
  assumes "timeline_wf line"
  shows "distinct (map metadata_idx (filter (\<lambda>e. Q (te_start e) (te_end e)) (tl_versions line)))"
    "set (map metadata_idx (filter (\<lambda>e. Q (te_start e) (te_end e)) (tl_versions line))) =
      {i. \<exists>r. span_of line i = Some r \<and> Q (tr_start r) (tr_end r)}"
proof -
  have d: "distinct (map metadata_idx (tl_versions line))"
    using assms by (simp add: timeline_wf_def)
  then show "distinct (map metadata_idx (filter (\<lambda>e. Q (te_start e) (te_end e)) (tl_versions line)))"
    by (auto simp: distinct_map intro: inj_on_subset)
  show "set (map metadata_idx (filter (\<lambda>e. Q (te_start e) (te_end e)) (tl_versions line))) =
      {i. \<exists>r. span_of line i = Some r \<and> Q (tr_start r) (tr_end r)}"
    using spans_Some [OF d] by auto
qed

lemmas point_indices = filtered_indices [where Q = "\<lambda>a b. a \<le> x \<and> x < b" for x, folded contains_def]

section \<open>Keeping the position map\<close>

lemma set_positions_get:
  assumes "\<forall>p \<in> set ps. p < length es" "distinct (map metadata_idx es)"
  shows "hm_get (set_positions es ps m) i = Some p \<longleftrightarrow>
    p \<in> set ps \<and> metadata_idx (es ! p) = i \<or>
    (\<forall>q \<in> set ps. metadata_idx (es ! q) \<noteq> i) \<and> hm_get m i = Some p"
  using assms(1)
proof (induction ps arbitrary: m)
  case (Cons q ps)
  have inj: "metadata_idx (es ! a) = metadata_idx (es ! b) \<Longrightarrow> a = b" if "a \<in> set (q # ps)" "b \<in> set (q # ps)" for a b
    using that Cons.prems assms(2) by (metis length_map nth_eq_iff_index_eq nth_map)
  have "hm_get (set_positions es (q # ps) m) i =
      hm_get (set_positions es ps (hm_insert (metadata_idx (es ! q)) q m)) i"
    by (simp add: set_positions_def)
  then show ?case
    using Cons inj by (auto 4 4)
qed (simp add: set_positions_def)

lemma positions_rebuilt:
  assumes "sorted (map te_key es)" "distinct (map metadata_idx es)"
  shows "timeline_wf (rebuild_position_map (line\<lparr>tl_versions := es\<rparr>))"
    "tl_versions (rebuild_position_map (line\<lparr>tl_versions := es\<rparr>)) = es"
  using assms set_positions_get [of "[0..<length es]" es "[]"]
  by (auto simp: timeline_wf_def rebuild_position_map_def)

section \<open>Inserting into a timeline\<close>

lemma insert_point:
  fixes k
  assumes "sorted (map te_key es)"
  defines "p \<equiv> partition_point (\<lambda>e. te_key e < k) es"
  shows "take p es = filter (\<lambda>e. te_key e < k) es" "drop p es = filter (\<lambda>e. \<not> te_key e < k) es"
proof -
  have s: "sorted_wrt (\<lambda>a b. te_key a \<le> te_key b) es"
    using assms by (simp add: sorted_map)
  then have "takeWhile (\<lambda>e. te_key e < k) es = filter (\<lambda>e. te_key e < k) es \<and>
      dropWhile (\<lambda>e. te_key e < k) es = filter (\<lambda>e. \<not> te_key e < k) es"
  proof (induction es)
    case (Cons e es)
    show ?case
    proof (cases "te_key e < k")
      case False
      then have "\<forall>x \<in> set es. \<not> te_key x < k"
        using Cons.prems by (auto dest: order.strict_trans1)
      then show ?thesis
        using False by (auto simp: filter_empty_conv filter_id_conv)
    qed (use Cons in auto)
  qed simp
  then show "take p es = filter (\<lambda>e. te_key e < k) es" "drop p es = filter (\<lambda>e. \<not> te_key e < k) es"
    unfolding p_def partition_point_def by (metis takeWhile_eq_take, metis dropWhile_eq_drop)
qed

lemma sorted_last_le: "sorted (map te_key es) \<Longrightarrow> x \<in> set es \<Longrightarrow> te_key x \<le> te_key (last es)"
  by (induction es) (auto simp: last_conv_nth)

text \<open>Appending at the end is the general insertion, since an index is never inserted twice.\<close>

lemma tl_insert_eq:
  fixes line i a b
  defines "es \<equiv> tl_versions line" and "e \<equiv> \<lparr>te_start = a, te_end = b, metadata_idx = i\<rparr>"
  defines "p \<equiv> partition_point (\<lambda>e. te_key e < (a, i)) es"
  defines "es' \<equiv> take p es @ e # drop p es"
  assumes wf: "timeline_wf line" and fresh: "i \<notin> dom (span_of line)"
  shows "tl_insert a b i line = \<lparr>tl_versions = es',
    metadata_to_position = hm_insert i p (set_positions es' [p + 1..<length es'] (metadata_to_position line))\<rparr>"
proof (cases "es = [] \<or> te_key (last es) \<le> (a, i)")
  case True
  have "te_key x < (a, i)" if "x \<in> set es" for x
  proof -
    have "te_key x \<le> te_key (last es)"
      using wf that by (auto simp: timeline_wf_def es_def intro!: sorted_last_le)
    moreover have "te_key x \<noteq> (a, i)"
      using that fresh by (auto simp: dom_spans es_def te_key_def)
    ultimately show ?thesis
      using True that by force
  qed
  then have all: "takeWhile (\<lambda>e. te_key e < (a, i)) es = es"
    by (simp add: takeWhile_eq_all_conv)
  have "p = length es"
    by (simp only: p_def partition_point_def all)
  then show ?thesis
    using True by (simp add: tl_insert_def Let_def es_def e_def es'_def set_positions_def)
next
  case False
  then show ?thesis
    by (simp add: tl_insert_def Let_def es_def e_def es'_def p_def)
qed

lemma insert_at:
  assumes "p \<le> length es"
  defines "es' \<equiv> \<lambda>e. take p es @ e # drop p es"
  shows "set (es' e) = insert e (set es)" "length (es' e) = Suc (length es)"
    "distinct (map f (es' e)) \<longleftrightarrow> f e \<notin> f ` set es \<and> distinct (map f es)"
    "es' e ! q = (if q < p then es ! q else if q = p then e else es ! (q - 1))"
proof -
  obtain xs ys where es: "es = xs @ ys" "length xs = p"
    using assms(1) by (metis append_take_drop_id length_take min.absorb2)
  then show "set (es' e) = insert e (set es)" "length (es' e) = Suc (length es)"
    "distinct (map f (es' e)) \<longleftrightarrow> f e \<notin> f ` set es \<and> distinct (map f es)"
    "es' e ! q = (if q < p then es ! q else if q = p then e else es ! (q - 1))"
    by (auto simp: es'_def nth_append nth_Cons')
qed

lemma insert_positions:
  fixes e j q
  assumes p: "p \<le> length es"
    and old: "\<And>j q. hm_get m j = Some q \<longleftrightarrow> q < length es \<and> metadata_idx (es ! q) = j"
  defines "es' \<equiv> take p es @ e # drop p es"
  assumes ids: "distinct (map metadata_idx es')"
  shows "hm_get (hm_insert (metadata_idx e) p (set_positions es' [p + 1..<length es'] m)) j = Some q \<longleftrightarrow>
    q < length es' \<and> metadata_idx (es' ! q) = j"
proof -
  note len = insert_at(2,4) [OF p, where e = e, folded es'_def]
  have inj: "metadata_idx (es' ! q) = metadata_idx (es' ! r) \<Longrightarrow> q < length es' \<Longrightarrow> r < length es' \<Longrightarrow> q = r" for r
    using ids by (metis length_map nth_eq_iff_index_eq nth_map)
  have get: "hm_get (set_positions es' [p + 1..<length es'] m) j = Some q \<longleftrightarrow>
      p < q \<and> q < length es' \<and> metadata_idx (es' ! q) = j \<or>
      (\<forall>r. p < r \<and> r < length es' \<longrightarrow> metadata_idx (es' ! r) \<noteq> j) \<and> q < length es \<and> metadata_idx (es ! q) = j"
    using set_positions_get [of "[p + 1..<length es']" es' m j q] ids old by auto
  have above: "\<not> (p \<le> q \<and> q < length es \<and> metadata_idx (es ! q) = j)"
    if "\<forall>r. p < r \<and> r < length es' \<longrightarrow> metadata_idx (es' ! r) \<noteq> j"
    using that [rule_format, of "Suc q"] len(1) len(2) [of "Suc q"] by auto
  have below: "\<not> p < r" if "q < p" "metadata_idx (es ! q) = j" "r < length es'" "metadata_idx (es' ! r) = j" for r
    using that len(1) len(2) [of q] p inj [of r] by auto
  show ?thesis
  proof (cases "j = metadata_idx e")
    case True
    then show ?thesis
      using inj [of p] len(1) len(2) [of p] p by auto
  next
    case False
    then have read: "hm_get (hm_insert (metadata_idx e) p (set_positions es' [p + 1..<length es'] m)) j =
        hm_get (set_positions es' [p + 1..<length es'] m) j"
      by simp
    show ?thesis
      unfolding read get using len(1) len(2) [of q] p False above below
      by (cases q p rule: linorder_cases) auto
  qed
qed

lemma tl_insert_wf:
  assumes wf: "timeline_wf line" and fresh: "i \<notin> dom (span_of line)"
  shows "timeline_wf (tl_insert a b i line)"
    "span_of (tl_insert a b i line) = (span_of line)(i \<mapsto> \<lparr>tr_start = a, tr_end = b\<rparr>)"
proof -
  define es where "es = tl_versions line"
  define e where "e = \<lparr>te_start = a, te_end = b, metadata_idx = i\<rparr>"
  define p where "p = partition_point (\<lambda>e. te_key e < (a, i)) es"
  define es' where "es' = take p es @ e # drop p es"
  let ?m = "metadata_to_position line"
  have old: "sorted (map te_key es)" "distinct (map metadata_idx es)"
    "\<And>j q. hm_get ?m j = Some q \<longleftrightarrow> q < length es \<and> metadata_idx (es ! q) = j"
    using wf by (auto simp: timeline_wf_def es_def)
  have new: "i \<notin> metadata_idx ` set es"
    using fresh by (simp add: dom_spans es_def)
  note cut = insert_point [OF old(1), of "(a, i)", folded p_def]
  have p: "p \<le> length es"
    by (simp add: p_def partition_point_def length_takeWhile_le)
  have run: "tl_insert a b i line = \<lparr>tl_versions = es',
      metadata_to_position = hm_insert i p (set_positions es' [p + 1..<length es'] ?m)\<rparr>"
    using tl_insert_eq [OF wf fresh] by (simp add: es_def e_def p_def es'_def)
  have idx: "metadata_idx e = i" and key: "te_key e = (a, i)"
    by (simp_all add: e_def te_key_def)
  have ids: "set es' = insert e (set es)" "distinct (map metadata_idx es')"
    using old(2) new idx insert_at(1) [OF p, where e = e, folded es'_def]
      insert_at(3) [OF p, where e = e and f = metadata_idx, folded es'_def] by simp_all
  have "sorted (map te_key es')"
    using old(1) new unfolding es'_def cut
    by (auto simp: sorted_append sorted_filter key not_less intro: less_imp_le less_le_trans)
  then show "timeline_wf (tl_insert a b i line)"
    using ids(2) insert_positions [OF p old(3), where e = e, folded es'_def, OF ids(2)] by (simp add: timeline_wf_def run idx)
  show "span_of (tl_insert a b i line) = (span_of line)(i \<mapsto> \<lparr>tr_start = a, tr_end = b\<rparr>)"
  proof
    fix j
    have "spans es' j = Some r \<longleftrightarrow> ((spans es)(i \<mapsto> \<lparr>tr_start = a, tr_end = b\<rparr>)) j = Some r" for r
      using spans_Some [OF ids(2), of j r] spans_Some [OF old(2), of j r] new ids(1) by (auto simp: e_def)
    then show "span_of (tl_insert a b i line) j = ((span_of line)(i \<mapsto> \<lparr>tr_start = a, tr_end = b\<rparr>)) j"
      by (simp add: run flip: es_def) (metis option.exhaust)
  qed
qed

section \<open>Closing an entry\<close>

lemma spans_update:
  assumes "distinct (map metadata_idx es)" "p < length es"
  shows "spans (es[p := (es ! p)\<lparr>te_end := c\<rparr>]) =
    (spans es)(metadata_idx (es ! p) \<mapsto> \<lparr>tr_start = te_start (es ! p), tr_end = c\<rparr>)"
  using assms
proof (induction es arbitrary: p)
  case (Cons e es)
  show ?case
  proof (cases p)
    case (Suc q)
    then have "metadata_idx (es ! q) \<in> metadata_idx ` set es" "metadata_idx e \<notin> metadata_idx ` set es"
      using Cons.prems by simp_all
    then have "metadata_idx (es ! q) \<noteq> metadata_idx e"
      by metis
    then show ?thesis
      using Cons Suc by (auto simp: spans_def fun_eq_iff)
  qed (auto simp: spans_def fun_eq_iff)
qed simp

lemma update_end_time_wf:
  assumes wf: "timeline_wf line" and at: "span_of line i = Some r"
  obtains line' where "update_end_time i c line = (True, line')" "timeline_wf line'"
    "span_of line' = (span_of line)(i \<mapsto> r\<lparr>tr_end := c\<rparr>)"
proof -
  define es where "es = tl_versions line"
  have old: "sorted (map te_key es)" "distinct (map metadata_idx es)"
    "\<And>j q. hm_get (metadata_to_position line) j = Some q \<longleftrightarrow> q < length es \<and> metadata_idx (es ! q) = j"
    using wf by (auto simp: timeline_wf_def es_def)
  obtain p where p: "p < length es" "metadata_idx (es ! p) = i" "r = \<lparr>tr_start = te_start (es ! p), tr_end = te_end (es ! p)\<rparr>"
    using at spans_Some [OF old(2), of i r] by (auto simp: es_def in_set_conv_nth)
  define es' where "es' = es[p := (es ! p)\<lparr>te_end := c\<rparr>]"
  have same: "map te_key es' = map te_key es" "map metadata_idx es' = map metadata_idx es"
    using p(1) by (simp_all add: es'_def map_update te_key_def list_update_same_conv)
  have "update_end_time i c line = (True, line\<lparr>tl_versions := es'\<rparr>)"
    using old(3) [of i p] p by (simp add: update_end_time_def es_def es'_def)
  moreover have "metadata_idx (es' ! q) = metadata_idx (es ! q)" "length es' = length es" for q
    by (cases "q = p") (use p in \<open>auto simp: es'_def nth_list_update\<close>)
  then have "timeline_wf (line\<lparr>tl_versions := es'\<rparr>)"
    using old by (simp add: timeline_wf_def same)
  moreover have "spans es' = (spans es)(i \<mapsto> r\<lparr>tr_end := c\<rparr>)"
    using spans_update [OF old(2) p(1)] p(2,3) by (simp add: es'_def)
  ultimately show thesis
    using that by (simp add: es_def)
qed

section \<open>Batches\<close>

lemma retain_unseen_props:
  "set (retain_unseen seen es) \<subseteq> set es"
  "distinct (map metadata_idx (retain_unseen seen es))"
  "metadata_idx ` set (retain_unseen seen es) = metadata_idx ` set es - seen"
  "sorted_wrt R es \<Longrightarrow> sorted_wrt R (retain_unseen seen es)"
proof -
  show sub: "set (retain_unseen seen es) \<subseteq> set es" for seen es
    by (induction seen es rule: retain_unseen.induct) auto
  show ids: "metadata_idx ` set (retain_unseen seen es) = metadata_idx ` set es - seen" for seen es
    by (induction seen es rule: retain_unseen.induct) auto
  show "distinct (map metadata_idx (retain_unseen seen es))"
  proof (induction seen es rule: retain_unseen.induct)
    case (2 seen e es)
    then show ?case
      using ids [of "insert (metadata_idx e) seen" es] by auto
  qed simp
  show "sorted_wrt R es \<Longrightarrow> sorted_wrt R (retain_unseen seen es)"
  proof (induction seen es rule: retain_unseen.induct)
    case (2 seen e es)
    then show ?case
      using sub [of "insert (metadata_idx e) seen" es] by auto
  qed simp
qed

text \<open>The entry kept for an index is the first one.\<close>

lemma retain_unseen_first:
  "i \<notin> seen \<Longrightarrow> spans (retain_unseen seen es) i = spans es i"
  by (induction seen es rule: retain_unseen.induct) (auto simp: spans_def)

lemma spans_filter: "spans es i = spans (filter (\<lambda>e. metadata_idx e = i) es) i"
  by (induction es) (auto simp: spans_def)

lemma spans_sort: "spans (sort_key te_key es) i = spans (sort_key te_key (filter (\<lambda>e. metadata_idx e = i) es)) i"
  by (subst spans_filter) (simp add: filter_sort)

lemma sort_key_same: "(\<And>a b. a \<in> set xs \<Longrightarrow> b \<in> set xs \<Longrightarrow> f a = f b) \<Longrightarrow> sort_key f xs = xs"
  by (rule sort_key_id_if_sorted) (simp add: sorted_map sorted_wrt_iff_nth_less, metis less_trans nth_mem order_refl)

text \<open>
  A batch under the default policy. An index that was absent gets the entry the batch brings, and an
  index that was present keeps its entry when the batch repeats the start of it.
\<close>

definition batch_fits :: "EntityTimeline \<Rightarrow> TimelineEntry list \<Rightarrow> bool" where
  "batch_fits line es \<longleftrightarrow> (\<forall>e \<in> set es. \<forall>e' \<in> set (tl_versions line @ es).
     metadata_idx e' = metadata_idx e \<longrightarrow> te_start e' = te_start e)"

definition batch_refused :: "TimelineVersionMetadataIndex list \<Rightarrow> DeduplicationPolicy \<Rightarrow> EntityTimeline \<Rightarrow> bool" where
  "batch_refused idxs policy line \<longleftrightarrow>
     idxs \<noteq> [] \<and> policy = Reject \<and> (\<not> distinct idxs \<or> set idxs \<inter> dom (span_of line) \<noteq> {})"

lemma position_known: "timeline_wf line \<Longrightarrow> hm_get (metadata_to_position line) i \<noteq> None \<longleftrightarrow> i \<in> dom (span_of line)"
  unfolding timeline_wf_def dom_spans by (fastforce simp: in_set_conv_nth)

lemma deduplicated:
  assumes "timeline_wf line" "\<not> batch_refused (map metadata_idx es) policy line" "es \<noteq> []"
  defines "ds \<equiv> deduplicate policy (sort_key te_key (tl_versions line @ es))"
  shows "sorted (map te_key ds)" "distinct (map metadata_idx ds)"
    "metadata_idx ` set ds = metadata_idx ` set (tl_versions line @ es)"
proof -
  let ?all = "sort_key te_key (tl_versions line @ es)"
  have all: "sorted_wrt (\<lambda>a b. te_key a \<le> te_key b) ?all"
    using sorted_sort_key [of te_key "tl_versions line @ es"] by (simp only: sorted_map)
  then have "sorted_wrt (\<lambda>a b. te_key a \<le> te_key b) ds"
    using retain_unseen_props(4) [OF all] retain_unseen_props(4) [of "\<lambda>a b. te_key b \<le> te_key a" "rev ?all"]
    by (cases policy) (simp_all add: ds_def deduplicate_def sorted_wrt_rev)
  then show "sorted (map te_key ds)"
    by (simp add: sorted_map)
  have "distinct (map metadata_idx ?all)" if "policy = Reject"
  proof -
    have "distinct (map metadata_idx (tl_versions line @ es))"
      using assms(1-3) that by (auto simp: timeline_wf_def batch_refused_def dom_spans)
    then show ?thesis
      by (simp only: distinct_map distinct_sort set_sort)
  qed
  then show "distinct (map metadata_idx ds)" "metadata_idx ` set ds = metadata_idx ` set (tl_versions line @ es)"
    using retain_unseen_props(2,3)
    by (cases policy; simp add: ds_def deduplicate_def rev_map [symmetric])+
qed

lemma tl_insert_batch_cases:
  assumes wf: "timeline_wf line"
  shows "batch_refused (map metadata_idx es) policy line \<Longrightarrow>
      tl_insert_batch es policy line = (Inl (StorageErr DuplicateId), line)"
    "\<not> batch_refused (map metadata_idx es) policy line \<Longrightarrow>
      \<exists>line'. tl_insert_batch es policy line = (Inr (), line') \<and> timeline_wf line' \<and>
        dom (span_of line') = dom (span_of line) \<union> metadata_idx ` set es"
proof -
  have refuse: "batch_refused (map metadata_idx es) policy line \<longleftrightarrow> es \<noteq> [] \<and> policy = Reject \<and>
      (\<not> distinct (map metadata_idx es) \<or> (\<exists>e \<in> set es. hm_get (metadata_to_position line) (metadata_idx e) \<noteq> None))"
    using position_known [OF wf] by (auto simp: batch_refused_def)
  then show "batch_refused (map metadata_idx es) policy line \<Longrightarrow>
      tl_insert_batch es policy line = (Inl (StorageErr DuplicateId), line)"
    by (simp add: tl_insert_batch_def)
  show "\<exists>line'. tl_insert_batch es policy line = (Inr (), line') \<and> timeline_wf line' \<and>
        dom (span_of line') = dom (span_of line) \<union> metadata_idx ` set es"
    if ok: "\<not> batch_refused (map metadata_idx es) policy line"
  proof (cases "es = []")
    case False
    note d = deduplicated [OF wf ok False]
    show ?thesis
      using positions_rebuilt [OF d(1,2)] d(3) ok [unfolded refuse] False
      by (auto simp: tl_insert_batch_def dom_spans)
  qed (use wf in \<open>simp add: tl_insert_batch_def\<close>)
qed

lemma first_occurrence_spans:
  assumes wf: "timeline_wf line" and fits: "batch_fits line es"
    and run: "tl_insert_batch es FirstOccurrence line = (Inr (), line')"
  shows "span_of line' i = (case span_of line i of None \<Rightarrow> spans es i | Some r \<Rightarrow> Some r)"
proof (cases "es = []")
  case True
  then show ?thesis
    using run by (auto simp: tl_insert_batch_def spans_def split: option.split)
next
  case False
  let ?all = "tl_versions line @ es" and ?at = "\<lambda>e. metadata_idx e = i"
  have "tl_versions line' = retain_unseen {} (sort_key te_key ?all)"
    using run False by (auto simp: tl_insert_batch_def deduplicate_def rebuild_position_map_def)
  then have "span_of line' i = spans (sort_key te_key ?all) i"
    by (simp add: retain_unseen_first)
  also have "\<dots> = spans (sort_key te_key (filter ?at ?all)) i"
    by (rule spans_sort)
  also have "sort_key te_key (filter ?at ?all) = filter ?at ?all"
  proof (rule sort_key_same)
    fix a b
    assume "a \<in> set (filter ?at ?all)" "b \<in> set (filter ?at ?all)"
    then have ab: "a \<in> set ?all" "metadata_idx a = i" "b \<in> set ?all" "metadata_idx b = i"
      by auto
    have "te_start a = te_start b"
    proof (cases "a \<in> set es \<or> b \<in> set es")
      case True
      then show ?thesis
        using fits ab unfolding batch_fits_def by metis
    next
      case False
      moreover have "inj_on metadata_idx (set (tl_versions line))"
        using wf by (simp add: timeline_wf_def distinct_map)
      ultimately have "a = b"
        using ab by (auto dest: inj_onD)
      then show ?thesis
        by simp
    qed
    then show "te_key a = te_key b"
      using ab by (simp add: te_key_def)
  qed
  also have "spans (filter ?at ?all) i = spans ?all i"
    using spans_filter [symmetric] .
  also have "\<dots> = (case span_of line i of None \<Rightarrow> spans es i | Some r \<Rightarrow> Some r)"
    by (simp add: spans_def map_add_def split: option.split)
  finally show ?thesis .
qed

section \<open>The timelines of an entity\<close>

definition timelines_wf :: "EntityTimelines \<Rightarrow> bool" where
  "timelines_wf ts \<longleftrightarrow> distinct (version_metadata ts) \<and> length (version_metadata ts) \<le> 2 ^ 32 \<and>
     (\<forall>v i. find_metadata_index ts v = Some i \<longleftrightarrow>
        unat i < length (version_metadata ts) \<and> version_metadata ts ! unat i = v) \<and>
     timeline_wf (valid_tl ts) \<and> timeline_wf (tx_tl ts) \<and> dom (span_of (valid_tl ts)) = dom (span_of (tx_tl ts)) \<and>
     (\<forall>i \<in> dom (span_of (valid_tl ts)). unat i < length (version_metadata ts))"

definition interval_in :: "EntityTimelines \<Rightarrow> VersionId \<rightharpoonup> BiTemporalInterval" where
  "interval_in ts v =
     (case find_metadata_index ts v of
        None \<Rightarrow> None
      | Some i \<Rightarrow>
          (case (span_of (valid_tl ts) i, span_of (tx_tl ts) i) of
             (Some a, Some b) \<Rightarrow> Some \<lparr>valid_time = a, transaction_time = b\<rparr>
           | _ \<Rightarrow> None))"

lemma timelines_wf_empty [simp]: "timelines_wf empty_timelines" "interval_in empty_timelines = Map.empty"
  by (auto simp: timelines_wf_def empty_timelines_def find_metadata_index_def interval_in_def)

lemma interval_in_Some:
  "interval_in ts v = Some t \<longleftrightarrow> (\<exists>i. find_metadata_index ts v = Some i \<and>
     span_of (valid_tl ts) i = Some (valid_time t) \<and> span_of (tx_tl ts) i = Some (transaction_time t))"
  by (auto simp: interval_in_def split: option.splits)

lemma intersect_props:
  "set (intersect_metadata_indices a b) = set a \<inter> set b"
  "distinct a \<Longrightarrow> distinct b \<Longrightarrow> distinct (intersect_metadata_indices a b)"
  by (auto simp: intersect_metadata_indices_def Let_def)

lemma resolve_all:
  assumes "\<forall>i \<in> set idxs. unat i < length (version_metadata ts)"
  shows "resolve_version_ids ts idxs = Some (map (\<lambda>i. version_metadata ts ! unat i) idxs)"
  using assms by (induction idxs) (auto simp: resolve_version_ids_def resolve_version_id_def)

lemma resolved:
  assumes wf: "timelines_wf ts" and idxs: "distinct idxs" "set idxs \<subseteq> dom (span_of (valid_tl ts))"
  obtains vs where "resolve_version_ids ts idxs = Some vs" "distinct vs"
    "set vs = {v. \<exists>i \<in> set idxs. find_metadata_index ts v = Some i}"
proof -
  let ?md = "version_metadata ts"
  have lt: "\<forall>i \<in> set idxs. unat i < length ?md"
    using wf idxs(2) unfolding timelines_wf_def by blast
  have "inj_on (\<lambda>i. ?md ! unat i) (set idxs)"
    using lt wf by (auto simp: timelines_wf_def inj_on_def nth_eq_iff_index_eq word_unat_eq_iff)
  moreover have "find_metadata_index ts v = Some i \<longleftrightarrow> unat i < length ?md \<and> ?md ! unat i = v" for v i
    using wf unfolding timelines_wf_def by blast
  ultimately show thesis
    using that [OF resolve_all [OF lt]] idxs(1) lt by (auto simp: distinct_map)
qed

text \<open>The binary searches and the intersection find exactly the versions visible at the point.\<close>

lemma point_query:
  assumes wf: "timelines_wf ts"
  obtains vs where "resolve_version_ids ts (intersect_metadata_indices
      (find_indices_at_point (valid_tl ts) v) (find_indices_at_point (tx_tl ts) x)) = Some vs"
    "distinct vs" "set vs = {u. \<exists>t. interval_in ts u = Some t \<and> is_visible_at t v x}"
proof -
  let ?idxs = "intersect_metadata_indices (find_indices_at_point (valid_tl ts) v) (find_indices_at_point (tx_tl ts) x)"
  have tl: "timeline_wf (valid_tl ts)" "timeline_wf (tx_tl ts)"
    using wf by (simp_all add: timelines_wf_def)
  have set: "set ?idxs = {i. (\<exists>r. span_of (valid_tl ts) i = Some r \<and> contains r v) \<and>
      (\<exists>r. span_of (tx_tl ts) i = Some r \<and> contains r x)}" and dist: "distinct ?idxs"
    using filtered_indices [OF tl(1), of "\<lambda>a b. a \<le> v \<and> v < b"] filtered_indices [OF tl(2), of "\<lambda>a b. a \<le> x \<and> x < b"]
    by (auto simp: intersect_props indices_at_point [OF tl(1)] indices_at_point [OF tl(2)] contains_def)
  obtain vs where vs: "resolve_version_ids ts ?idxs = Some vs" "distinct vs"
    "set vs = {v. \<exists>i \<in> set ?idxs. find_metadata_index ts v = Some i}"
    using resolved [OF wf dist] set by blast
  have "set vs = {u. \<exists>t. interval_in ts u = Some t \<and> is_visible_at t v x}"
    unfolding vs(3) set interval_in_Some is_visible_at_def by (auto, metis BiTemporalInterval.select_convs(1,2))
  then show thesis
    using that vs(1,2) by blast
qed

lemma metadata_known:
  assumes wf: "timelines_wf ts" and "v \<in> set (version_metadata ts)"
  shows "find_metadata_index ts v \<noteq> None"
proof -
  obtain n where n: "n < length (version_metadata ts)" "version_metadata ts ! n = v"
    using assms(2) by (auto simp: in_set_conv_nth)
  then have "unat (word_of_nat n :: u32) = n"
    using wf by (simp add: timelines_wf_def unat_of_nat)
  then have "find_metadata_index ts v = Some (word_of_nat n)"
    using wf n unfolding timelines_wf_def by simp
  then show ?thesis
    by simp
qed

lemma add_metadata_wf:
  assumes wf: "timelines_wf ts" and fresh: "find_metadata_index ts v = None"
    and room: "length (version_metadata ts) < 2 ^ 32"
  obtains i ts' where "add_version_metadata v ts = (Inr i, ts')" "timelines_wf ts'"
    "interval_in ts' = interval_in ts" "find_metadata_index ts' = (find_metadata_index ts)(v \<mapsto> i)"
    "i \<notin> dom (span_of (valid_tl ts))" "valid_tl ts' = valid_tl ts" "tx_tl ts' = tx_tl ts"
    "version_metadata ts' = version_metadata ts @ [v]"
proof -
  let ?md = "version_metadata ts" and ?i = "word_of_nat (length (version_metadata ts)) :: u32"
  define ts' where "ts' = ts\<lparr>version_id_to_idx := hm_insert v ?i (version_id_to_idx ts), version_metadata := ?md @ [v]\<rparr>"
  have i: "unat ?i = length ?md"
    using room by (simp add: unat_of_nat)
  have lines: "valid_tl ts' = valid_tl ts" "tx_tl ts' = tx_tl ts"
    by (simp_all add: ts'_def)
  have run: "add_version_metadata v ts = (Inr ?i, ts')"
    using room by (simp add: add_version_metadata_def Let_def ts'_def)
  have at: "find_metadata_index ts u = Some j \<longleftrightarrow> unat j < length ?md \<and> ?md ! unat j = u" for u j
    using wf unfolding timelines_wf_def by blast
  have new: "v \<notin> set ?md"
    using metadata_known [OF wf] fresh by blast
  have out: "?i \<notin> dom (span_of (valid_tl ts))"
    using wf i unfolding timelines_wf_def by (metis less_irrefl)
  have find: "find_metadata_index ts' = (find_metadata_index ts)(v \<mapsto> ?i)"
    by (auto simp: ts'_def find_metadata_index_def)
  have "find_metadata_index ts' u = Some j \<longleftrightarrow> unat j < length (?md @ [v]) \<and> (?md @ [v]) ! unat j = u" for u j
    using at [of u j] new i unfolding find
    by (auto simp: nth_append word_unat_eq_iff less_Suc_eq)
  then have wf': "timelines_wf ts'"
    using wf new room unfolding timelines_wf_def by (auto simp: ts'_def less_SucI)
  have "interval_in ts' u = interval_in ts u" for u
    using out fresh by (auto simp: interval_in_def find lines domIff split: option.split)
  then show thesis
    using that [OF run wf' ext find out lines] by (simp add: ts'_def)
qed

lemma interval_eta [simp]:
  "\<lparr>tr_start = tr_start r, tr_end = tr_end r\<rparr> = r"
  "\<lparr>valid_time = valid_time t, transaction_time = transaction_time t\<rparr> = t"
  by simp_all

lemma owner_unique:
  assumes "timelines_wf ts" "find_metadata_index ts u = Some i" "find_metadata_index ts v = Some i"
  shows "u = v"
  using assms unfolding timelines_wf_def by metis

lemma interval_in_upd:
  assumes wf: "timelines_wf ts" and find: "find_metadata_index ts' = find_metadata_index ts"
    and at: "find_metadata_index ts v = Some i"
    and sp: "span_of (valid_tl ts') = (span_of (valid_tl ts))(i \<mapsto> a)" "span_of (tx_tl ts') = (span_of (tx_tl ts))(i \<mapsto> b)"
  shows "interval_in ts' = (interval_in ts)(v \<mapsto> \<lparr>valid_time = a, transaction_time = b\<rparr>)"
proof
  fix u
  show "interval_in ts' u = ((interval_in ts)(v \<mapsto> \<lparr>valid_time = a, transaction_time = b\<rparr>)) u"
  proof (cases "u = v")
    case True
    then show ?thesis
      using at by (simp add: interval_in_def find sp)
  next
    case False
    then have "find_metadata_index ts u \<noteq> Some i"
      using owner_unique [OF wf _ at] by blast
    then show ?thesis
      using False by (cases "find_metadata_index ts u") (simp_all add: interval_in_def find sp)
  qed
qed

lemma index_both_wf:
  assumes wf: "timelines_wf ts" and at: "find_metadata_index ts v = Some i" and out: "i \<notin> dom (span_of (valid_tl ts))"
  shows "timelines_wf (index_both t i ts)" "interval_in (index_both t i ts) = (interval_in ts)(v \<mapsto> t)"
proof -
  have tl: "timeline_wf (valid_tl ts)" "timeline_wf (tx_tl ts)" "i \<notin> dom (span_of (tx_tl ts))"
    "unat i < length (version_metadata ts)"
    using wf at out by (auto simp: timelines_wf_def)
  note v = tl_insert_wf [OF tl(1) out] and x = tl_insert_wf [OF tl(2,3)]
  have find: "find_metadata_index (index_both t i ts) = find_metadata_index ts"
    by (simp add: find_metadata_index_def index_both_def fun_eq_iff)
  show "timelines_wf (index_both t i ts)"
    using wf v x tl(4) unfolding timelines_wf_def find by (simp add: index_both_def)
  have sp: "span_of (valid_tl (index_both t i ts)) = (span_of (valid_tl ts))(i \<mapsto> valid_time t)"
    "span_of (tx_tl (index_both t i ts)) = (span_of (tx_tl ts))(i \<mapsto> transaction_time t)"
    by (simp_all add: index_both_def v(2) x(2))
  show "interval_in (index_both t i ts) = (interval_in ts)(v \<mapsto> t)"
    using interval_in_upd [OF wf find at sp] by simp
qed

section \<open>The index\<close>

definition index_wf :: "TemporalIndexes \<Rightarrow> bool" where
  "index_wf ix \<longleftrightarrow> (\<forall>k. timelines_wf (timelines_of ix k))"

definition indexed :: "TemporalIndexes \<Rightarrow> EntityId \<Rightarrow> VersionId \<rightharpoonup> BiTemporalInterval" where
  "indexed ix k = interval_in (timelines_of ix k)"

lemma timelines_of_put [simp]: "timelines_of (put_timelines k ts ix) j = (if j = k then ts else timelines_of ix j)"
  by (simp add: timelines_of_def put_timelines_def)

lemma timelines_of_extent [simp]: "timelines_of (ix\<lparr>extent_aggregate := a\<rparr>) = timelines_of ix"
  by (simp add: timelines_of_def fun_eq_iff)

lemma index_wf_start [simp]: "index_wf (TemporalIndexes_with_config n)" "indexed (TemporalIndexes_with_config n) k = Map.empty"
  by (simp_all add: index_wf_def indexed_def timelines_of_def TemporalIndexes_with_config_def)

lemma put_index:
  assumes "index_wf ix" "timelines_wf ts"
  shows "index_wf (put_timelines k ts ix)" "indexed (put_timelines k ts ix) = (indexed ix)(k := interval_in ts)"
  using assms by (auto simp: index_wf_def indexed_def fun_eq_iff)

lemma extent_index [simp]:
  "index_wf (ix\<lparr>extent_aggregate := a\<rparr>) = index_wf ix" "indexed (ix\<lparr>extent_aggregate := a\<rparr>) = indexed ix"
  by (simp_all add: index_wf_def indexed_def fun_eq_iff)

lemma query_via: "hm_get (ti_index ix) k = None \<Longrightarrow> timelines_of ix k = empty_timelines"
  "hm_get (ti_index ix) k = Some ts \<Longrightarrow> timelines_of ix k = ts"
  by (simp_all add: timelines_of_def)

lemma find_at_point:
  assumes "index_wf ix"
  obtains vs where "find_version_at_point ix k v x = Some vs" "distinct vs"
    "set vs = {u. \<exists>t. indexed ix k u = Some t \<and> is_visible_at t v x}"
proof (cases "hm_get (ti_index ix) k")
  case None
  then show thesis
    using that by (simp add: find_version_at_point_def indexed_def query_via)
next
  case (Some ts)
  then have "timelines_wf ts" "indexed ix k = interval_in ts"
    using assms query_via(2) [OF Some] by (auto simp: index_wf_def indexed_def)
  then show thesis
    using that point_query [of ts v x] Some by (auto simp: find_version_at_point_def)
qed

text \<open>Inserting a version: success, the version limit, a duplicate id.\<close>

lemma insert_version_ok:
  assumes wf: "index_wf ix" and room: "length (version_metadata (timelines_of ix k)) < min (ti_max_versions ix) (2 ^ 32)"
    and fresh: "find_metadata_index (timelines_of ix k) vid = None"
  obtains ix' where "insert_version k vid t ix = (Inr (), ix')" "index_wf ix'"
    "indexed ix' = (indexed ix)(k := (indexed ix k)(vid \<mapsto> t))"
    "version_metadata (timelines_of ix' k) = version_metadata (timelines_of ix k) @ [vid]"
proof -
  let ?ts = "timelines_of ix k"
  have ts: "timelines_wf ?ts"
    using wf by (simp add: index_wf_def)
  obtain i ts1 where ts1: "add_version_metadata vid ?ts = (Inr i, ts1)" "timelines_wf ts1"
    "interval_in ts1 = interval_in ?ts" "find_metadata_index ts1 = (find_metadata_index ?ts)(vid \<mapsto> i)"
    "i \<notin> dom (span_of (valid_tl ?ts))" "valid_tl ts1 = valid_tl ?ts" "version_metadata ts1 = version_metadata ?ts @ [vid]"
    using add_metadata_wf [OF ts fresh] room by (metis min_less_iff_conj)
  have at: "find_metadata_index ts1 vid = Some i" "i \<notin> dom (span_of (valid_tl ts1))"
    using ts1(4,5,6) by simp_all
  note both = index_both_wf [OF ts1(2) at, of t]
  let ?ix = "(put_timelines k (index_both t i ts1) ix)\<lparr>extent_aggregate := observe_interval t (extent_aggregate ix)\<rparr>"
  have "insert_version k vid t ix = (Inr (), ?ix)"
    using room fresh ts1(1) by (simp add: insert_version_def Let_def)
  moreover have "index_wf ?ix" "indexed ?ix = (indexed ix)(k := (indexed ix k)(vid \<mapsto> t))"
    using put_index [OF wf both(1)] both(2) ts1(3) by (simp_all add: indexed_def)
  ultimately show thesis
    using that ts1(7) by (simp add: index_both_def)
qed

text \<open>Closing an interval that is in the index reaches it in its timeline; otherwise nothing happens.\<close>

definition end_valid :: "Timestamp \<Rightarrow> BiTemporalInterval \<Rightarrow> BiTemporalInterval" where
  "end_valid c t = \<lparr>valid_time = (valid_time t)\<lparr>tr_end := c\<rparr>, transaction_time = transaction_time t\<rparr>"

definition end_recorded :: "Timestamp \<Rightarrow> BiTemporalInterval \<Rightarrow> BiTemporalInterval" where
  "end_recorded c t = \<lparr>valid_time = valid_time t, transaction_time = (transaction_time t)\<lparr>tr_end := c\<rparr>\<rparr>"

lemma ts_update_valid_wf:
  assumes wf: "timelines_wf ts" and at: "interval_in ts vid = Some t"
  obtains ts' where "ts_update_valid_time_end vid c ts = (True, ts')" "timelines_wf ts'"
    "interval_in ts' = (interval_in ts)(vid \<mapsto> end_valid c t)" "version_metadata ts' = version_metadata ts"
proof -
  obtain i where i: "find_metadata_index ts vid = Some i" "span_of (valid_tl ts) i = Some (valid_time t)"
    "span_of (tx_tl ts) i = Some (transaction_time t)"
    using at by (auto simp: interval_in_Some)
  have "timeline_wf (valid_tl ts)"
    using wf by (simp add: timelines_wf_def)
  then obtain line where line: "update_end_time i c (valid_tl ts) = (True, line)" "timeline_wf line"
    "span_of line = (span_of (valid_tl ts))(i \<mapsto> (valid_time t)\<lparr>tr_end := c\<rparr>)"
    using update_end_time_wf [OF _ i(2)] by blast
  let ?ts = "ts\<lparr>valid_tl := line\<rparr>"
  have find: "find_metadata_index ?ts = find_metadata_index ts"
    by (simp add: find_metadata_index_def fun_eq_iff)
  have "timelines_wf ?ts"
    using wf line i(2) unfolding timelines_wf_def find by (auto simp: insert_absorb domI)
  moreover have "interval_in ?ts = (interval_in ts)(vid \<mapsto> end_valid c t)"
    unfolding end_valid_def by (rule interval_in_upd [OF wf find i(1)]) (simp_all add: line(3) i fun_upd_idem)
  ultimately show thesis
    using that line(1) i(1) by (simp add: ts_update_valid_time_end_def)
qed

lemma ts_update_tx_wf:
  assumes wf: "timelines_wf ts" and at: "interval_in ts vid = Some t"
  obtains ts' where "ts_update_transaction_time_end vid c ts = (True, ts')" "timelines_wf ts'"
    "interval_in ts' = (interval_in ts)(vid \<mapsto> end_recorded c t)" "version_metadata ts' = version_metadata ts"
proof -
  obtain i where i: "find_metadata_index ts vid = Some i" "span_of (valid_tl ts) i = Some (valid_time t)"
    "span_of (tx_tl ts) i = Some (transaction_time t)"
    using at by (auto simp: interval_in_Some)
  have "timeline_wf (tx_tl ts)"
    using wf by (simp add: timelines_wf_def)
  then obtain line where line: "update_end_time i c (tx_tl ts) = (True, line)" "timeline_wf line"
    "span_of line = (span_of (tx_tl ts))(i \<mapsto> (transaction_time t)\<lparr>tr_end := c\<rparr>)"
    using update_end_time_wf [OF _ i(3)] by blast
  let ?ts = "ts\<lparr>tx_tl := line\<rparr>"
  have find: "find_metadata_index ?ts = find_metadata_index ts"
    by (simp add: find_metadata_index_def fun_eq_iff)
  have "timelines_wf ?ts"
    using wf line i(3) unfolding timelines_wf_def find by (auto simp: insert_absorb domI)
  moreover have "interval_in ?ts = (interval_in ts)(vid \<mapsto> end_recorded c t)"
    unfolding end_recorded_def by (rule interval_in_upd [OF wf find i(1)]) (simp_all add: line(3) i fun_upd_idem)
  ultimately show thesis
    using that line(1) i(1) by (simp add: ts_update_transaction_time_end_def)
qed

lemma update_tx_end:
  assumes wf: "index_wf ix" and at: "indexed ix k vid = Some t"
  shows "index_wf (update_transaction_time_end k vid c ix)"
    "indexed (update_transaction_time_end k vid c ix) = (indexed ix)(k := (indexed ix k)(vid \<mapsto> end_recorded c t))"
    "version_metadata (timelines_of (update_transaction_time_end k vid c ix) j) = version_metadata (timelines_of ix j)"
    "ti_max_versions (update_transaction_time_end k vid c ix) = ti_max_versions ix"
proof -
  obtain ts where ts: "hm_get (ti_index ix) k = Some ts" "timelines_of ix k = ts"
    using at query_via [of ix k] by (cases "hm_get (ti_index ix) k") (auto simp: indexed_def)
  have "timelines_wf ts" "interval_in ts vid = Some t"
    using wf at ts(2) by (auto simp: index_wf_def indexed_def)
  then obtain ts' where ts': "ts_update_transaction_time_end vid c ts = (True, ts')" "timelines_wf ts'"
    "interval_in ts' = (interval_in ts)(vid \<mapsto> end_recorded c t)" "version_metadata ts' = version_metadata ts"
    by (rule ts_update_tx_wf)
  have run: "update_transaction_time_end k vid c ix = (put_timelines k ts' ix)\<lparr>extent_aggregate := (extent_aggregate ix)
      \<lparr>tx_latest := observe_closed_end (tx_latest (extent_aggregate ix)) c\<rparr>\<rparr>"
    using ts(1) ts'(1) by (simp add: update_transaction_time_end_def)
  show "index_wf (update_transaction_time_end k vid c ix)"
    "indexed (update_transaction_time_end k vid c ix) = (indexed ix)(k := (indexed ix k)(vid \<mapsto> end_recorded c t))"
    "version_metadata (timelines_of (update_transaction_time_end k vid c ix) j) = version_metadata (timelines_of ix j)"
    "ti_max_versions (update_transaction_time_end k vid c ix) = ti_max_versions ix"
    using put_index [OF wf ts'(2)] ts'(3,4) ts(2) by (simp_all add: run indexed_def put_timelines_def timelines_of_def)
qed

end
