(* ===== verification/TimelineBatch.thy ===== *)
theory TimelineBatch
  imports TimelineQueries
begin

text \<open>
  Batches of versions, the states an index can reach, and the contract of the temporal index:
  queries are exact in every reachable state, a replayed batch changes nothing, and the extent is
  the extent of what is indexed.
\<close>

section \<open>Batches on the index\<close>

definition batch_items ::
  "(BiTemporalInterval \<Rightarrow> TimeRange) \<Rightarrow> (VersionId \<rightharpoonup> TimelineVersionMetadataIndex) \<Rightarrow>
    (VersionId \<times> BiTemporalInterval) list \<Rightarrow> TimelineEntry list" where
  "batch_items dim idx = map (\<lambda>(u, t). entry_for (dim t) (the (idx u)))"

text \<open>The loop gives every version of the batch an index, the one it has or a new one.\<close>

definition extends_metadata :: "EntityTimelines \<Rightarrow> EntityTimelines \<Rightarrow> bool" where
  "extends_metadata ts ts' \<longleftrightarrow> timelines_wf ts' \<and> interval_in ts' = interval_in ts \<and>
     find_metadata_index ts \<subseteq>\<^sub>m find_metadata_index ts' \<and> valid_tl ts' = valid_tl ts \<and> tx_tl ts' = tx_tl ts"

lemma extends_trans: "extends_metadata a b \<Longrightarrow> extends_metadata b c \<Longrightarrow> extends_metadata a c"
  unfolding extends_metadata_def by (auto intro: map_le_trans)

lemma pick_index:
  assumes wf: "timelines_wf ts" and known: "hm_get known \<subseteq>\<^sub>m find_metadata_index ts"
  shows "2 ^ 32 \<le> length (version_metadata ts) \<and> (\<exists>e. batch_index vid known ts = (Inl e, known, ts)) \<or>
    (\<exists>idx known' ts'. batch_index vid known ts = (Inr idx, known', ts') \<and> extends_metadata ts ts' \<and>
       length (version_metadata ts') \<le> Suc (length (version_metadata ts)) \<and>
       find_metadata_index ts' vid = Some idx \<and> hm_get known' \<subseteq>\<^sub>m find_metadata_index ts')"
proof (cases "hm_get known vid")
  case None
  show ?thesis
  proof (cases "find_metadata_index ts vid")
    case new: None
    show ?thesis
    proof (cases "length (version_metadata ts) < 2 ^ 32")
      case True
      then obtain idx ts' where ts': "add_version_metadata vid ts = (Inr idx, ts')" "timelines_wf ts'"
        "interval_in ts' = interval_in ts" "find_metadata_index ts' = (find_metadata_index ts)(vid \<mapsto> idx)"
        "valid_tl ts' = valid_tl ts" "tx_tl ts' = tx_tl ts" "version_metadata ts' = version_metadata ts @ [vid]"
        using add_metadata_wf [OF wf new] by metis
      then have "extends_metadata ts ts'"
        using new by (auto simp: extends_metadata_def map_le_def)
      then show ?thesis
        using ts' None new known by (auto simp: batch_index_def map_le_def)
    next
      case False
      then show ?thesis
        using None new by (auto simp: batch_index_def add_version_metadata_def Let_def)
    qed
  next
    case (Some idx)
    then show ?thesis
      using None wf known by (auto simp: batch_index_def extends_metadata_def map_le_def)
  qed
next
  case (Some idx)
  then have "find_metadata_index ts vid = Some idx"
    using known unfolding map_le_def by (metis domI)
  then show ?thesis
    using Some wf known by (auto simp: batch_index_def extends_metadata_def)
qed

lemma batch_entries_props:
  assumes "timelines_wf ts" "hm_get known \<subseteq>\<^sub>m find_metadata_index ts"
  shows "\<exists>r ts'. batch_entries batch known ts = (r, ts') \<and> extends_metadata ts ts' \<and>
    (length (version_metadata ts) + length batch \<le> 2 ^ 32 \<longrightarrow> (\<exists>p. r = Inr p)) \<and>
    length (version_metadata ts') \<le> length (version_metadata ts) + length batch \<and>
    (\<forall>vs xs. r = Inr (vs, xs) \<longrightarrow> fst ` set batch \<subseteq> dom (find_metadata_index ts') \<and>
       vs = batch_items valid_time (find_metadata_index ts') batch \<and>
       xs = batch_items transaction_time (find_metadata_index ts') batch)"
  using assms
proof (induction batch known ts rule: batch_entries.induct)
  case (1 known ts)
  then show ?case
    by (simp add: extends_metadata_def batch_items_def)
next
  case (2 vid t rest known ts)
  show ?case
  proof (cases "\<exists>e. batch_index vid known ts = (Inl e, known, ts)")
    case True
    then have "2 ^ 32 \<le> length (version_metadata ts)"
      using pick_index [OF "2.prems", of vid] by auto
    then show ?thesis
      using True "2.prems" by (auto simp: extends_metadata_def)
  next
    case False
    then obtain idx known1 ts1 where s1: "batch_index vid known ts = (Inr idx, known1, ts1)" "extends_metadata ts ts1"
      "length (version_metadata ts1) \<le> Suc (length (version_metadata ts))"
      "find_metadata_index ts1 vid = Some idx" "hm_get known1 \<subseteq>\<^sub>m find_metadata_index ts1"
      using pick_index [OF "2.prems", of vid] by blast
    have "timelines_wf ts1"
      using s1(2) by (simp add: extends_metadata_def)
    then obtain r ts2 where s2: "batch_entries rest known1 ts1 = (r, ts2)" "extends_metadata ts1 ts2"
      "length (version_metadata ts1) + length rest \<le> 2 ^ 32 \<Longrightarrow> \<exists>p. r = Inr p"
      "length (version_metadata ts2) \<le> length (version_metadata ts1) + length rest"
      "\<And>vs xs. r = Inr (vs, xs) \<Longrightarrow> fst ` set rest \<subseteq> dom (find_metadata_index ts2) \<and>
         vs = batch_items valid_time (find_metadata_index ts2) rest \<and>
         xs = batch_items transaction_time (find_metadata_index ts2) rest"
      using "2.IH" [OF s1(1) [symmetric] refl refl _ s1(5)] by blast
    have "find_metadata_index ts2 vid = Some idx"
      using s2(2) s1(4) unfolding extends_metadata_def map_le_def by (metis domI)
    then show ?thesis
      using s1(1,3) s2 extends_trans [OF s1(2) s2(2)] by (cases r) (auto simp: batch_items_def)
  qed
qed

lemma batch_items_idx: "map metadata_idx (batch_items dim idx batch) = map (\<lambda>(u, _). the (idx u)) batch"
  by (auto simp: batch_items_def entry_for_def)

text \<open>Both timelines accept a batch or both refuse it.\<close>

lemma both_lines:
  assumes wf: "timelines_wf ts" and known: "fst ` set batch \<subseteq> dom (find_metadata_index ts)"
  defines "idxs \<equiv> map (\<lambda>(u, _). the (find_metadata_index ts u)) batch"
  assumes ok: "\<not> batch_refused idxs policy (valid_tl ts)"
  obtains vl xl where
    "tl_insert_batch (batch_items valid_time (find_metadata_index ts) batch) policy (valid_tl ts) = (Inr (), vl)"
    "tl_insert_batch (batch_items transaction_time (find_metadata_index ts) batch) policy (tx_tl ts) = (Inr (), xl)"
    "timelines_wf (ts\<lparr>valid_tl := vl, tx_tl := xl\<rparr>)"
proof -
  let ?v = "batch_items valid_time (find_metadata_index ts) batch"
    and ?x = "batch_items transaction_time (find_metadata_index ts) batch"
  have lines: "timeline_wf (valid_tl ts)" "timeline_wf (tx_tl ts)" "dom (span_of (valid_tl ts)) = dom (span_of (tx_tl ts))"
    using wf by (simp_all add: timelines_wf_def)
  have ok2: "\<not> batch_refused idxs policy (tx_tl ts)"
    using ok lines(3) by (simp add: batch_refused_def)
  obtain vl where vl: "tl_insert_batch ?v policy (valid_tl ts) = (Inr (), vl)" "timeline_wf vl"
    "dom (span_of vl) = dom (span_of (valid_tl ts)) \<union> set idxs"
    using tl_insert_batch_cases(2) [OF lines(1), of ?v policy] ok batch_items_idx [of valid_time "find_metadata_index ts" batch]
    unfolding idxs_def [symmetric] by (metis list.set_map)
  obtain xl where xl: "tl_insert_batch ?x policy (tx_tl ts) = (Inr (), xl)" "timeline_wf xl"
    "dom (span_of xl) = dom (span_of (tx_tl ts)) \<union> set idxs"
    using tl_insert_batch_cases(2) [OF lines(2), of ?x policy] ok2 batch_items_idx [of transaction_time "find_metadata_index ts" batch]
    unfolding idxs_def [symmetric] by (metis list.set_map)
  have at: "find_metadata_index ts u = Some i \<longleftrightarrow>
      unat i < length (version_metadata ts) \<and> version_metadata ts ! unat i = u" for u i
    using wf unfolding timelines_wf_def by blast
  then have "\<forall>i \<in> set idxs. unat i < length (version_metadata ts)"
    using known by (force simp: idxs_def)
  then have "timelines_wf (ts\<lparr>valid_tl := vl, tx_tl := xl\<rparr>)"
    using wf vl(2,3) xl(2,3) lines(3) unfolding timelines_wf_def by (auto simp: find_metadata_index_def)
  then show thesis
    using that vl(1) xl(1) by blast
qed

lemma batch_keeps:
  assumes wf: "index_wf ix"
  shows "index_wf (snd (insert_versions_batch k batch policy ix))"
proof -
  let ?ts = "timelines_of ix k"
  have ts: "timelines_wf ?ts"
    using wf by (simp add: index_wf_def)
  obtain r ts1 where s1: "batch_entries batch [] ?ts = (r, ts1)" "extends_metadata ?ts ts1"
    "\<And>vs xs. r = Inr (vs, xs) \<Longrightarrow> fst ` set batch \<subseteq> dom (find_metadata_index ts1) \<and>
       vs = batch_items valid_time (find_metadata_index ts1) batch \<and>
       xs = batch_items transaction_time (find_metadata_index ts1) batch"
    using batch_entries_props [OF ts, of "[]" batch] by (auto simp: map_le_def)
  have ts1: "timelines_wf ts1"
    using s1(2) by (simp add: extends_metadata_def)
  note keep = put_index(1) [OF wf ts] put_index(1) [OF wf ts1]
  show ?thesis
  proof (cases r)
    case (Inl e)
    then show ?thesis
      using keep wf s1(1) by (simp add: insert_versions_batch_def Let_def)
  next
    case (Inr p)
    let ?v = "batch_items valid_time (find_metadata_index ts1) batch"
      and ?idxs = "map (\<lambda>(u, _). the (find_metadata_index ts1 u)) batch"
    have items: "fst ` set batch \<subseteq> dom (find_metadata_index ts1)" and
      r: "r = Inr (?v, batch_items transaction_time (find_metadata_index ts1) batch)"
      using Inr s1(3) by (cases p; auto)+
    show ?thesis
    proof (cases "batch_refused ?idxs policy (valid_tl ts1)")
      case True
      then have "tl_insert_batch ?v policy (valid_tl ts1) = (Inl (StorageErr DuplicateId), valid_tl ts1)"
        using tl_insert_batch_cases(1) [of "valid_tl ts1" ?v policy] ts1
        by (simp add: batch_items_idx timelines_wf_def)
      then show ?thesis
        using keep wf s1(1) r by (simp add: insert_versions_batch_def Let_def)
    next
      case False
      then obtain vl xl where l: "tl_insert_batch ?v policy (valid_tl ts1) = (Inr (), vl)"
        "tl_insert_batch (batch_items transaction_time (find_metadata_index ts1) batch) policy (tx_tl ts1) = (Inr (), xl)"
        "timelines_wf (ts1\<lparr>valid_tl := vl, tx_tl := xl\<rparr>)"
        using both_lines [OF ts1 items] by blast
      then show ?thesis
        using keep wf s1(1) r put_index(1) [OF wf l(3)] by (simp add: insert_versions_batch_def Let_def)
    qed
  qed
qed

text \<open>A batch that repeats known versions with their starts, as a replay of the log does.\<close>

definition repeats_starts :: "TemporalIndexes \<Rightarrow> EntityId \<Rightarrow> (VersionId \<times> BiTemporalInterval) list \<Rightarrow> bool" where
  "repeats_starts ix k batch \<longleftrightarrow> (\<forall>(u, t) \<in> set batch. \<forall>t'. (u, t') \<in> set batch \<or> indexed ix k u = Some t' \<longrightarrow>
     tr_start (valid_time t') = tr_start (valid_time t) \<and>
     tr_start (transaction_time t') = tr_start (transaction_time t))"

lemma repeatsD:
  assumes "repeats_starts ix k batch" "(u, t) \<in> set batch" "(u, t') \<in> set batch \<or> indexed ix k u = Some t'"
  shows "tr_start (valid_time t') = tr_start (valid_time t)" "tr_start (transaction_time t') = tr_start (transaction_time t)"
  using bspec [OF assms(1) [unfolded repeats_starts_def] assms(2)] assms(3) by auto

lemma batch_items_fits:
  assumes wf: "timelines_wf ts" and known: "fst ` set batch \<subseteq> dom (find_metadata_index ts)"
    and line: "timeline_wf line"
    and same: "\<And>u t t'. (u, t) \<in> set batch \<Longrightarrow> (u, t') \<in> set batch \<Longrightarrow> tr_start (dim t') = tr_start (dim t)"
    and old: "\<And>u t i r. (u, t) \<in> set batch \<Longrightarrow> find_metadata_index ts u = Some i \<Longrightarrow> span_of line i = Some r \<Longrightarrow>
      tr_start r = tr_start (dim t)"
  shows "batch_fits line (batch_items dim (find_metadata_index ts) batch)"
  unfolding batch_fits_def
proof (intro ballI impI)
  fix e e'
  assume e: "e \<in> set (batch_items dim (find_metadata_index ts) batch)" and
    e': "e' \<in> set (tl_versions line @ batch_items dim (find_metadata_index ts) batch)" and
    idx: "metadata_idx e' = metadata_idx e"
  obtain u t i where u: "(u, t) \<in> set batch" "find_metadata_index ts u = Some i" "e = entry_for (dim t) i"
    using e known by (force simp: batch_items_def)
  show "te_start e' = te_start e"
  proof (cases "e' \<in> set (tl_versions line)")
    case True
    then have "span_of line i = Some \<lparr>tr_start = te_start e', tr_end = te_end e'\<rparr>"
      using line idx u(3) spans_Some [of "tl_versions line" i] by (auto simp: timeline_wf_def entry_for_def)
    then show ?thesis
      using old [OF u(1,2)] u(3) by (simp add: entry_for_def)
  next
    case False
    then obtain u' t' i' where u': "(u', t') \<in> set batch" "find_metadata_index ts u' = Some i'" "e' = entry_for (dim t') i'"
      using e' known by (force simp: batch_items_def)
    then have "u' = u"
      using idx u owner_unique [OF wf u'(2), of u] by (simp add: entry_for_def)
    then show ?thesis
      using same [OF u(1), of t'] u(3) u'(1,3) by (simp add: entry_for_def)
  qed
qed

lemma batch_spans:
  assumes wf: "timelines_wf ts" and known: "fst ` set batch \<subseteq> dom (find_metadata_index ts)"
    and at: "find_metadata_index ts u = Some i"
  shows "spans (batch_items dim (find_metadata_index ts) batch) i = map_option dim (hm_get batch u)"
  using known
proof (induction batch)
  case (Cons b batch)
  obtain w t j where b: "b = (w, t)" "find_metadata_index ts w = Some j"
    using Cons.prems by (cases b) auto
  have "j = i \<longleftrightarrow> w = u"
    using owner_unique [OF wf b(2), of u] at b(2) by force
  then show ?case
    using Cons.IH Cons.prems b by (cases "w = u") (simp_all add: batch_items_def spans_def entry_for_def)
qed (simp add: batch_items_def spans_def)

lemma interval_in_unknown: "find_metadata_index ts u = None \<Longrightarrow> interval_in ts u = None"
  by (simp add: interval_in_def)

lemma repeats_fit:
  assumes wf: "timelines_wf ts1" and ext: "interval_in ts1 = indexed ix k"
    and known: "fst ` set batch \<subseteq> dom (find_metadata_index ts1)" and rep: "repeats_starts ix k batch"
  shows "batch_fits (valid_tl ts1) (batch_items valid_time (find_metadata_index ts1) batch)"
    "batch_fits (tx_tl ts1) (batch_items transaction_time (find_metadata_index ts1) batch)"
proof -
  have dom: "dom (span_of (valid_tl ts1)) = dom (span_of (tx_tl ts1))" and
    lines: "timeline_wf (valid_tl ts1)" "timeline_wf (tx_tl ts1)"
    using wf by (simp_all add: timelines_wf_def)
  have both: "\<exists>t'. indexed ix k u = Some t' \<and> span_of (valid_tl ts1) i = Some (valid_time t') \<and>
      span_of (tx_tl ts1) i = Some (transaction_time t')"
    if at: "find_metadata_index ts1 u = Some i" "i \<in> dom (span_of (valid_tl ts1))" for u i
  proof -
    obtain a b where "span_of (valid_tl ts1) i = Some a" "span_of (tx_tl ts1) i = Some b"
      using at(2) dom by (metis domD)
    then show ?thesis
      using at(1) by (simp add: interval_in_def flip: ext)
  qed
  show "batch_fits (valid_tl ts1) (batch_items valid_time (find_metadata_index ts1) batch)"
  proof (rule batch_items_fits [OF wf known lines(1)])
    show "tr_start (valid_time t') = tr_start (valid_time t)" if "(u, t) \<in> set batch" "(u, t') \<in> set batch" for u t t'
      using repeatsD(1) [OF rep] that by blast
    show "tr_start r = tr_start (valid_time t)"
      if at: "(u, t) \<in> set batch" "find_metadata_index ts1 u = Some i" "span_of (valid_tl ts1) i = Some r" for u t i r
      using repeatsD(1) [OF rep at(1)] both [OF at(2)] at(3) by (auto simp: domIff)
  qed
  show "batch_fits (tx_tl ts1) (batch_items transaction_time (find_metadata_index ts1) batch)"
  proof (rule batch_items_fits [OF wf known lines(2)])
    show "tr_start (transaction_time t') = tr_start (transaction_time t)" if "(u, t) \<in> set batch" "(u, t') \<in> set batch" for u t t'
      using repeatsD(2) [OF rep] that by blast
    show "tr_start r = tr_start (transaction_time t)"
      if at: "(u, t) \<in> set batch" "find_metadata_index ts1 u = Some i" "span_of (tx_tl ts1) i = Some r" for u t i r
      using repeatsD(2) [OF rep at(1)] both [OF at(2)] at(3) unfolding dom by (auto simp: domIff)
  qed
qed

lemma merged_interval:
  assumes ts1: "timelines_wf ts1" "interval_in ts1 = indexed ix k"
    and known: "fst ` set batch \<subseteq> dom (find_metadata_index ts1)" and rep: "repeats_starts ix k batch"
    and l: "tl_insert_batch (batch_items valid_time (find_metadata_index ts1) batch) FirstOccurrence (valid_tl ts1) = (Inr (), vl)"
      "tl_insert_batch (batch_items transaction_time (find_metadata_index ts1) batch) FirstOccurrence (tx_tl ts1) = (Inr (), xl)"
  shows "interval_in (ts1\<lparr>valid_tl := vl, tx_tl := xl\<rparr>) u =
    (case indexed ix k u of None \<Rightarrow> hm_get batch u | Some t \<Rightarrow> Some t)"
proof (cases "find_metadata_index ts1 u")
  case None
  then have "hm_get batch u = None"
    using known by (force simp: map_of_eq_None_iff)
  then show ?thesis
    using None by (simp add: interval_in_def find_metadata_index_def flip: ts1(2))
next
  case (Some i)
  have lines: "timeline_wf (valid_tl ts1)" "timeline_wf (tx_tl ts1)" "dom (span_of (valid_tl ts1)) = dom (span_of (tx_tl ts1))"
    using ts1(1) by (simp_all add: timelines_wf_def)
  note fits = repeats_fit [OF ts1 known rep]
  have v: "span_of vl i = (case span_of (valid_tl ts1) i of None \<Rightarrow> map_option valid_time (hm_get batch u) | Some r \<Rightarrow> Some r)"
    by (simp only: first_occurrence_spans [OF lines(1) fits(1) l(1)] batch_spans [OF ts1(1) known Some])
  have x: "span_of xl i = (case span_of (tx_tl ts1) i of None \<Rightarrow> map_option transaction_time (hm_get batch u) | Some r \<Rightarrow> Some r)"
    by (simp only: first_occurrence_spans [OF lines(2) fits(2) l(2)] batch_spans [OF ts1(1) known Some])
  have "span_of (valid_tl ts1) i = None \<longleftrightarrow> span_of (tx_tl ts1) i = None"
    using lines(3) by (metis domIff)
  then show ?thesis
    using Some v x unfolding ts1(2) [symmetric] interval_in_def find_metadata_index_def
    by (auto split: option.splits)
qed

lemma batch_first_ok:
  assumes wf: "index_wf ix" and rep: "repeats_starts ix k batch"
    and room: "length (version_metadata (timelines_of ix k)) + length batch \<le> min (ti_max_versions ix) (2 ^ 32)"
  obtains ix' where "insert_versions_batch k batch FirstOccurrence ix = (Inr (), ix')" "index_wf ix'"
    "indexed ix' = (indexed ix)(k := (\<lambda>u. case indexed ix k u of None \<Rightarrow> hm_get batch u | Some t \<Rightarrow> Some t))"
proof (cases "batch = []")
  case True
  then have "indexed ix = (indexed ix)(k := (\<lambda>u. case indexed ix k u of None \<Rightarrow> hm_get batch u | Some t \<Rightarrow> Some t))"
    by (auto simp: fun_eq_iff split: option.split)
  then show thesis
    using that [of ix] wf True by (simp add: insert_versions_batch_def)
next
  case False
  let ?ts = "timelines_of ix k"
  have ts: "timelines_wf ?ts"
    using wf by (simp add: index_wf_def)
  obtain ts1 where s1: "batch_entries batch [] ?ts =
      (Inr (batch_items valid_time (find_metadata_index ts1) batch, batch_items transaction_time (find_metadata_index ts1) batch), ts1)"
    "extends_metadata ?ts ts1" "fst ` set batch \<subseteq> dom (find_metadata_index ts1)"
    using batch_entries_props [OF ts, of "[]" batch] room by (auto simp: map_le_def)
  have ts1: "timelines_wf ts1" "interval_in ts1 = indexed ix k"
    using s1(2) by (simp_all add: extends_metadata_def indexed_def)
  obtain vl xl where l: "tl_insert_batch (batch_items valid_time (find_metadata_index ts1) batch) FirstOccurrence (valid_tl ts1) = (Inr (), vl)"
    "tl_insert_batch (batch_items transaction_time (find_metadata_index ts1) batch) FirstOccurrence (tx_tl ts1) = (Inr (), xl)"
    "timelines_wf (ts1\<lparr>valid_tl := vl, tx_tl := xl\<rparr>)"
    using both_lines [OF ts1(1) s1(3), of FirstOccurrence] by (auto simp: batch_refused_def)
  let ?ts2 = "ts1\<lparr>valid_tl := vl, tx_tl := xl\<rparr>"
  define ix' where "ix' = (put_timelines k ?ts2 ix)\<lparr>extent_aggregate := merge_extent (extent_aggregate ix)
      (fold (\<lambda>(_, t). observe_interval t) batch empty_extent)\<rparr>"
  have run: "insert_versions_batch k batch FirstOccurrence ix = (Inr (), ix')"
    using False room s1(1) l(1,2) by (simp add: insert_versions_batch_def Let_def ix'_def)
  have "interval_in ?ts2 u = (case indexed ix k u of None \<Rightarrow> hm_get batch u | Some t \<Rightarrow> Some t)" for u
    by (rule merged_interval [OF ts1 s1(3) rep l(1,2)])
  then have "interval_in ?ts2 = (\<lambda>u. case indexed ix k u of None \<Rightarrow> hm_get batch u | Some t \<Rightarrow> Some t)"
    by (rule ext)
  then show thesis
    using that [OF run] put_index [OF wf l(3)] by (simp add: ix'_def)
qed

end
