(* ===== verification/TimelineContract.thy ===== *)
theory TimelineContract
  imports TimelineBatch
begin

text \<open>
  The contract of the temporal index. A sequence of operations on the index implements the same
  sequence on an abstract table of intervals: queries find exactly the versions whose interval in the
  table qualifies, and the extent is the extent of the table.
\<close>

section \<open>The table\<close>

type_synonym interval_table = "EntityId \<Rightarrow> VersionId \<rightharpoonup> BiTemporalInterval"

datatype index_op =
    Insert EntityId VersionId BiTemporalInterval
  | CloseValid EntityId VersionId Timestamp
  | CloseTx EntityId VersionId Timestamp

primrec index_apply :: "index_op \<Rightarrow> TemporalIndexes \<Rightarrow> TemporalIndexes" where
  "index_apply (Insert k u t) ix = snd (insert_version k u t ix)"
| "index_apply (CloseValid k u c) ix = update_valid_time_end k u c ix"
| "index_apply (CloseTx k u c) ix = update_transaction_time_end k u c ix"

text \<open>A version is entered once, while its entity has fewer than \<open>n\<close> versions.\<close>

primrec table_apply :: "nat \<Rightarrow> index_op \<Rightarrow> interval_table \<Rightarrow> interval_table" where
  "table_apply n (Insert k u t) A =
     (if u \<in> dom (A k) \<or> n \<le> card (dom (A k)) then A else A(k := (A k)(u \<mapsto> t)))"
| "table_apply n (CloseValid k u c) A = A(k := (A k)(u := map_option (end_valid c) (A k u)))"
| "table_apply n (CloseTx k u c) A = A(k := (A k)(u := map_option (end_recorded c) (A k u)))"

section \<open>Every operation\<close>

lemma update_absent:
  assumes wf: "timelines_wf ts" and none: "interval_in ts vid = None"
  shows "ts_update_valid_time_end vid c ts = (False, ts)" "ts_update_transaction_time_end vid c ts = (False, ts)"
proof -
  have "update_end_time i c (valid_tl ts) = (False, valid_tl ts) \<and> update_end_time i c (tx_tl ts) = (False, tx_tl ts)"
    if "find_metadata_index ts vid = Some i" for i
  proof -
    have "span_of (valid_tl ts) i = None \<or> span_of (tx_tl ts) i = None"
      using that none by (cases "span_of (valid_tl ts) i"; cases "span_of (tx_tl ts) i") (simp_all add: interval_in_def)
    moreover have "dom (span_of (valid_tl ts)) = dom (span_of (tx_tl ts))"
      using wf by (simp add: timelines_wf_def)
    ultimately have "i \<notin> dom (span_of (valid_tl ts))" "i \<notin> dom (span_of (tx_tl ts))"
      by (auto simp: domIff)
    then show ?thesis
      using wf position_known [of "valid_tl ts" i] position_known [of "tx_tl ts" i]
      by (simp add: timelines_wf_def update_end_time_def)
  qed
  then show "ts_update_valid_time_end vid c ts = (False, ts)" "ts_update_transaction_time_end vid c ts = (False, ts)"
    by (auto simp: ts_update_valid_time_end_def ts_update_transaction_time_end_def split: option.split)
qed

lemma metadata_iff: "timelines_wf ts \<Longrightarrow> find_metadata_index ts u = None \<longleftrightarrow> u \<notin> set (version_metadata ts)"
  using metadata_known [of ts u] unfolding timelines_wf_def by (metis not_Some_eq nth_mem)

definition index_implements :: "nat \<Rightarrow> TemporalIndexes \<Rightarrow> interval_table \<Rightarrow> bool" where
  "index_implements n ix A \<longleftrightarrow> index_wf ix \<and> indexed ix = A \<and> ti_max_versions ix = n \<and>
     (\<forall>k. set (version_metadata (timelines_of ix k)) = dom (A k))"

lemma implements_put:
  assumes "index_implements n ix A" "timelines_wf ts" "set (version_metadata ts) = dom (interval_in ts)"
  shows "index_implements n (put_timelines k ts ix) (A(k := interval_in ts))"
    "index_implements n ((put_timelines k ts ix)\<lparr>extent_aggregate := a\<rparr>) (A(k := interval_in ts))"
  using assms put_index [of ix ts k] by (auto simp: index_implements_def put_timelines_def timelines_of_def)

lemma implements_entry:
  assumes "index_implements n ix A"
  shows "timelines_wf (timelines_of ix k)" "interval_in (timelines_of ix k) = A k"
    "set (version_metadata (timelines_of ix k)) = dom (A k)"
    "length (version_metadata (timelines_of ix k)) = card (dom (A k))"
    "find_metadata_index (timelines_of ix k) u = None \<longleftrightarrow> u \<notin> dom (A k)"
proof -
  let ?ts = "timelines_of ix k"
  show wf: "timelines_wf ?ts" and A: "interval_in ?ts = A k" and md: "set (version_metadata ?ts) = dom (A k)"
    using assms by (auto simp: index_implements_def index_wf_def indexed_def)
  then show "length (version_metadata ?ts) = card (dom (A k))"
    by (metis distinct_card timelines_wf_def)
  show "find_metadata_index ?ts u = None \<longleftrightarrow> u \<notin> dom (A k)"
    using metadata_iff [OF wf, of u] md by simp
qed

lemma insert_implements:
  assumes im: "index_implements n ix A" and n: "n \<le> 2 ^ 32"
  shows "index_implements n (index_apply (Insert k u t) ix) (table_apply n (Insert k u t) A)"
proof (cases "u \<in> dom (A k) \<or> n \<le> card (dom (A k))")
  case True
  note e = implements_entry [OF im, of k]
  have max: "ti_max_versions ix = n"
    using im by (simp add: index_implements_def)
  have "index_implements n (put_timelines k (timelines_of ix k) ix) A"
    using implements_put(1) [OF im e(1), of k] e(2,3) by simp
  moreover have "index_apply (Insert k u t) ix = put_timelines k (timelines_of ix k) ix"
    using True e(4,5) max by (auto simp: insert_version_def Let_def)
  ultimately show ?thesis
    using True by simp
next
  case False
  note e = implements_entry [OF im, of k]
  have ix: "index_wf ix" "ti_max_versions ix = n" "indexed ix = A"
    using im by (simp_all add: index_implements_def)
  have "length (version_metadata (timelines_of ix k)) < min (ti_max_versions ix) (2 ^ 32)"
    "find_metadata_index (timelines_of ix k) u = None"
    using False n e(4,5) ix(2) by auto
  then obtain ix' where ix': "insert_version k u t ix = (Inr (), ix')" "index_wf ix'"
    "indexed ix' = (indexed ix)(k := (indexed ix k)(u \<mapsto> t))"
    "version_metadata (timelines_of ix' k) = version_metadata (timelines_of ix k) @ [u]"
    using insert_version_ok [OF ix(1)] by metis
  have "timelines_of ix' j = timelines_of ix j" if "j \<noteq> k" for j
    using that ix'(1) by (auto simp: insert_version_def Let_def split: if_splits sum.splits prod.splits)
  moreover have "ti_max_versions ix' = n"
    using ix'(1) ix(2) by (auto simp: insert_version_def Let_def put_timelines_def split: if_splits sum.splits prod.splits)
  ultimately have "index_implements n ix' (A(k := (A k)(u \<mapsto> t)))"
    using ix' ix(3) im by (auto simp: index_implements_def)
  then show ?thesis
    using False ix'(1) by simp
qed

lemma close_implements:
  assumes im: "index_implements n ix A"
  shows "index_implements n (index_apply (CloseValid k u c) ix) (table_apply n (CloseValid k u c) A)"
    "index_implements n (index_apply (CloseTx k u c) ix) (table_apply n (CloseTx k u c) A)"
proof -
  let ?ts = "timelines_of ix k"
  note e = implements_entry [OF im, of k]
  have "index_implements n (index_apply (CloseValid k u c) ix) (table_apply n (CloseValid k u c) A) \<and>
    index_implements n (index_apply (CloseTx k u c) ix) (table_apply n (CloseTx k u c) A)"
  proof (cases "hm_get (ti_index ix) k")
    case None
    then have "A k = Map.empty"
      using e(2) query_via(1) [OF None] by simp
    then show ?thesis
      using None im by (simp add: update_valid_time_end_def update_transaction_time_end_def fun_upd_idem)
  next
    case (Some ts)
    then have ts: "?ts = ts"
      by (rule query_via(2))
    show ?thesis
    proof (cases "A k u")
      case none: None
      then have "interval_in ts u = None" "timelines_wf ts"
        using e(1,2) ts by auto
      then have "index_apply (CloseValid k u c) ix = put_timelines k ts ix" "index_apply (CloseTx k u c) ix = put_timelines k ts ix"
        using update_absent Some by (auto simp: update_valid_time_end_def update_transaction_time_end_def)
      then show ?thesis
        using implements_put(1) [OF im e(1), of k] e(2,3) none ts by (simp add: fun_upd_idem)
    next
      case t: (Some t)
      then have at: "interval_in ts u = Some t" "timelines_wf ts"
        using e(1,2) ts by auto
      obtain v where v: "ts_update_valid_time_end u c ts = (True, v)" "timelines_wf v"
        "interval_in v = (interval_in ts)(u \<mapsto> end_valid c t)" "version_metadata v = version_metadata ts"
        using ts_update_valid_wf [OF at(2,1)] by blast
      obtain x where x: "ts_update_transaction_time_end u c ts = (True, x)" "timelines_wf x"
        "interval_in x = (interval_in ts)(u \<mapsto> end_recorded c t)" "version_metadata x = version_metadata ts"
        using ts_update_tx_wf [OF at(2,1)] by blast
      have "set (version_metadata v) = dom (interval_in v)" "set (version_metadata x) = dom (interval_in x)"
        using v(3,4) x(3,4) e(2,3) ts t by auto
      then show ?thesis
        using implements_put(2) [OF im v(2)] implements_put(2) [OF im x(2)] v(1,3) x(1,3) e(2) ts t Some
        by (simp add: update_valid_time_end_def update_transaction_time_end_def)
    qed
  qed
  then show "index_implements n (index_apply (CloseValid k u c) ix) (table_apply n (CloseValid k u c) A)"
    "index_implements n (index_apply (CloseTx k u c) ix) (table_apply n (CloseTx k u c) A)"
    by auto
qed

lemma run_implements:
  assumes "n \<le> 2 ^ 32" "index_implements n ix A"
  shows "index_implements n (fold index_apply ops ix) (fold (table_apply n) ops A)"
  using assms(2)
proof (induction ops arbitrary: ix A)
  case (Cons p ops)
  have "index_implements n (index_apply p ix) (table_apply n p A)"
    using insert_implements [OF Cons.prems assms(1)] close_implements [OF Cons.prems] by (cases p) blast+
  then show ?case
    using Cons.IH by simp
qed simp

lemma start_implements: "index_implements n (TemporalIndexes_with_config n) (\<lambda>_. Map.empty)"
proof -
  have "timelines_of (TemporalIndexes_with_config n) k = empty_timelines" for k
    by (simp add: timelines_of_def TemporalIndexes_with_config_def)
  moreover have "ti_max_versions (TemporalIndexes_with_config n) = n"
    by (simp add: TemporalIndexes_with_config_def)
  ultimately show ?thesis
    by (simp add: index_implements_def fun_eq_iff empty_timelines_def)
qed

lemma interval_dim:
  assumes wf: "timelines_wf ts"
  shows "(\<exists>i r. find_metadata_index ts u = Some i \<and> span_of (valid_tl ts) i = Some r \<and> Q r) \<longleftrightarrow>
      (\<exists>t. interval_in ts u = Some t \<and> Q (valid_time t))"
    "(\<exists>i r. find_metadata_index ts u = Some i \<and> span_of (tx_tl ts) i = Some r \<and> Q r) \<longleftrightarrow>
      (\<exists>t. interval_in ts u = Some t \<and> Q (transaction_time t))"
proof -
  have "span_of (valid_tl ts) i = None \<longleftrightarrow> span_of (tx_tl ts) i = None" for i
    using wf unfolding timelines_wf_def by (metis domIff)
  then show "(\<exists>i r. find_metadata_index ts u = Some i \<and> span_of (valid_tl ts) i = Some r \<and> Q r) \<longleftrightarrow>
      (\<exists>t. interval_in ts u = Some t \<and> Q (valid_time t))"
    "(\<exists>i r. find_metadata_index ts u = Some i \<and> span_of (tx_tl ts) i = Some r \<and> Q r) \<longleftrightarrow>
      (\<exists>t. interval_in ts u = Some t \<and> Q (transaction_time t))"
    by (auto simp: interval_in_def split: option.split) (metis option.distinct(1))+
qed

definition touches :: "TimeRange \<Rightarrow> TimeRange \<Rightarrow> bool" where
  "touches r q \<longleftrightarrow> tr_start r < tr_end q \<and> tr_start q < tr_end r"

lemma line_query:
  assumes wf: "timelines_wf ts" and line: "timeline_wf line" "dom (span_of line) = dom (span_of (valid_tl ts))"
  obtains vs where "resolve_version_ids ts (find_indices_in_range line q) = Some vs" "distinct vs"
    "set vs = {u. \<exists>i r. find_metadata_index ts u = Some i \<and> span_of line i = Some r \<and> touches r q}"
proof -
  note f = filtered_indices [OF line(1), of "\<lambda>a b. a < tr_end q \<and> tr_start q < b", folded indices_in_range [OF line(1)]]
  have "set (find_indices_in_range line q) \<subseteq> dom (span_of (valid_tl ts))"
    using f(2) line(2) by auto
  then obtain vs where "resolve_version_ids ts (find_indices_in_range line q) = Some vs" "distinct vs"
    "set vs = {v. \<exists>i \<in> set (find_indices_in_range line q). find_metadata_index ts v = Some i}"
    using resolved [OF wf f(1)] by blast
  then show thesis
    using that unfolding f(2) touches_def by blast
qed

lemma range_queries:
  assumes "index_wf ix"
  shows "\<exists>vs. find_versions_in_valid_time_range ix k q = Some vs \<and> distinct vs \<and>
      set vs = {u. \<exists>t. indexed ix k u = Some t \<and> touches (valid_time t) q}"
    "\<exists>vs. find_versions_in_transaction_time_range ix k q = Some vs \<and> distinct vs \<and>
      set vs = {u. \<exists>t. indexed ix k u = Some t \<and> touches (transaction_time t) q}"
proof -
  have wf: "timelines_wf (timelines_of ix k)"
    using assms by (simp add: index_wf_def)
  then have lines: "timeline_wf (valid_tl (timelines_of ix k))" "timeline_wf (tx_tl (timelines_of ix k))"
    "dom (span_of (tx_tl (timelines_of ix k))) = dom (span_of (valid_tl (timelines_of ix k)))"
    by (simp_all add: timelines_wf_def)
  obtain vs where vs: "resolve_version_ids (timelines_of ix k) (find_indices_in_range (valid_tl (timelines_of ix k)) q) = Some vs"
      "distinct vs" "set vs = {u. \<exists>t. indexed ix k u = Some t \<and> touches (valid_time t) q}"
    using line_query [OF wf lines(1) refl, of q] unfolding indexed_def interval_dim(1) [OF wf] by blast
  obtain xs where xs: "resolve_version_ids (timelines_of ix k) (find_indices_in_range (tx_tl (timelines_of ix k)) q) = Some xs"
      "distinct xs" "set xs = {u. \<exists>t. indexed ix k u = Some t \<and> touches (transaction_time t) q}"
    using line_query [OF wf lines(2,3), of q] unfolding indexed_def interval_dim(2) [OF wf] by blast
  show "\<exists>vs. find_versions_in_valid_time_range ix k q = Some vs \<and> distinct vs \<and>
      set vs = {u. \<exists>t. indexed ix k u = Some t \<and> touches (valid_time t) q}"
  proof (cases "hm_get (ti_index ix) k")
    case None
    then show ?thesis
      by (simp add: find_versions_in_valid_time_range_def indexed_def query_via(1))
  next
    case (Some ts)
    then show ?thesis
      using vs query_via(2) [OF Some] by (simp add: find_versions_in_valid_time_range_def)
  qed
  show "\<exists>vs. find_versions_in_transaction_time_range ix k q = Some vs \<and> distinct vs \<and>
      set vs = {u. \<exists>t. indexed ix k u = Some t \<and> touches (transaction_time t) q}"
  proof (cases "hm_get (ti_index ix) k")
    case None
    then show ?thesis
      by (simp add: find_versions_in_transaction_time_range_def indexed_def query_via(1))
  next
    case (Some ts)
    then show ?thesis
      using xs query_via(2) [OF Some] by (simp add: find_versions_in_transaction_time_range_def)
  qed
qed

section \<open>The extent\<close>

definition latest_of :: "TimeRange \<Rightarrow> Timestamp" where
  "latest_of r = (if tr_end r = TIMESTAMP_MAX then tr_start r else tr_end r)"

text \<open>The earliest start and the latest finite coordinate of a set of ranges.\<close>

definition bounds :: "TimeRange set \<Rightarrow> Timestamp option \<Rightarrow> Timestamp option \<Rightarrow> bool" where
  "bounds R e l \<longleftrightarrow> R = {} \<and> e = None \<and> l = None \<or>
     (\<exists>a \<in> R. \<exists>b \<in> R. e = Some (tr_start a) \<and> l = Some (latest_of b) \<and>
        (\<forall>r \<in> R. tr_start a \<le> tr_start r \<and> latest_of r \<le> latest_of b))"

lemma bounds_shape: "bounds R e l \<Longrightarrow> (e = None \<longleftrightarrow> R = {}) \<and> (l = None \<longleftrightarrow> R = {})"
  by (auto simp: bounds_def)

lemma bounds_insert:
  assumes "bounds R e l"
  shows "bounds (insert r R) (min_with e (tr_start r)) (max_with l (latest_of r))"
proof (cases "R = {}")
  case False
  then obtain a b where ab: "a \<in> R" "b \<in> R" "e = Some (tr_start a)" "l = Some (latest_of b)"
    "\<forall>r \<in> R. tr_start a \<le> tr_start r \<and> latest_of r \<le> latest_of b"
    using assms by (auto simp: bounds_def)
  define a' where "a' = (if tr_start a \<le> tr_start r then a else r)"
  define b' where "b' = (if latest_of r \<le> latest_of b then b else r)"
  have "a' \<in> insert r R" "b' \<in> insert r R" "min_with e (tr_start r) = Some (tr_start a')"
    "max_with l (latest_of r) = Some (latest_of b')"
    using ab(1-4) by (auto simp: a'_def b'_def min_with_def max_with_def min_def max_def)
  moreover have "\<forall>q \<in> insert r R. tr_start a' \<le> tr_start q \<and> latest_of q \<le> latest_of b'"
    using ab(5) by (auto simp: a'_def b'_def)
  ultimately show ?thesis
    unfolding bounds_def by blast
qed (use assms in \<open>auto simp: bounds_def min_with_def max_with_def\<close>)

lemma bounds_close:
  assumes "bounds R e l" "r \<in> R" "tr_end r = TIMESTAMP_MAX" "tr_start r \<le> c" "c \<noteq> TIMESTAMP_MAX"
    and R': "insert (r\<lparr>tr_end := c\<rparr>) (R - {r}) \<subseteq> R'" "R' \<subseteq> insert (r\<lparr>tr_end := c\<rparr>) R"
  shows "bounds R' e (observe_closed_end l c)"
proof -
  let ?r = "r\<lparr>tr_end := c\<rparr>"
  obtain a b where ab: "a \<in> R" "b \<in> R" "e = Some (tr_start a)" "l = Some (latest_of b)"
    "\<forall>r \<in> R. tr_start a \<le> tr_start r \<and> latest_of r \<le> latest_of b"
    using assms(1,2) by (auto simp: bounds_def)
  have new: "latest_of ?r = c" "tr_start ?r = tr_start r" "latest_of r \<le> c" "?r \<in> R'"
    using assms(3-6) by (auto simp: latest_of_def)
  define a' where "a' = (if a = r then ?r else a)"
  define b' where "b' = (if latest_of b \<le> c then ?r else b)"
  have "a' \<in> R'" "tr_start a' = tr_start a" "observe_closed_end l c = Some (latest_of b')"
    using ab(1,4) new R' assms(5) by (auto simp: a'_def b'_def observe_closed_end_def max_with_def max_def)
  moreover have "b' \<in> R'"
    using ab(2) new(3,4) R' by (auto simp: b'_def)
  moreover have "tr_start a \<le> tr_start q \<and> latest_of q \<le> latest_of b'" if "q \<in> R'" for q
  proof -
    have q: "q = ?r \<or> q \<in> R"
      using that R'(2) by blast
    have "latest_of b' = max (latest_of b) c"
      using new(1) by (simp add: b'_def max_def)
    then show ?thesis
      using q ab(5) assms(2) new(1,2) by (auto simp: le_max_iff_disj)
  qed
  ultimately show ?thesis
    using ab(3) unfolding bounds_def by metis
qed

text \<open>Only open intervals are closed, at a finite time that is not before their start.\<close>

definition may_close :: "TimeRange \<Rightarrow> Timestamp \<Rightarrow> bool" where
  "may_close r c \<longleftrightarrow> tr_end r = TIMESTAMP_MAX \<and> tr_start r \<le> c \<and> c \<noteq> TIMESTAMP_MAX"

primrec op_ok :: "index_op \<Rightarrow> interval_table \<Rightarrow> bool" where
  "op_ok (Insert k u t) A = True"
| "op_ok (CloseValid k u c) A = (case A k u of None \<Rightarrow> True | Some t \<Rightarrow> may_close (valid_time t) c)"
| "op_ok (CloseTx k u c) A = (case A k u of None \<Rightarrow> True | Some t \<Rightarrow> may_close (transaction_time t) c)"

fun ops_ok :: "nat \<Rightarrow> interval_table \<Rightarrow> index_op list \<Rightarrow> bool" where
  "ops_ok n A [] = True"
| "ops_ok n A (p # ops) = (op_ok p A \<and> ops_ok n (table_apply n p A) ops)"

definition entered :: "interval_table \<Rightarrow> BiTemporalInterval set" where
  "entered A = {t. \<exists>k u. A k u = Some t}"

definition extent_of :: "ExtentAggregate \<Rightarrow> interval_table \<Rightarrow> bool" where
  "extent_of a A \<longleftrightarrow> bounds (valid_time ` entered A) (valid_earliest a) (valid_latest a) \<and>
     bounds (transaction_time ` entered A) (tx_earliest a) (tx_latest a)"

lemma entered_insert: "A k u = None \<Longrightarrow> entered (A(k := (A k)(u \<mapsto> t))) = insert t (entered A)"
  unfolding entered_def by (auto split: if_splits) (metis option.distinct(1))+

lemma extent_observe:
  assumes "extent_of a A" "A k u = None"
  shows "extent_of (observe_interval t a) (A(k := (A k)(u \<mapsto> t)))"
  using assms bounds_insert [of "valid_time ` entered A" _ _ "valid_time t"]
    bounds_insert [of "transaction_time ` entered A" _ _ "transaction_time t"]
  by (simp add: extent_of_def entered_insert [of A k u t, OF assms(2)] observe_interval_def observe_range_def latest_of_def)

lemma entered_upd:
  assumes "A k u = Some t"
  shows "insert t' (entered A - {t}) \<subseteq> entered (A(k := (A k)(u \<mapsto> t')))"
    "entered (A(k := (A k)(u \<mapsto> t'))) \<subseteq> insert t' (entered A)" "t \<in> entered A"
proof -
  have "x \<in> entered (A(k := (A k)(u \<mapsto> t')))" if x: "x \<in> entered A" "x \<noteq> t" for x
  proof -
    obtain j w where "A j w = Some x"
      using x(1) by (auto simp: entered_def)
    moreover have "(A(k := (A k)(u \<mapsto> t'))) j w = A j w"
      using x(2) assms calculation by auto
    ultimately show ?thesis
      unfolding entered_def by (metis (mono_tags, lifting) mem_Collect_eq)
  qed
  moreover have "(A(k := (A k)(u \<mapsto> t'))) k u = Some t'"
    by simp
  ultimately show "insert t' (entered A - {t}) \<subseteq> entered (A(k := (A k)(u \<mapsto> t')))"
    unfolding entered_def by blast
  show "entered (A(k := (A k)(u \<mapsto> t'))) \<subseteq> insert t' (entered A)" "t \<in> entered A"
    using assms by (auto simp: entered_def split: if_splits)
qed

lemma close_range:
  assumes "bounds (f ` entered A) e l" "A k u = Some t" "may_close (f t) c" "f t' = (f t)\<lparr>tr_end := c\<rparr>"
  shows "bounds (f ` entered (A(k := (A k)(u \<mapsto> t')))) e (observe_closed_end l c)"
proof (rule bounds_close [OF assms(1)])
  note s = entered_upd(1,2) [of A k u t t', OF assms(2)] entered_upd(3) [of A k u t, OF assms(2)]
  show "f t \<in> f ` entered A" "tr_end (f t) = TIMESTAMP_MAX" "tr_start (f t) \<le> c" "c \<noteq> TIMESTAMP_MAX"
    using s(3) assms(3) by (auto simp: may_close_def)
  have "insert (f t') (f ` entered A - {f t}) \<subseteq> f ` insert t' (entered A - {t})"
    by auto
  then show "insert ((f t)\<lparr>tr_end := c\<rparr>) (f ` entered A - {f t}) \<subseteq> f ` entered (A(k := (A k)(u \<mapsto> t')))"
    unfolding assms(4) [symmetric] using image_mono [OF s(1), of f] by (rule subset_trans)
  show "f ` entered (A(k := (A k)(u \<mapsto> t'))) \<subseteq> insert ((f t)\<lparr>tr_end := c\<rparr>) (f ` entered A)"
    using image_mono [OF s(2), of f] assms(4) by simp
qed

lemma keep_range:
  assumes "A k u = Some t" "f t' = f t"
  shows "f ` entered (A(k := (A k)(u \<mapsto> t'))) = f ` entered A"
proof -
  have "f ` insert t' (entered A - {t}) = f ` entered A" "f ` insert t' (entered A) = f ` entered A"
    using entered_upd(3) [of A k u t, OF assms(1)] assms(2) by auto
  then show ?thesis
    using image_mono [OF entered_upd(1) [of A k u t t', OF assms(1)], of f]
      image_mono [OF entered_upd(2) [of A k u t t', OF assms(1)], of f] by simp
qed

lemma extent_insert:
  assumes im: "index_implements n ix A" and n: "n \<le> 2 ^ 32" and ext: "extent_of (extent_aggregate ix) A"
  shows "extent_of (extent_aggregate (index_apply (Insert k u t) ix)) (table_apply n (Insert k u t) A)"
proof -
  note e = implements_entry [OF im, of k]
  have max: "ti_max_versions ix = n"
    using im by (simp add: index_implements_def)
  show ?thesis
  proof (cases "u \<in> dom (A k) \<or> n \<le> card (dom (A k))")
    case True
    then show ?thesis
      using e(4,5) max ext by (auto simp: insert_version_def Let_def put_timelines_def)
  next
    case False
    then have "\<exists>i ts. add_version_metadata u (timelines_of ix k) = (Inr i, ts)"
      using e(4) n by (auto simp: add_version_metadata_def Let_def)
    then have "extent_aggregate (snd (insert_version k u t ix)) = observe_interval t (extent_aggregate ix)"
      using False e(4,5) max by (auto simp: insert_version_def Let_def)
    then show ?thesis
      using False extent_observe [OF ext, of k u t] by (auto simp: domIff)
  qed
qed

lemma extent_close:
  assumes im: "index_implements n ix A" and ext: "extent_of (extent_aggregate ix) A"
  shows "op_ok (CloseValid k u c) A \<Longrightarrow>
      extent_of (extent_aggregate (index_apply (CloseValid k u c) ix)) (table_apply n (CloseValid k u c) A)"
    "op_ok (CloseTx k u c) A \<Longrightarrow>
      extent_of (extent_aggregate (index_apply (CloseTx k u c) ix)) (table_apply n (CloseTx k u c) A)"
proof -
  let ?ts = "timelines_of ix k"
  note e = implements_entry [OF im, of k]
  have "(op_ok (CloseValid k u c) A \<longrightarrow>
      extent_of (extent_aggregate (index_apply (CloseValid k u c) ix)) (table_apply n (CloseValid k u c) A)) \<and>
    (op_ok (CloseTx k u c) A \<longrightarrow>
      extent_of (extent_aggregate (index_apply (CloseTx k u c) ix)) (table_apply n (CloseTx k u c) A))"
  proof (cases "A k u")
    case None
    then have "interval_in ?ts u = None"
      using e(2) by simp
    note absent = update_absent [OF e(1) this, of c]
    have "extent_aggregate (index_apply (CloseValid k u c) ix) = extent_aggregate ix"
      "extent_aggregate (index_apply (CloseTx k u c) ix) = extent_aggregate ix"
      using absent query_via(2) [of ix k] by (cases "hm_get (ti_index ix) k";
        simp add: update_valid_time_end_def update_transaction_time_end_def put_timelines_def)+
    moreover have "table_apply n (CloseValid k u c) A = A" "table_apply n (CloseTx k u c) A = A"
      using None by (simp_all add: fun_upd_idem)
    ultimately show ?thesis
      using ext by (simp only: simp_thms)
  next
    case (Some t)
    have "hm_get (ti_index ix) k \<noteq> None"
      using e(2) query_via(1) [of ix k] Some by (metis option.distinct(1) timelines_wf_empty(2))
    then obtain ts where ts: "hm_get (ti_index ix) k = Some ts" "?ts = ts"
      using query_via(2) by blast
    have at: "interval_in ts u = Some t" "timelines_wf ts"
      using e(1,2) ts(2) Some by auto
    obtain v x where "ts_update_valid_time_end u c ts = (True, v)" "ts_update_transaction_time_end u c ts = (True, x)"
      using ts_update_valid_wf [OF at(2,1)] ts_update_tx_wf [OF at(2,1)] by metis
    then have agg: "extent_aggregate (index_apply (CloseValid k u c) ix) = (extent_aggregate ix)
        \<lparr>valid_latest := observe_closed_end (valid_latest (extent_aggregate ix)) c\<rparr>"
      "extent_aggregate (index_apply (CloseTx k u c) ix) = (extent_aggregate ix)
        \<lparr>tx_latest := observe_closed_end (tx_latest (extent_aggregate ix)) c\<rparr>"
      using ts(1) by (simp_all add: update_valid_time_end_def update_transaction_time_end_def)
    have tab: "table_apply n (CloseValid k u c) A = A(k := (A k)(u \<mapsto> end_valid c t))"
      "table_apply n (CloseTx k u c) A = A(k := (A k)(u \<mapsto> end_recorded c t))"
      using Some by simp_all
    have keep: "valid_time ` entered (A(k := (A k)(u \<mapsto> end_recorded c t))) = valid_time ` entered A"
      "transaction_time ` entered (A(k := (A k)(u \<mapsto> end_valid c t))) = transaction_time ` entered A"
      by (rule keep_range [of A k u t, OF Some], simp add: end_valid_def end_recorded_def)+
    have b: "bounds (valid_time ` entered A) (valid_earliest (extent_aggregate ix)) (valid_latest (extent_aggregate ix))"
      "bounds (transaction_time ` entered A) (tx_earliest (extent_aggregate ix)) (tx_latest (extent_aggregate ix))"
      using ext by (simp_all add: extent_of_def)
    note c = close_range [of valid_time A, OF b(1) Some, of c "end_valid c t"]
      close_range [of transaction_time A, OF b(2) Some, of c "end_recorded c t"]
    show ?thesis
      unfolding agg tab extent_of_def keep using b c Some by (auto simp: end_valid_def end_recorded_def)
  qed
  then show "op_ok (CloseValid k u c) A \<Longrightarrow>
      extent_of (extent_aggregate (index_apply (CloseValid k u c) ix)) (table_apply n (CloseValid k u c) A)"
    "op_ok (CloseTx k u c) A \<Longrightarrow>
      extent_of (extent_aggregate (index_apply (CloseTx k u c) ix)) (table_apply n (CloseTx k u c) A)"
    by auto
qed

lemma run_extent:
  assumes "n \<le> 2 ^ 32" "index_implements n ix A" "extent_of (extent_aggregate ix) A" "ops_ok n A ops"
  shows "extent_of (extent_aggregate (fold index_apply ops ix)) (fold (table_apply n) ops A)"
  using assms(2-4)
proof (induction ops arbitrary: ix A)
  case (Cons p ops)
  have "index_implements n (index_apply p ix) (table_apply n p A)"
    using run_implements [OF assms(1) Cons.prems(1), of "[p]"] by simp
  moreover have "extent_of (extent_aggregate (index_apply p ix)) (table_apply n p A)"
    using extent_insert [OF Cons.prems(1) assms(1) Cons.prems(2)] extent_close [OF Cons.prems(1,2)] Cons.prems(3)
    by (cases p) auto
  ultimately show ?case
    using Cons.IH Cons.prems(3) by simp
qed simp

section \<open>The contract\<close>

abbreviation index_after :: "nat \<Rightarrow> index_op list \<Rightarrow> TemporalIndexes" where
  "index_after n ops \<equiv> fold index_apply ops (TemporalIndexes_with_config n)"

abbreviation table_after :: "nat \<Rightarrow> index_op list \<Rightarrow> interval_table" where
  "table_after n ops \<equiv> fold (table_apply n) ops (\<lambda>_. Map.empty)"

lemma after_implements: "n \<le> 2 ^ 32 \<Longrightarrow> index_implements n (index_after n ops) (table_after n ops)"
  using run_implements start_implements by blast

abbreviation index_range :: "i64 \<Rightarrow> Timestamp \<Rightarrow> TimeRange" where
  "index_range a e \<equiv> \<lparr>tr_start = HybridTimestamp a 0, tr_end = e\<rparr>"

abbreviation index_interval :: "i64 \<Rightarrow> i64 \<Rightarrow> BiTemporalInterval" where
  "index_interval v x \<equiv> \<lparr>valid_time = index_range v TIMESTAMP_MAX, transaction_time = index_range x TIMESTAMP_MAX\<rparr>"

definition index_demo :: "index_op list" where
  "index_demo = [Insert (Node (NodeId 1)) (VersionId 1) (index_interval 10 5),
     CloseTx (Node (NodeId 1)) (VersionId 1) (HybridTimestamp 8 0),
     Insert (Node (NodeId 1)) (VersionId 2) (index_interval 3 8)]"

lemma million_fits: "(1000000 :: nat) \<le> 2 ^ 32"
  by simp

lemma index_demo_times:
  "HybridTimestamp 5 0 \<le> HybridTimestamp 8 0" "HybridTimestamp 8 0 \<noteq> TIMESTAMP_MAX"
  by code_simp+

text \<open>
  C6: The temporal index implements a table of intervals. After any sequence of insertions and closed
  intervals, a point query returns without a panic the versions whose interval in the table contains
  the point, each once, and the two range queries return the versions whose interval touches the
  range. Insertions beyond the version limit and repeated versions leave the table as it is.
\<close>

theorem index_refines_table:
  assumes "n \<le> 2 ^ 32"
  shows "(\<exists>vs. find_version_at_point (index_after n ops) k v x = Some vs \<and> distinct vs \<and>
      set vs = {u. \<exists>t. table_after n ops k u = Some t \<and> is_visible_at t v x}) \<and>
    (\<exists>vs. find_versions_in_valid_time_range (index_after n ops) k q = Some vs \<and> distinct vs \<and>
      set vs = {u. \<exists>t. table_after n ops k u = Some t \<and> touches (valid_time t) q}) \<and>
    (\<exists>vs. find_versions_in_transaction_time_range (index_after n ops) k q = Some vs \<and> distinct vs \<and>
      set vs = {u. \<exists>t. table_after n ops k u = Some t \<and> touches (transaction_time t) q})"
proof -
  have ix: "index_wf (index_after n ops)" "indexed (index_after n ops) = table_after n ops"
    using after_implements [OF assms, of ops] by (simp_all add: index_implements_def)
  have "\<exists>vs. find_version_at_point (index_after n ops) k v x = Some vs \<and> distinct vs \<and>
      set vs = {u. \<exists>t. table_after n ops k u = Some t \<and> is_visible_at t v x}"
    by (rule find_at_point [OF ix(1), of k v x], unfold ix(2), intro exI conjI)
  then show ?thesis
    using range_queries [OF ix(1), of k q] unfolding ix(2) by (intro conjI)
qed

theorem index_refines_table_witness:
  "(1000000 :: nat) \<le> 2 ^ 32 \<and>
    (\<exists>vs. find_version_at_point (index_after 1000000 index_demo) (Node (NodeId 1)) (HybridTimestamp 12 0) (HybridTimestamp 9 0) = Some vs \<and>
      distinct vs \<and> set vs = {u. \<exists>t. table_after 1000000 index_demo (Node (NodeId 1)) u = Some t \<and>
        is_visible_at t (HybridTimestamp 12 0) (HybridTimestamp 9 0)})"
  using million_fits index_refines_table [OF million_fits, of index_demo "Node (NodeId 1)" "HybridTimestamp 12 0" "HybridTimestamp 9 0",
      THEN conjunct1]
  by (intro conjI)

text \<open>
  C18: The extent kept at write time is exact. If only open intervals are closed, at a finite time not
  before their start, then \<open>extent\<close> reports nothing exactly when no version is indexed, and otherwise,
  in both dimensions, the earliest start and the latest start or finite end of all indexed intervals.
\<close>

theorem extent_is_exact:
  assumes "n \<le> 2 ^ 32" and "ops_ok n (\<lambda>_. Map.empty) ops"
  shows "case extent (index_after n ops) of
      None \<Rightarrow> entered (table_after n ops) = {}
    | Some e \<Rightarrow> bounds (valid_time ` entered (table_after n ops)) (Some (e_valid_earliest e)) (Some (e_valid_latest e)) \<and>
        bounds (transaction_time ` entered (table_after n ops)) (Some (e_tx_earliest e)) (Some (e_tx_latest e))"
proof -
  let ?a = "extent_aggregate (index_after n ops)"
  have "extent_of (extent_aggregate (TemporalIndexes_with_config n)) (\<lambda>_. Map.empty)"
    by (simp add: extent_of_def entered_def bounds_def TemporalIndexes_with_config_def empty_extent_def)
  then have "extent_of ?a (table_after n ops)"
    using run_extent [OF assms(1) start_implements _ assms(2)] by blast
  then have b: "bounds (valid_time ` entered (table_after n ops)) (valid_earliest ?a) (valid_latest ?a)"
    "bounds (transaction_time ` entered (table_after n ops)) (tx_earliest ?a) (tx_latest ?a)"
    by (simp_all add: extent_of_def)
  show ?thesis
    using b bounds_shape [OF b(1)] bounds_shape [OF b(2)]
    by (cases "valid_earliest ?a"; cases "valid_latest ?a"; cases "tx_earliest ?a"; cases "tx_latest ?a")
      (simp_all add: extent_def Let_def)
qed

theorem extent_is_exact_witness:
  "ops_ok 1000000 (\<lambda>_. Map.empty) index_demo \<and>
    (case extent (index_after 1000000 index_demo) of
      None \<Rightarrow> entered (table_after 1000000 index_demo) = {}
    | Some e \<Rightarrow> bounds (valid_time ` entered (table_after 1000000 index_demo)) (Some (e_valid_earliest e)) (Some (e_valid_latest e)) \<and>
        bounds (transaction_time ` entered (table_after 1000000 index_demo)) (Some (e_tx_earliest e)) (Some (e_tx_latest e)))"
proof -
  have "ops_ok 1000000 (\<lambda>_. Map.empty) index_demo"
    using index_demo_times by (simp add: index_demo_def may_close_def)
  then show ?thesis
    using extent_is_exact [OF million_fits, of index_demo] by blast
qed

text \<open>
  C16: Replaying a batch is harmless. Under the default policy a batch that repeats indexed versions
  with their starts, as a replay of the log does, succeeds; afterwards point queries see the new
  versions of the batch and, for every version that was indexed before, the interval it already had.
  An interval that was closed in the meantime is not opened again.
\<close>

theorem batch_replay_harmless:
  assumes "n \<le> 2 ^ 32" and "repeats_starts (index_after n ops) k batch"
    and "card (dom (table_after n ops k)) + length batch \<le> n"
  shows "\<exists>ix vs. insert_versions_batch k batch FirstOccurrence (index_after n ops) = (Inr (), ix) \<and>
    find_version_at_point ix k v x = Some vs \<and> distinct vs \<and>
    set vs = {u. \<exists>t. (case table_after n ops k u of None \<Rightarrow> hm_get batch u | Some t \<Rightarrow> Some t) = Some t \<and> is_visible_at t v x}"
proof -
  note im = after_implements [OF assms(1), of ops]
  have old: "index_wf (index_after n ops)" "indexed (index_after n ops) = table_after n ops" "ti_max_versions (index_after n ops) = n"
    using im by (simp_all add: index_implements_def)
  have room: "length (version_metadata (timelines_of (index_after n ops) k)) + length batch \<le> min (ti_max_versions (index_after n ops)) (2 ^ 32)"
    using assms(1,3) old(3) implements_entry(4) [OF im] by simp
  obtain ix where ix: "insert_versions_batch k batch FirstOccurrence (index_after n ops) = (Inr (), ix)" "index_wf ix"
    "indexed ix = (indexed (index_after n ops))
      (k := (\<lambda>u. case indexed (index_after n ops) k u of None \<Rightarrow> hm_get batch u | Some t \<Rightarrow> Some t))"
    by (rule batch_first_ok [OF old(1) assms(2) room])
  have at: "indexed ix k u = (case table_after n ops k u of None \<Rightarrow> hm_get batch u | Some t \<Rightarrow> Some t)" for u
    by (simp only: ix(3) old(2) fun_upd_same)
  show ?thesis
    by (rule find_at_point [OF ix(2), of k v x], unfold at, intro exI conjI, rule ix(1))
qed

lemma index_replay_demo:
  "table_after 1000000 index_demo (Node (NodeId 1)) =
    [VersionId 1 \<mapsto> end_recorded (HybridTimestamp 8 0) (index_interval 10 5), VersionId 2 \<mapsto> index_interval 3 8]"
  by (simp add: index_demo_def fun_eq_iff)

theorem batch_replay_harmless_witness:
  "repeats_starts (index_after 1000000 index_demo) (Node (NodeId 1)) [(VersionId 1, index_interval 10 5), (VersionId 3, index_interval 4 9)] \<and>
    card (dom (table_after 1000000 index_demo (Node (NodeId 1)))) + 2 \<le> 1000000 \<and>
    (\<exists>ix vs. insert_versions_batch (Node (NodeId 1)) [(VersionId 1, index_interval 10 5), (VersionId 3, index_interval 4 9)]
        FirstOccurrence (index_after 1000000 index_demo) = (Inr (), ix) \<and>
      find_version_at_point ix (Node (NodeId 1)) (HybridTimestamp 12 0) (HybridTimestamp 8 0) = Some vs \<and> distinct vs \<and>
      set vs = {u. \<exists>t. (case table_after 1000000 index_demo (Node (NodeId 1)) u of
          None \<Rightarrow> hm_get [(VersionId 1, index_interval 10 5), (VersionId 3, index_interval 4 9)] u
        | Some t \<Rightarrow> Some t) = Some t \<and> is_visible_at t (HybridTimestamp 12 0) (HybridTimestamp 8 0)})"
proof -
  let ?batch = "[(VersionId 1, index_interval 10 5), (VersionId 3, index_interval 4 9)]"
  have "indexed (index_after 1000000 index_demo) = table_after 1000000 index_demo"
    using after_implements [OF million_fits, of index_demo] by (simp only: index_implements_def)
  then have rep: "repeats_starts (index_after 1000000 index_demo) (Node (NodeId 1)) ?batch"
    by (simp add: repeats_starts_def index_replay_demo end_recorded_def)
  have card: "card (dom (table_after 1000000 index_demo (Node (NodeId 1)))) + 2 \<le> 1000000"
    by (simp add: index_replay_demo)
  then have room: "card (dom (table_after 1000000 index_demo (Node (NodeId 1)))) + length ?batch \<le> 1000000"
    by simp
  show ?thesis
    by (intro conjI rep card batch_replay_harmless [OF million_fits rep room])
qed

text \<open>
  C20: A rejected batch is not without effect. A batch that holds a new version and one that is
  already indexed is refused under the policy \<open>Reject\<close> before the timelines change, but by then the new
  version has its metadata entry. From then on it is in no query result, and a later single
  insertion of it fails as a duplicate.
\<close>

theorem rejected_batch_blocks_version:
  assumes "n \<le> 2 ^ 32" and "table_after n ops k u = None" and "table_after n ops k w = Some t0"
    and "card (dom (table_after n ops k)) + 3 \<le> n"
  shows "\<exists>ix. insert_versions_batch k [(u, t), (w, t')] Reject (index_after n ops) = (Inl (StorageErr DuplicateId), ix) \<and>
    fst (insert_version k u t ix) = Inl (StorageErr DuplicateId) \<and>
    (\<forall>v x. \<exists>vs. find_version_at_point ix k v x = Some vs \<and> u \<notin> set vs)"
proof -
  let ?ix = "index_after n ops" and ?batch = "[(u, t), (w, t')]"
  note im = after_implements [OF assms(1), of ops] and e = implements_entry [OF after_implements [OF assms(1), of ops], of k]
  have old: "index_wf ?ix" "ti_max_versions ?ix = n"
    using im by (simp_all add: index_implements_def)
  obtain ts1 where ts1: "batch_entries ?batch [] (timelines_of ?ix k) =
      (Inr (batch_items valid_time (find_metadata_index ts1) ?batch, batch_items transaction_time (find_metadata_index ts1) ?batch), ts1)"
    "extends_metadata (timelines_of ?ix k) ts1" "fst ` set ?batch \<subseteq> dom (find_metadata_index ts1)"
    "length (version_metadata ts1) \<le> length (version_metadata (timelines_of ?ix k)) + 2"
    using batch_entries_props [OF e(1), of "[]" ?batch] assms(1,4) e(4) by (auto simp: map_le_def)
  have wf: "timelines_wf ts1" and same: "interval_in ts1 = table_after n ops k"
    using ts1(2) e(2) by (simp_all add: extends_metadata_def)
  obtain i where i: "find_metadata_index ts1 w = Some i" "i \<in> dom (span_of (valid_tl ts1))"
    using same assms(3) interval_in_Some [of ts1 w t0] by (auto simp: domIff)
  have "batch_refused (map metadata_idx (batch_items valid_time (find_metadata_index ts1) ?batch)) Reject (valid_tl ts1)"
    using i unfolding batch_items_idx by (auto simp: batch_refused_def)
  then have refuse: "tl_insert_batch (batch_items valid_time (find_metadata_index ts1) ?batch) Reject (valid_tl ts1) =
      (Inl (StorageErr DuplicateId), valid_tl ts1)"
    using tl_insert_batch_cases(1) wf by (simp add: timelines_wf_def)
  define ix where "ix = put_timelines k ts1 ?ix"
  have "insert_versions_batch k ?batch Reject ?ix = (Inl (StorageErr DuplicateId), ix)"
    using assms(4) old(2) e(4) ts1(1) refuse by (simp add: insert_versions_batch_def Let_def ix_def)
  moreover have "fst (insert_version k u t ix) = Inl (StorageErr DuplicateId)"
    using ts1(3,4) assms(4) e(4) old(2) by (auto simp: insert_version_def Let_def ix_def put_timelines_def timelines_of_def)
  moreover have "\<exists>vs. find_version_at_point ix k v x = Some vs \<and> u \<notin> set vs" for v x
  proof -
    have q: "index_wf ix" "indexed ix k u = None"
      using put_index [OF old(1) wf, of k] same assms(2) by (simp_all add: ix_def)
    obtain vs where "find_version_at_point ix k v x = Some vs"
      "set vs = {u. \<exists>t. indexed ix k u = Some t \<and> is_visible_at t v x}"
      by (rule find_at_point [OF q(1)])
    then show ?thesis
      using q(2) by simp
  qed
  ultimately show ?thesis
    by blast
qed

theorem rejected_batch_blocks_version_witness:
  "table_after 1000000 index_demo (Node (NodeId 1)) (VersionId 3) = None \<and>
    table_after 1000000 index_demo (Node (NodeId 1)) (VersionId 2) = Some (index_interval 3 8) \<and>
    card (dom (table_after 1000000 index_demo (Node (NodeId 1)))) + 3 \<le> 1000000 \<and>
    (\<exists>ix. insert_versions_batch (Node (NodeId 1)) [(VersionId 3, index_interval 4 9), (VersionId 2, index_interval 3 8)] Reject
        (index_after 1000000 index_demo) = (Inl (StorageErr DuplicateId), ix) \<and>
      fst (insert_version (Node (NodeId 1)) (VersionId 3) (index_interval 4 9) ix) = Inl (StorageErr DuplicateId) \<and>
      (\<forall>v x. \<exists>vs. find_version_at_point ix (Node (NodeId 1)) v x = Some vs \<and> VersionId 3 \<notin> set vs))"
proof -
  have t: "table_after 1000000 index_demo (Node (NodeId 1)) (VersionId 3) = None"
    "table_after 1000000 index_demo (Node (NodeId 1)) (VersionId 2) = Some (index_interval 3 8)"
    "card (dom (table_after 1000000 index_demo (Node (NodeId 1)))) + 3 \<le> 1000000"
    by (simp_all add: index_replay_demo)
  show ?thesis
    by (intro conjI t rejected_batch_blocks_version [OF million_fits t])
qed

end
